(* ===== verification/Prelude.thy ===== *)
theory Prelude
  imports Main "HOL-Library.Word" "HOL-Library.List_Lexorder" "HOL-Library.AList"
begin

text \<open>
  Shared vocabulary of the development: the machine integer types of the Go sources, the
  little-endian codecs of \<^verbatim>\<open>encoding/binary\<close>, slices of byte arrays, \<^verbatim>\<open>bytes.Compare\<close>,
  the errors an operation can return, Go maps as association lists, and the operating
  system's files as the sources use them (\<^verbatim>\<open>os.File\<close>), with a schedule of the I/O faults
  an operation may meet.
\<close>

section \<open>Machine integers and byte strings\<close>

type_synonym u8 = "8 word"
type_synonym u16 = "16 word"
type_synonym u32 = "32 word"
type_synonym u64 = "64 word"
type_synonym bytes = "u8 list"

named_theorems byte_simps \<open>lengths, slices and codecs of byte strings\<close>
named_theorems result_splits \<open>case splits of the result types\<close>

section \<open>Results and errors\<close>

text \<open>
  One constructor per error the storage and key/value layers return; \<open>ErrMsg\<close> is an error of the
  layers above, a format string with its arguments, and \<open>ErrCtx\<close> is
  \<^verbatim>\<open>fmt.Errorf("context: %w", err)\<close>. \<open>Panic\<close> is a Go run-time panic (an index out of
  range, a nil dereference) and \<open>Diverge\<close> a loop that never ends: neither is a value
  the source returns, so a property that excludes them is a safety or termination claim.
\<close>

datatype db_error =
    ErrIO
  | ErrEOF
  | ErrCorruptSize nat
  | ErrNoSuchPage u32 u32
  | ErrPageFull
  | ErrTooLarge
  | ErrRecordHeader u16
  | ErrRecordBody u16
  | ErrPageID u32
  | ErrFreeOffset u32 u16
  | ErrNextPage u32 u32
  | ErrWalTooLarge
  | ErrWalMagic
  | ErrWalLength
  | ErrWalChecksum
  | ErrWalOp u8
  | ErrWalTxKey
  | ErrWalCommit
  | ErrIndexDecode
  | ErrIndexMismatch bytes
  | ErrSnapshotsActive
  | ErrMsg string "bytes list"
  | ErrCtx string db_error
  | Panic
  | Diverge

type_synonym 'a result = "db_error + 'a"

lemmas result_case_splits [result_splits] = sum.splits option.splits prod.splits if_splits

section \<open>Little-endian codecs\<close>

text \<open>
  \<open>le_bytes n x\<close> is what \<^verbatim>\<open>binary.LittleEndian.PutUintN\<close> stores for \<open>N = 8 n\<close>, and
  \<open>le_nat\<close> what \<^verbatim>\<open>UintN\<close> reads back.
\<close>

fun le_bytes :: "nat \<Rightarrow> nat \<Rightarrow> bytes" where
  "le_bytes 0 x = []"
| "le_bytes (Suc n) x = word_of_nat (x mod 256) # le_bytes n (x div 256)"

fun le_nat :: "bytes \<Rightarrow> nat" where
  "le_nat [] = 0"
| "le_nat (b # bs) = unat b + 256 * le_nat bs"

definition PutUint16 :: "u16 \<Rightarrow> bytes" where
  "PutUint16 v = le_bytes 2 (unat v)"

definition PutUint32 :: "u32 \<Rightarrow> bytes" where
  "PutUint32 v = le_bytes 4 (unat v)"

definition PutUint64 :: "u64 \<Rightarrow> bytes" where
  "PutUint64 v = le_bytes 8 (unat v)"

definition Uint16 :: "bytes \<Rightarrow> u16" where
  "Uint16 bs = word_of_nat (le_nat (take 2 bs))"

definition Uint32 :: "bytes \<Rightarrow> u32" where
  "Uint32 bs = word_of_nat (le_nat (take 4 bs))"

definition Uint64 :: "bytes \<Rightarrow> u64" where
  "Uint64 bs = word_of_nat (le_nat (take 8 bs))"

lemma unat_bound: "unat (w :: 'a::len word) < 2 ^ LENGTH('a)"
  by simp

lemma length_le_bytes [simp, byte_simps]: "length (le_bytes n x) = n"
  by (induction n x rule: le_bytes.induct) auto

lemma le_nat_le_bytes [byte_simps]: "le_nat (le_bytes n x) = x mod 256 ^ n"
proof (induction n x rule: le_bytes.induct)
  case (2 n x)
  have "unat (word_of_nat (x mod 256) :: u8) = x mod 256"
    by (simp add: unat_of_nat)
  with "2.IH" show ?case
    by (simp add: mod_mult2_eq)
qed simp

lemma le_bytes_le_nat: "le_bytes (length bs) (le_nat bs) = bs"
proof (induction bs)
  case (Cons b bs)
  have b: "unat b < 256"
    using unat_bound [of b] by simp
  then have "(unat b + 256 * le_nat bs) mod 256 = unat b"
    and "(unat b + 256 * le_nat bs) div 256 = le_nat bs"
    by simp_all
  with Cons.IH show ?case
    by simp
qed simp

lemma le_nat_less: "le_nat bs < 256 ^ length bs"
proof (induction bs)
  case (Cons b bs)
  have "unat b < 256"
    using unat_bound [of b] by simp
  with Cons.IH show ?case
    by simp
qed simp

lemma length_PutUint [simp, byte_simps]:
  "length (PutUint16 a) = 2" "length (PutUint32 b) = 4" "length (PutUint64 c) = 8"
  by (simp_all add: PutUint16_def PutUint32_def PutUint64_def)

lemma Uint16_PutUint16 [simp, byte_simps]: "Uint16 (PutUint16 v) = v"
proof -
  have "unat v mod 256 ^ 2 = unat v"
    by (rule mod_less) (rule less_le_trans [OF unat_bound], simp)
  then show ?thesis
    by (simp add: Uint16_def PutUint16_def le_nat_le_bytes del: power_numeral)
qed

lemma Uint32_PutUint32 [simp, byte_simps]: "Uint32 (PutUint32 v) = v"
proof -
  have "unat v mod 256 ^ 4 = unat v"
    by (rule mod_less) (rule less_le_trans [OF unat_bound], simp)
  then show ?thesis
    by (simp add: Uint32_def PutUint32_def le_nat_le_bytes del: power_numeral)
qed

lemma Uint64_PutUint64 [simp, byte_simps]: "Uint64 (PutUint64 v) = v"
proof -
  have "unat v mod 256 ^ 8 = unat v"
    by (rule mod_less) (rule less_le_trans [OF unat_bound], simp)
  then show ?thesis
    by (simp add: Uint64_def PutUint64_def le_nat_le_bytes del: power_numeral)
qed

lemma le_bytes_numeral [byte_simps]:
  "le_bytes (numeral k) x = word_of_nat (x mod 256) # le_bytes (pred_numeral k) (x div 256)"
  by (simp only: numeral_eq_Suc [of k] le_bytes.simps)

section \<open>Slices of arrays\<close>

text \<open>
  \<open>go_slice i j xs\<close> is \<^verbatim>\<open>xs[i:j]\<close> and \<open>go_copy i ys xs\<close> is \<^verbatim>\<open>copy(xs[i:], ys)\<close> where
  \<open>ys\<close> fits.
\<close>

definition go_slice :: "nat \<Rightarrow> nat \<Rightarrow> 'a list \<Rightarrow> 'a list" where
  "go_slice i j xs = take (j - i) (drop i xs)"

definition go_copy :: "nat \<Rightarrow> 'a list \<Rightarrow> 'a list \<Rightarrow> 'a list" where
  "go_copy i ys xs = take i xs @ ys @ drop (i + length ys) xs"

lemma length_slice [byte_simps]: "length (go_slice i j xs) = min (j - i) (length xs - i)"
  by (simp add: go_slice_def min_def)

lemma length_copy [simp, byte_simps]:
  "i + length ys \<le> length xs \<Longrightarrow> length (go_copy i ys xs) = length xs"
  by (simp add: go_copy_def)

lemma slice_copy_same [byte_simps]:
  "i + length ys \<le> length xs \<Longrightarrow> j = i + length ys \<Longrightarrow> go_slice i j (go_copy i ys xs) = ys"
  by (simp add: go_slice_def go_copy_def)

lemma slice_copy_before [byte_simps]:
  assumes "j \<le> i" and "i + length ys \<le> length xs"
  shows "go_slice k j (go_copy i ys xs) = go_slice k j xs"
proof (cases "k \<le> i")
  case True
  then have "drop k (go_copy i ys xs) = take (i - k) (drop k xs) @ ys @ drop (i + length ys) xs"
    using assms by (simp add: go_copy_def drop_take)
  then show ?thesis
    using assms True by (simp add: go_slice_def min_def)
next
  case False
  with assms show ?thesis by (simp add: go_slice_def)
qed

lemma slice_copy_after [byte_simps]:
  assumes "i + length ys \<le> k" and "i + length ys \<le> length xs"
  shows "go_slice k j (go_copy i ys xs) = go_slice k j xs"
proof -
  have "drop k (go_copy i ys xs) = drop (k - (i + length ys)) (drop (i + length ys) xs)"
    using assms by (simp add: go_copy_def)
  with assms show ?thesis by (simp add: go_slice_def)
qed

lemma slice_inner [byte_simps]:
  "b \<le> d - c \<Longrightarrow> go_slice a b (go_slice c d xs) = go_slice (c + a) (c + b) xs"
  by (simp add: go_slice_def drop_take min_def add.commute)

lemma slice_append_left [byte_simps]: "j \<le> length xs \<Longrightarrow> go_slice i j (xs @ ys) = go_slice i j xs"
  by (simp add: go_slice_def)

lemma slice_append_right [byte_simps]:
  "length xs \<le> i \<Longrightarrow> go_slice i j (xs @ ys) = go_slice (i - length xs) (j - length xs) ys"
  by (simp add: go_slice_def)

lemma slice_full [byte_simps]: "j = length xs \<Longrightarrow> go_slice 0 j xs = xs"
  by (simp add: go_slice_def)

section \<open>Lexicographic comparison of byte strings\<close>

text \<open>\<^verbatim>\<open>bytes.Compare\<close>: the first differing byte decides, a proper prefix is smaller.\<close>

fun bytes_Compare :: "bytes \<Rightarrow> bytes \<Rightarrow> int" where
  "bytes_Compare [] [] = 0"
| "bytes_Compare [] (y # ys) = -1"
| "bytes_Compare (x # xs) [] = 1"
| "bytes_Compare (x # xs) (y # ys) =
     (if x < y then -1 else if y < x then 1 else bytes_Compare xs ys)"

lemma bytes_Compare_less [simp]: "bytes_Compare a b < 0 \<longleftrightarrow> a < b"
  by (induction a b rule: bytes_Compare.induct) auto

lemma bytes_Compare_eq [simp]: "bytes_Compare a b = 0 \<longleftrightarrow> a = b"
  by (induction a b rule: bytes_Compare.induct) auto

lemma bytes_Compare_ge [simp]: "0 \<le> bytes_Compare a b \<longleftrightarrow> b \<le> a"
  by (metis bytes_Compare_less linorder_not_le)

section \<open>Go maps\<close>

text \<open>
  A Go map is an association list with distinct keys: \<open>map_of\<close> looks a key up,
  \<open>AList.update\<close> assigns and \<open>AList.delete\<close> is \<^verbatim>\<open>delete(m, k)\<close>. The order of the
  list has no meaning: where the source ranges over a map, the order is an argument.
\<close>

lemma keys_delete [simp]: "fst ` set (AList.delete k m) = fst ` set m - {k}"
  by (auto simp: AList.delete_eq image_iff)

lemma keys_update [simp]: "fst ` set (AList.update k v m) = insert k (fst ` set m)"
  by (simp add: AList.dom_update)

lemma distinct_keys_delete [simp]:
  "distinct (map fst m) \<Longrightarrow> distinct (map fst (AList.delete k m))"
  by (rule AList.distinct_delete)

lemma distinct_keys_update [simp]:
  "distinct (map fst m) \<Longrightarrow> distinct (map fst (AList.update k v m))"
  by (rule AList.distinct_update)

lemmas gomap_simps [simp] = AList.update_conv' AList.delete_conv'

section \<open>Operating system files\<close>

text \<open>
  An \<^verbatim>\<open>os.File\<close> holds its contents and the outcomes of the write and sync calls to come:
  \<open>IoFail n\<close> is a call that fails after \<open>n\<close> of its bytes reached the file, and once the
  schedule is used up every call succeeds. A failing sync leaves the contents alone. Reading and
  opening a file that is there do not fail: a read only finds the end of the file.
\<close>

datatype io_outcome = IoOk | IoFail nat

record os_file =
  fdata :: bytes
  faults :: "io_outcome list"

definition file_of :: "bytes \<Rightarrow> os_file" where
  "file_of bs = \<lparr>fdata = bs, faults = []\<rparr>"

definition next_outcome :: "os_file \<Rightarrow> io_outcome" where
  "next_outcome f = (case faults f of [] \<Rightarrow> IoOk | r # _ \<Rightarrow> r)"

definition overwrite :: "nat \<Rightarrow> bytes \<Rightarrow> bytes \<Rightarrow> bytes" where
  "overwrite off bs d = take off (d @ replicate (off - length d) 0) @ bs @ drop (off + length bs) d"

definition os_WriteAt :: "bytes \<Rightarrow> nat \<Rightarrow> os_file \<Rightarrow> os_file \<times> db_error option" where
  "os_WriteAt bs off f =
     (case next_outcome f of
        IoOk \<Rightarrow> (f\<lparr>fdata := overwrite off bs (fdata f), faults := tl (faults f)\<rparr>, None)
      | IoFail n \<Rightarrow>
          (f\<lparr>fdata := overwrite off (take n bs) (fdata f), faults := tl (faults f)\<rparr>, Some ErrIO))"

definition os_Append :: "bytes \<Rightarrow> os_file \<Rightarrow> os_file \<times> db_error option" where
  "os_Append bs f = os_WriteAt bs (length (fdata f)) f"

definition os_ReadAt :: "nat \<Rightarrow> nat \<Rightarrow> os_file \<Rightarrow> bytes result" where
  "os_ReadAt n off f =
     (if off + n \<le> length (fdata f) then Inr (go_slice off (off + n) (fdata f)) else Inl ErrEOF)"

definition os_Sync :: "os_file \<Rightarrow> os_file \<times> db_error option" where
  "os_Sync f =
     (f\<lparr>faults := tl (faults f)\<rparr>,
      case next_outcome f of IoOk \<Rightarrow> None | IoFail n \<Rightarrow> Some ErrIO)"

definition os_Truncate :: "os_file \<Rightarrow> os_file \<times> db_error option" where
  "os_Truncate f =
     (case next_outcome f of
        IoOk \<Rightarrow> (f\<lparr>fdata := [], faults := tl (faults f)\<rparr>, None)
      | IoFail n \<Rightarrow> (f\<lparr>faults := tl (faults f)\<rparr>, Some ErrIO))"

lemma next_outcome_no_faults [simp]: "faults f = [] \<Longrightarrow> next_outcome f = IoOk"
  by (simp add: next_outcome_def)

lemma overwrite_end [simp]: "overwrite (length d) bs d = d @ bs"
  by (simp add: overwrite_def)

lemma length_overwrite [byte_simps]:
  "length (overwrite off bs d) = max (length d) (off + length bs)"
  by (simp add: overwrite_def)

lemma slice_overwrite_same [byte_simps]:
  "j = off + length bs \<Longrightarrow> go_slice off j (overwrite off bs d) = bs"
  by (simp add: overwrite_def go_slice_def)

lemma slice_overwrite_other [byte_simps]:
  assumes "j \<le> length d" and "j \<le> off \<or> off + length bs \<le> i"
  shows "go_slice i j (overwrite off bs d) = go_slice i j d"
proof (cases "j \<le> off")
  case True
  have *: "overwrite off bs d = take off d @ (replicate (off - length d) 0 @ bs @ drop (off + length bs) d)"
    by (simp add: overwrite_def)
  have "go_slice i j (take off d @ ys) = go_slice i j (take off d)" for ys :: bytes
    using True assms(1) by (intro slice_append_left) simp
  also have "go_slice i j (take off d) = go_slice i j d"
    using True by (cases "i \<le> j") (simp_all add: go_slice_def drop_take min_def)
  finally show ?thesis
    unfolding * .
next
  case False
  with assms have "off + length bs \<le> i" by simp
  then have "drop i (overwrite off bs d) = drop (i - (off + length bs)) (drop (off + length bs) d)"
    using False assms(1) by (simp add: overwrite_def)
  with \<open>off + length bs \<le> i\<close> show ?thesis by (simp add: go_slice_def)
qed

end
