(* ===== verification/Page.thy ===== *)
theory Page
  imports Prelude
begin

text \<open>
  The fixed-size page of \<^verbatim>\<open>storage/page.go\<close>: a byte array whose first sixteen bytes hold
  the page ID, the free offset and the next-page pointer. The lemmas show that every header
  field reads back what was stored, that the setters leave the other fields and the record
  area alone, and that the size of the array never changes.
\<close>

section \<open>Definitions\<close>

definition PageSize :: nat where
  "PageSize = 4096"

definition HeaderSize :: nat where
  "HeaderSize = 16"

definition NoPage :: u32 where
  "NoPage = not 0"

record Page =
  ID :: u32
  Data :: bytes

definition NewPage :: "u32 \<Rightarrow> Page" where
  "NewPage pid =
     \<lparr>ID = pid,
      Data = go_copy 6 (PutUint32 NoPage)
              (go_copy 4 (PutUint16 (word_of_nat HeaderSize))
                (go_copy 0 (PutUint32 pid) (replicate PageSize 0)))\<rparr>"

definition FreeOffset :: "Page \<Rightarrow> u16" where
  "FreeOffset p = Uint16 (go_slice 4 6 (Data p))"

definition SetFreeOffset :: "u16 \<Rightarrow> Page \<Rightarrow> Page" where
  "SetFreeOffset off p = p\<lparr>Data := go_copy 4 (PutUint16 off) (Data p)\<rparr>"

definition NextPageID :: "Page \<Rightarrow> u32" where
  "NextPageID p = Uint32 (go_slice 6 10 (Data p))"

definition SetNextPageID :: "u32 \<Rightarrow> Page \<Rightarrow> Page" where
  "SetNextPageID pid p = p\<lparr>Data := go_copy 6 (PutUint32 pid) (Data p)\<rparr>"

definition Remaining :: "Page \<Rightarrow> int" where
  "Remaining p = int PageSize - int (unat (FreeOffset p))"

text \<open>
  The page ID stored in the page itself, read by \<^verbatim>\<open>validatePages\<close> through
  \<^verbatim>\<open>binary.LittleEndian.Uint32(page.Data[0:4])\<close>.
\<close>

definition HeaderID :: "Page \<Rightarrow> u32" where
  "HeaderID p = Uint32 (go_slice 0 4 (Data p))"

text \<open>\<^verbatim>\<open>Data\<close> is a \<^verbatim>\<open>[PageSize]byte\<close>: its length is part of its Go type.\<close>

definition wf_page :: "Page \<Rightarrow> bool" where
  "wf_page p \<longleftrightarrow> length (Data p) = PageSize"

section \<open>Header fields\<close>

lemmas page_consts = PageSize_def HeaderSize_def

lemmas page_defs = NewPage_def FreeOffset_def SetFreeOffset_def NextPageID_def SetNextPageID_def
  HeaderID_def wf_page_def page_consts

lemma wf_NewPage [simp]: "wf_page (NewPage pid)"
  by (simp add: page_defs)

lemma wf_SetFreeOffset [simp]: "wf_page p \<Longrightarrow> wf_page (SetFreeOffset off p)"
  by (simp add: page_defs)

lemma wf_SetNextPageID [simp]: "wf_page p \<Longrightarrow> wf_page (SetNextPageID pid p)"
  by (simp add: page_defs)

lemma ID_simps [simp]:
  "ID (NewPage pid) = pid" "ID (SetFreeOffset off p) = ID p" "ID (SetNextPageID pid p) = ID p"
  by (simp_all add: page_defs)

lemma FreeOffset_SetFreeOffset [simp]: "wf_page p \<Longrightarrow> FreeOffset (SetFreeOffset off p) = off"
  by (simp add: page_defs byte_simps)

lemma FreeOffset_SetNextPageID [simp]: "wf_page p \<Longrightarrow> FreeOffset (SetNextPageID pid p) = FreeOffset p"
  by (simp add: page_defs byte_simps)

lemma NextPageID_SetNextPageID [simp]: "wf_page p \<Longrightarrow> NextPageID (SetNextPageID pid p) = pid"
  by (simp add: page_defs byte_simps)

lemma NextPageID_SetFreeOffset [simp]: "wf_page p \<Longrightarrow> NextPageID (SetFreeOffset off p) = NextPageID p"
  by (simp add: page_defs byte_simps)

lemma HeaderID_setters [simp]:
  assumes "wf_page p"
  shows "HeaderID (SetFreeOffset off p) = HeaderID p" "HeaderID (SetNextPageID pid p) = HeaderID p"
  using assms by (simp_all add: page_defs byte_simps)

lemma NewPage_fields [simp]:
  "FreeOffset (NewPage pid) = 16" "NextPageID (NewPage pid) = NoPage" "HeaderID (NewPage pid) = pid"
  by (simp_all add: page_defs byte_simps)

lemma records_setters [simp]:
  assumes "wf_page p" and "HeaderSize \<le> i"
  shows "go_slice i j (Data (SetFreeOffset off p)) = go_slice i j (Data p)"
    "go_slice i j (Data (SetNextPageID pid p)) = go_slice i j (Data p)"
  using assms by (simp_all add: page_defs byte_simps)

section \<open>The last page ID\<close>

lemma unat_NoPage: "unat NoPage = 4294967295"
  by (simp add: NoPage_def unsigned_minus_1_eq_mask mask_eq_exp_minus_1)

lemma unat_next_page: "n < NoPage \<Longrightarrow> unat (n + 1) = Suc (unat n)"
  by (simp add: word_less_nat_alt unat_NoPage unat_word_ariths)

lemma less_next_page: "n < NoPage \<Longrightarrow> i < n + 1 \<longleftrightarrow> i = n \<or> i < n"
  by (auto simp: word_less_nat_alt [of i] unat_next_page word_unat_eq_iff less_Suc_eq)

end
