(* ===== verification/Buffer_Pool.thy ===== *)
theory Buffer_Pool
  imports Page
begin

text \<open>
  The LRU page cache of \<^verbatim>\<open>storage/buffer_pool.go\<close>. The two disk callbacks of the Go struct
  (\<^verbatim>\<open>readDisk\<close>, \<^verbatim>\<open>writeDisk\<close>) are arguments of the operations and act on a disk state
  \<open>'d\<close>; what the pool relies on of them is the locale \<open>page_disk\<close>. The abstract
  contract is the \<open>pool_view\<close>: the page a reader of the pool is owed for an ID, cached or
  on disk. Lookups and evictions never change it, \<open>Put\<close> changes it at one ID, and a
  successful \<open>Flush\<close> brings the disk up to it.

  A \<^verbatim>\<open>list.Element\<close> is named by the ID of the page it was pushed for, so \<open>lru\<close> lists the
  IDs from front to back and \<open>items\<close> gives the entry each element carries. Pages are
  passed by value: a client that changes a page obtained from the pool hands it back with
  \<open>Put\<close>, as every caller in the sources does. The mutex sections run one after another;
  \<open>Get\<close> is its two sections in sequence, the second with its own re-check.
\<close>

section \<open>Definitions\<close>

record poolEntry =
  pe_page :: Page
  pe_dirty :: bool

record BufferPoolStats =
  Hits :: u64
  Misses :: u64
  CachedPages :: int
  DirtyPages :: int

record BufferPool =
  capacity :: int
  items :: "(u32 \<times> poolEntry) list"
  lru :: "u32 list"
  hits :: u64
  misses :: u64

type_synonym 'd disk_read = "'d \<Rightarrow> u32 \<Rightarrow> Page result"
type_synonym 'd disk_write = "'d \<Rightarrow> Page \<Rightarrow> 'd \<times> db_error option"

definition NewBufferPool :: "int \<Rightarrow> BufferPool" where
  "NewBufferPool cap =
     \<lparr>capacity = (if cap < 1 then 1 else cap), items = [], lru = [], hits = 0, misses = 0\<rparr>"

definition MoveToFront :: "u32 \<Rightarrow> u32 list \<Rightarrow> u32 list" where
  "MoveToFront e l = e # remove1 e l"

definition makeRoomLocked ::
  "'d disk_write \<Rightarrow> BufferPool \<Rightarrow> 'd \<Rightarrow> BufferPool \<times> 'd \<times> db_error option" where
  "makeRoomLocked writeDisk b d =
     (if int (length (lru b)) < capacity b then (b, d, None)
      else if lru b = [] then (b, d, Some Panic)
      else
        (case map_of (items b) (last (lru b)) of
           None \<Rightarrow> (b, d, Some Panic)
         | Some pe \<Rightarrow>
             let evicted = b\<lparr>items := AList.delete (ID (pe_page pe)) (items b),
                             lru := butlast (lru b)\<rparr>
             in if pe_dirty pe
                then (case writeDisk d (pe_page pe) of
                        (d', Some err) \<Rightarrow> (b, d', Some (ErrCtx ''evicting page'' err))
                      | (d', None) \<Rightarrow> (evicted, d', None))
                else (evicted, d, None)))"

definition Get_insert ::
  "'d disk_write \<Rightarrow> u32 \<Rightarrow> Page \<Rightarrow> BufferPool \<Rightarrow> 'd \<Rightarrow> BufferPool \<times> 'd \<times> Page result" where
  "Get_insert writeDisk pid page b d =
     (case map_of (items b) pid of
        Some pe \<Rightarrow> (b\<lparr>lru := MoveToFront pid (lru b)\<rparr>, d, Inr (pe_page pe))
      | None \<Rightarrow>
          (case makeRoomLocked writeDisk b d of
             (b', d', Some err) \<Rightarrow> (b', d', Inl err)
           | (b', d', None) \<Rightarrow>
               (b'\<lparr>items := AList.update pid \<lparr>pe_page = page, pe_dirty = False\<rparr> (items b'),
                   lru := pid # lru b'\<rparr>, d', Inr page)))"

definition Get ::
  "'d disk_read \<Rightarrow> 'd disk_write \<Rightarrow> u32 \<Rightarrow> BufferPool \<Rightarrow> 'd \<Rightarrow> BufferPool \<times> 'd \<times> Page result" where
  "Get readDisk writeDisk pid b d =
     (case map_of (items b) pid of
        Some pe \<Rightarrow>
          (b\<lparr>hits := hits b + 1, lru := MoveToFront pid (lru b)\<rparr>, d, Inr (pe_page pe))
      | None \<Rightarrow>
          let b1 = b\<lparr>misses := misses b + 1\<rparr>
          in (case readDisk d pid of
                Inl err \<Rightarrow> (b1, d, Inl err)
              | Inr page \<Rightarrow> Get_insert writeDisk pid page b1 d))"

definition Stats :: "BufferPool \<Rightarrow> BufferPoolStats" where
  "Stats b =
     \<lparr>Hits = hits b, Misses = misses b, CachedPages = int (length (items b)),
      DirtyPages = int (length (filter (\<lambda>(k, pe). pe_dirty pe) (items b)))\<rparr>"

definition Put ::
  "'d disk_write \<Rightarrow> Page \<Rightarrow> bool \<Rightarrow> BufferPool \<Rightarrow> 'd \<Rightarrow> BufferPool \<times> 'd \<times> db_error option" where
  "Put writeDisk page dirty b d =
     (case map_of (items b) (ID page) of
        Some pe \<Rightarrow>
          (b\<lparr>items := AList.update (ID page)
                        \<lparr>pe_page = page, pe_dirty = pe_dirty pe \<or> dirty\<rparr> (items b),
             lru := MoveToFront (ID page) (lru b)\<rparr>, d, None)
      | None \<Rightarrow>
          (case makeRoomLocked writeDisk b d of
             (b', d', Some err) \<Rightarrow> (b', d', Some err)
           | (b', d', None) \<Rightarrow>
               (b'\<lparr>items := AList.update (ID page) \<lparr>pe_page = page, pe_dirty = dirty\<rparr> (items b'),
                   lru := ID page # lru b'\<rparr>, d', None)))"

text \<open>
  \<^verbatim>\<open>for _, e := range b.items\<close> visits the entries in an order the Go runtime chooses: the
  order is the argument \<open>ord\<close>, a list of the keys of \<open>items\<close>.
\<close>

fun Flush :: "'d disk_write \<Rightarrow> u32 list \<Rightarrow> BufferPool \<Rightarrow> 'd \<Rightarrow> BufferPool \<times> 'd \<times> db_error option" where
  "Flush writeDisk [] b d = (b, d, None)"
| "Flush writeDisk (k # ord) b d =
     (case map_of (items b) k of
        None \<Rightarrow> Flush writeDisk ord b d
      | Some pe \<Rightarrow>
          if pe_dirty pe
          then (case writeDisk d (pe_page pe) of
                  (d', Some err) \<Rightarrow> (b, d', Some err)
                | (d', None) \<Rightarrow>
                    Flush writeDisk ord
                      (b\<lparr>items := AList.update k (pe\<lparr>pe_dirty := False\<rparr>) (items b)\<rparr>) d')
          else Flush writeDisk ord b d)"

section \<open>The contract\<close>

text \<open>
  The page owed to a reader, the invariant of the pool, and the order on views: every page
  one view shows, the other shows unchanged. (A write past the end of the file may turn a
  missing page into a page of zeros, so views can grow.)
\<close>

definition pool_view :: "'d disk_read \<Rightarrow> BufferPool \<Rightarrow> 'd \<Rightarrow> u32 \<Rightarrow> Page result" where
  "pool_view readDisk b d i =
     (case map_of (items b) i of Some pe \<Rightarrow> Inr (pe_page pe) | None \<Rightarrow> readDisk d i)"

definition entry_ok :: "'d disk_read \<Rightarrow> 'd \<Rightarrow> u32 \<Rightarrow> poolEntry \<Rightarrow> bool" where
  "entry_ok readDisk d i pe \<longleftrightarrow>
     ID (pe_page pe) = i \<and> wf_page (pe_page pe) \<and>
     (\<not> pe_dirty pe \<longrightarrow> readDisk d i = Inr (pe_page pe))"

definition pool_ok :: "'d disk_read \<Rightarrow> BufferPool \<Rightarrow> 'd \<Rightarrow> bool" where
  "pool_ok readDisk b d \<longleftrightarrow>
     int (length (lru b)) \<le> capacity b \<and> 1 \<le> capacity b \<and> distinct (lru b) \<and>
     distinct (map fst (items b)) \<and> set (lru b) = fst ` set (items b) \<and>
     (\<forall>i pe. map_of (items b) i = Some pe \<longrightarrow> entry_ok readDisk d i pe)"

definition view_le :: "(u32 \<Rightarrow> Page result) \<Rightarrow> (u32 \<Rightarrow> Page result) \<Rightarrow> bool" where
  "view_le v w \<longleftrightarrow> (\<forall>i p. v i = Inr p \<longrightarrow> w i = Inr p)"

lemma view_le_refl [simp]: "view_le v v"
  by (simp add: view_le_def)

lemma view_leD: "view_le v w \<Longrightarrow> v i = Inr p \<Longrightarrow> w i = Inr p"
  by (simp add: view_le_def)

lemma view_le_trans [trans]: "view_le u v \<Longrightarrow> view_le v w \<Longrightarrow> view_le u w"
  by (simp add: view_le_def)

lemma set_MoveToFront [simp]: "e \<in> set l \<Longrightarrow> distinct l \<Longrightarrow> set (MoveToFront e l) = set l"
  by (auto simp: MoveToFront_def)

lemma distinct_MoveToFront [simp]: "distinct l \<Longrightarrow> distinct (MoveToFront e l)"
  by (simp add: MoveToFront_def)

lemma length_MoveToFront [simp]: "e \<in> set l \<Longrightarrow> length (MoveToFront e l) = length l"
  by (simp add: MoveToFront_def length_remove1) (metis Suc_pred length_pos_if_in_set)

lemma pool_ok_cached: "pool_ok rd b d \<Longrightarrow> i \<in> set (lru b) \<longleftrightarrow> map_of (items b) i \<noteq> None"
  by (simp add: pool_ok_def map_of_eq_None_iff)

lemma pool_ok_entry: "pool_ok rd b d \<Longrightarrow> map_of (items b) i = Some pe \<Longrightarrow> entry_ok rd d i pe"
  by (simp add: pool_ok_def)

lemma pool_ok_counters [simp]:
  "pool_ok rd (b\<lparr>hits := h\<rparr>) d = pool_ok rd b d" "pool_ok rd (b\<lparr>misses := m\<rparr>) d = pool_ok rd b d"
  by (simp_all add: pool_ok_def)

lemma pool_view_counters [simp]:
  "pool_view rd (b\<lparr>hits := h\<rparr>) = pool_view rd b" "pool_view rd (b\<lparr>misses := m\<rparr>) = pool_view rd b"
  "pool_view rd (b\<lparr>lru := l\<rparr>) = pool_view rd b"
  by (simp_all add: pool_view_def fun_eq_iff)

lemma pool_ok_MoveToFront:
  "pool_ok rd b d \<Longrightarrow> i \<in> set (lru b) \<Longrightarrow> pool_ok rd (b\<lparr>lru := MoveToFront i (lru b)\<rparr>) d"
  by (simp add: pool_ok_def)

lemma NewBufferPool_ok: "pool_ok rd (NewBufferPool cap) d"
  by (simp add: pool_ok_def NewBufferPool_def)

text \<open>No entry under \<open>k\<close> still waits to be written.\<close>

definition clean_at :: "BufferPool \<Rightarrow> u32 \<Rightarrow> bool" where
  "clean_at b k \<longleftrightarrow> (case map_of (items b) k of None \<Rightarrow> True | Some pe \<Rightarrow> \<not> pe_dirty pe)"

text \<open>
  Writing pages whose IDs satisfy \<open>Q\<close> keeps \<open>P\<close> of the disk; and what an operation
  that reads, evicts or flushes leaves true of the pool.
\<close>

definition write_frame :: "'d disk_write \<Rightarrow> (u32 \<Rightarrow> bool) \<Rightarrow> ('d \<Rightarrow> bool) \<Rightarrow> bool" where
  "write_frame writeDisk Q P \<longleftrightarrow>
     (\<forall>d p d' r. wf_page p \<longrightarrow> Q (ID p) \<longrightarrow> P d \<longrightarrow> writeDisk d p = (d', r) \<longrightarrow> P d')"

lemma write_frameD:
  "write_frame wd Q P \<Longrightarrow> wf_page p \<Longrightarrow> Q (ID p) \<Longrightarrow> P d \<Longrightarrow> wd d p = (d', r) \<Longrightarrow> P d'"
  by (auto simp: write_frame_def)

text \<open>On a disk in a state of \<open>P\<close> every write succeeds and leaves the disk in such a state.\<close>

definition quiet :: "'d disk_write \<Rightarrow> ('d \<Rightarrow> bool) \<Rightarrow> bool" where
  "quiet writeDisk P \<longleftrightarrow> (\<forall>d p d' r. P d \<longrightarrow> writeDisk d p = (d', r) \<longrightarrow> r = None \<and> P d')"

lemma quietD: "quiet wd P \<Longrightarrow> P d \<Longrightarrow> wd d p = (d', r) \<Longrightarrow> r = None \<and> P d'"
  by (auto simp: quiet_def)

definition keeps :: "'d disk_read \<Rightarrow> BufferPool \<Rightarrow> 'd \<Rightarrow> BufferPool \<Rightarrow> 'd \<Rightarrow> bool" where
  "keeps readDisk b d b' d' \<longleftrightarrow>
     pool_ok readDisk b' d' \<and> capacity b' = capacity b \<and>
     view_le (pool_view readDisk b d) (pool_view readDisk b' d')"

lemma pool_insert:
  assumes "pool_ok rd b d" and "int (length (lru b)) < capacity b"
    and "map_of (items b) i = None" and "entry_ok rd d i pe"
  defines "b' \<equiv> b\<lparr>items := AList.update i pe (items b), lru := i # lru b\<rparr>"
  shows "pool_ok rd b' d" "pool_view rd b' d = (pool_view rd b d)(i := Inr (pe_page pe))"
  using assms by (auto simp: pool_ok_def pool_view_def fun_eq_iff map_of_eq_None_iff split: if_splits)

lemma pool_replace:
  assumes "pool_ok rd b d" and "map_of (items b) i = Some old" and "entry_ok rd d i pe"
  defines "b' \<equiv> b\<lparr>items := AList.update i pe (items b)\<rparr>"
  shows "pool_ok rd b' d" "pool_view rd b' d = (pool_view rd b d)(i := Inr (pe_page pe))"
proof -
  have "i \<in> fst ` set (items b)"
    using assms(2) by (force dest: map_of_SomeD)
  with assms show "pool_ok rd b' d" "pool_view rd b' d = (pool_view rd b d)(i := Inr (pe_page pe))"
    by (auto simp: pool_ok_def pool_view_def fun_eq_iff insert_absorb split: if_splits)
qed

section \<open>Correctness over any disk\<close>

locale page_disk =
  fixes readDisk :: "'d disk_read" and writeDisk :: "'d disk_write"
  assumes read_page: "readDisk d i = Inr p \<Longrightarrow> ID p = i \<and> wf_page p"
    and write_ok: "wf_page p \<Longrightarrow> writeDisk d p = (d', None) \<Longrightarrow> readDisk d' (ID p) = Inr p"
    and write_other:
      "wf_page p \<Longrightarrow> writeDisk d p = (d', r) \<Longrightarrow> i \<noteq> ID p \<Longrightarrow> readDisk d i = Inr q \<Longrightarrow>
       readDisk d' i = Inr q"
    and write_error: "writeDisk d p = (d', Some err) \<Longrightarrow> err \<noteq> Panic"
begin

lemma pool_ok_write_dirty:
  assumes "pool_ok readDisk b d" and "map_of (items b) i = Some pe" and "pe_dirty pe"
    and "writeDisk d (pe_page pe) = (d', r)"
  shows "pool_ok readDisk b d'"
proof -
  have pe: "ID (pe_page pe) = i" "wf_page (pe_page pe)"
    using pool_ok_entry [OF assms(1,2)] by (simp_all add: entry_ok_def)
  have "entry_ok readDisk d' j e" if j: "map_of (items b) j = Some e" for j e
  proof (cases "j = i")
    case True
    with j assms(2,3) pe show ?thesis by (simp add: entry_ok_def)
  next
    case False
    with pool_ok_entry [OF assms(1) j] pe assms(4) show ?thesis
      by (auto simp: entry_ok_def intro: write_other)
  qed
  with assms(1) show ?thesis by (simp add: pool_ok_def)
qed

lemma view_write_dirty:
  assumes "pool_ok readDisk b d" and "map_of (items b) i = Some pe"
    and "writeDisk d (pe_page pe) = (d', r)"
  shows "view_le (pool_view readDisk b d) (pool_view readDisk b d')"
proof -
  have pe: "ID (pe_page pe) = i" "wf_page (pe_page pe)"
    using pool_ok_entry [OF assms(1,2)] by (simp_all add: entry_ok_def)
  have "readDisk d' j = Inr q" if "map_of (items b) j = None" "readDisk d j = Inr q" for j q
    using write_other [OF pe(2) assms(3) _ that(2)] that(1) assms(2) pe(1) by fastforce
  then show ?thesis
    by (simp add: view_le_def pool_view_def split: option.splits)
qed

lemma evict_ok:
  assumes ok: "pool_ok readDisk b d" and ne: "lru b \<noteq> []"
    and pe: "map_of (items b) (last (lru b)) = Some pe"
    and clean: "readDisk d (last (lru b)) = Inr (pe_page pe)"
  defines "b' \<equiv> b\<lparr>items := AList.delete (ID (pe_page pe)) (items b), lru := butlast (lru b)\<rparr>"
  shows "pool_ok readDisk b' d" "pool_view readDisk b' d = pool_view readDisk b d"
proof -
  have id: "ID (pe_page pe) = last (lru b)"
    using pool_ok_entry [OF ok pe] by (simp add: entry_ok_def)
  have split: "lru b = butlast (lru b) @ [last (lru b)]"
    using ne by simp
  then have dist: "last (lru b) \<notin> set (butlast (lru b))"
    using ok by (metis distinct_append distinct_singleton not_distinct_conv_prefix pool_ok_def)
  have "set (lru b) = insert (last (lru b)) (set (butlast (lru b)))"
    by (subst split) simp
  with dist have rest: "set (butlast (lru b)) = set (lru b) - {last (lru b)}"
    by auto
  from ok rest id show "pool_ok readDisk b' d"
    by (auto simp: b'_def pool_ok_def distinct_butlast split: if_splits)
  show "pool_view readDisk b' d = pool_view readDisk b d"
    using clean pe id by (auto simp: b'_def pool_view_def fun_eq_iff)
qed

lemma makeRoom_full:
  assumes ok: "pool_ok readDisk b d" and full: "\<not> int (length (lru b)) < capacity b"
    and run: "makeRoomLocked writeDisk b d = (b', d', r)"
  shows "keeps readDisk b d b' d' \<and> r \<noteq> Some Panic \<and>
    (if r = None then b' = b\<lparr>items := AList.delete (last (lru b)) (items b), lru := butlast (lru b)\<rparr>
     else b' = b)"
proof -
  from ok full have ne: "lru b \<noteq> []"
    by (auto simp: pool_ok_def)
  with ok obtain pe where pe: "map_of (items b) (last (lru b)) = Some pe"
    using pool_ok_cached [OF ok, of "last (lru b)"] by auto
  note entry = pool_ok_entry [OF ok pe, unfolded entry_ok_def]
  show ?thesis
  proof (cases "pe_dirty pe")
    case False
    with run full ne pe evict_ok [OF ok ne pe] entry show ?thesis
      by (auto simp: makeRoomLocked_def Let_def keeps_def)
  next
    case True
    obtain d1 r1 where w: "writeDisk d (pe_page pe) = (d1, r1)"
      by (cases "writeDisk d (pe_page pe)")
    note keep = pool_ok_write_dirty [OF ok pe True w] view_write_dirty [OF ok pe w]
    show ?thesis
    proof (cases r1)
      case None
      moreover from this have "readDisk d1 (last (lru b)) = Inr (pe_page pe)"
        using write_ok [of "pe_page pe"] w entry by metis
      ultimately show ?thesis
        using run full ne pe True w evict_ok [OF keep(1) ne pe] keep(2) entry
        by (auto simp: makeRoomLocked_def Let_def keeps_def)
    next
      case (Some err)
      with run full ne pe True w keep show ?thesis
        by (auto simp: makeRoomLocked_def Let_def keeps_def)
    qed
  qed
qed

lemma makeRoom_ok:
  assumes ok: "pool_ok readDisk b d" and run: "makeRoomLocked writeDisk b d = (b', d', r)"
  shows "keeps readDisk b d b' d'" and "r \<noteq> Some Panic" and "r \<noteq> None \<Longrightarrow> b' = b"
    and "r = None \<Longrightarrow> int (length (lru b')) < capacity b'"
    and "map_of (items b) i = None \<Longrightarrow> map_of (items b') i = None"
    and "hits b' = hits b" and "misses b' = misses b"
proof -
  have "keeps readDisk b d b' d' \<and> r \<noteq> Some Panic \<and> (r \<noteq> None \<longrightarrow> b' = b) \<and>
    (r = None \<longrightarrow> int (length (lru b')) < capacity b') \<and>
    (map_of (items b) i = None \<longrightarrow> map_of (items b') i = None) \<and>
    hits b' = hits b \<and> misses b' = misses b"
  proof (cases "int (length (lru b)) < capacity b")
    case True
    with ok run show ?thesis by (auto simp: makeRoomLocked_def keeps_def)
  next
    case False
    moreover have "int (length (lru b) - Suc 0) < capacity b"
      using ok False by (auto simp: pool_ok_def)
    ultimately show ?thesis
      using makeRoom_full [OF ok False run] by (auto split: if_splits)
  qed
  then show "keeps readDisk b d b' d'" "r \<noteq> Some Panic" "r \<noteq> None \<Longrightarrow> b' = b"
    "r = None \<Longrightarrow> int (length (lru b')) < capacity b'"
    "map_of (items b) i = None \<Longrightarrow> map_of (items b') i = None"
    "hits b' = hits b" "misses b' = misses b"
    by blast+
qed

lemma Get_insert_ok:
  assumes ok: "pool_ok readDisk b d" and none: "map_of (items b) i = None"
    and rd: "readDisk d i = Inr q" and run: "Get_insert writeDisk i q b d = (b', d', r)"
  shows "keeps readDisk b d b' d'"
    and "r = Inr p \<Longrightarrow> p = q \<and> pool_view readDisk b' d' i = Inr q \<and> hd (lru b') = i"
    and "r = Inl err \<Longrightarrow> makeRoomLocked writeDisk b d = (b, d', Some err)"
proof -
  obtain b2 d2 r2 where mr: "makeRoomLocked writeDisk b d = (b2, d2, r2)"
    by (cases "makeRoomLocked writeDisk b d")
  note mk = makeRoom_ok [OF ok mr]
  have "keeps readDisk b d b' d' \<and>
    (\<forall>p. r = Inr p \<longrightarrow> p = q \<and> pool_view readDisk b' d' i = Inr q \<and> hd (lru b') = i) \<and>
    (\<forall>err. r = Inl err \<longrightarrow> makeRoomLocked writeDisk b d = (b, d', Some err))"
  proof (cases r2)
    case (Some err)
    with run none mr mk(1,3) show ?thesis by (auto simp: Get_insert_def)
  next
    case None
    with run none mr have b': "b' = b2\<lparr>items := AList.update i \<lparr>pe_page = q, pe_dirty = False\<rparr> (items b2),
        lru := i # lru b2\<rparr>" "d' = d2" "r = Inr q"
      by (simp_all add: Get_insert_def)
    have none2: "map_of (items b2) i = None" using mk(5) none by simp
    have view: "pool_view readDisk b d i = Inr q" using none rd by (simp add: pool_view_def)
    then have "pool_view readDisk b2 d2 i = Inr q"
      using mk(1) by (auto simp: keeps_def dest: view_leD)
    with none2 have "readDisk d2 i = Inr q" by (simp add: pool_view_def)
    then have "entry_ok readDisk d2 i \<lparr>pe_page = q, pe_dirty = False\<rparr>"
      using read_page by (simp add: entry_ok_def)
    from pool_insert [OF _ mk(4) none2 this] mk(1) None b' show ?thesis
      using view by (auto simp: keeps_def view_le_def)
  qed
  then show "keeps readDisk b d b' d'"
    "r = Inr p \<Longrightarrow> p = q \<and> pool_view readDisk b' d' i = Inr q \<and> hd (lru b') = i"
    "r = Inl err \<Longrightarrow> makeRoomLocked writeDisk b d = (b, d', Some err)"
    by blast+
qed

lemma makeRoom_misses:
  "makeRoomLocked writeDisk (b\<lparr>misses := m\<rparr>) d =
     (let (b', d', r) = makeRoomLocked writeDisk b d in (b'\<lparr>misses := m\<rparr>, d', r))"
  by (auto simp: makeRoomLocked_def Let_def split: option.splits prod.splits)

lemma Get_ok:
  assumes ok: "pool_ok readDisk b d" and run: "Get readDisk writeDisk i b d = (b', d', r)"
  shows "keeps readDisk b d b' d'"
    and "r = Inr p \<Longrightarrow>
      pool_view readDisk b d i = Inr p \<and> pool_view readDisk b' d' i = Inr p \<and> hd (lru b') = i"
    and "r = Inl err \<Longrightarrow>
      pool_view readDisk b d i = Inl err \<or> makeRoomLocked writeDisk b d = (b, d', Some err)"
proof -
  have "keeps readDisk b d b' d' \<and>
    (\<forall>p. r = Inr p \<longrightarrow> pool_view readDisk b d i = Inr p \<and> pool_view readDisk b' d' i = Inr p \<and> hd (lru b') = i) \<and>
    (\<forall>err. r = Inl err \<longrightarrow> pool_view readDisk b d i = Inl err \<or> makeRoomLocked writeDisk b d = (b, d', Some err))"
  proof (cases "map_of (items b) i")
    case (Some pe)
    with run ok pool_ok_cached [OF ok, of i]
      pool_ok_MoveToFront [of readDisk "b\<lparr>hits := hits b + 1\<rparr>" d i] show ?thesis
      by (auto simp: Get_def keeps_def pool_view_def MoveToFront_def)
  next
    case None
    show ?thesis
    proof (cases "readDisk d i")
      case (Inl err)
      with None run ok show ?thesis by (auto simp: Get_def Let_def pool_view_def keeps_def)
    next
      case (Inr q)
      define b1 where "b1 = b\<lparr>misses := misses b + 1\<rparr>"
      have "pool_ok readDisk b1 d" "map_of (items b1) i = None" "Get_insert writeDisk i q b1 d = (b', d', r)"
        using ok None Inr run by (simp_all add: b1_def Get_def Let_def)
      note ins = Get_insert_ok [OF this(1,2) Inr this(3)]
      have "keeps readDisk b d b' d'" using ins(1) by (simp add: keeps_def b1_def)
      moreover have "pool_view readDisk b d i = Inr q" using None Inr by (simp add: pool_view_def)
      moreover have "makeRoomLocked writeDisk b d = (b, d', Some err)" if "r = Inl err" for err
        using ins(3) [OF that] makeRoom_ok(3) [OF ok]
        by (auto simp: b1_def makeRoom_misses Let_def split: prod.splits)
      ultimately show ?thesis using ins(2) by blast
    qed
  qed
  then show "keeps readDisk b d b' d'"
    "r = Inr p \<Longrightarrow>
      pool_view readDisk b d i = Inr p \<and> pool_view readDisk b' d' i = Inr p \<and> hd (lru b') = i"
    "r = Inl err \<Longrightarrow>
      pool_view readDisk b d i = Inl err \<or> makeRoomLocked writeDisk b d = (b, d', Some err)"
    by blast+
qed

lemma Put_ok:
  assumes ok: "pool_ok readDisk b d" and wf: "wf_page p"
    and run: "Put writeDisk p True b d = (b', d', r)"
  shows "pool_ok readDisk b' d'" and "capacity b' = capacity b"
    and "r = None \<Longrightarrow> view_le ((pool_view readDisk b d)(ID p := Inr p)) (pool_view readDisk b' d')"
    and "r = None \<Longrightarrow> hd (lru b') = ID p"
    and "r \<noteq> None \<Longrightarrow> b' = b \<and> view_le (pool_view readDisk b d) (pool_view readDisk b d')"
proof -
  have e: "entry_ok readDisk dd (ID p) \<lparr>pe_page = p, pe_dirty = True\<rparr>" for dd
    using wf by (simp add: entry_ok_def)
  have "pool_ok readDisk b' d' \<and> capacity b' = capacity b \<and>
    (if r = None then view_le ((pool_view readDisk b d)(ID p := Inr p)) (pool_view readDisk b' d') \<and> hd (lru b') = ID p
     else b' = b \<and> view_le (pool_view readDisk b d) (pool_view readDisk b d'))"
  proof (cases "map_of (items b) (ID p)")
    case (Some pe)
    note rep = pool_replace [OF ok Some e]
    have "ID p \<in> set (lru b)" using pool_ok_cached [OF ok] Some by simp
    with pool_ok_MoveToFront [OF rep(1)] rep(2) run Some show ?thesis
      by (auto simp: Put_def MoveToFront_def)
  next
    case None
    obtain b2 d2 r2 where mr: "makeRoomLocked writeDisk b d = (b2, d2, r2)"
      by (cases "makeRoomLocked writeDisk b d")
    note mk = makeRoom_ok [OF ok mr]
    show ?thesis
    proof (cases r2)
      case (Some err)
      with run None mr mk(1,3) show ?thesis by (auto simp: Put_def keeps_def)
    next
      case r2: None
      with pool_insert [OF _ mk(4) mk(5) [OF None] e] mk(1) run None mr show ?thesis
        by (auto simp: Put_def keeps_def view_le_def)
    qed
  qed
  then show "pool_ok readDisk b' d'" "capacity b' = capacity b"
    "r = None \<Longrightarrow> view_le ((pool_view readDisk b d)(ID p := Inr p)) (pool_view readDisk b' d')"
    "r = None \<Longrightarrow> hd (lru b') = ID p"
    "r \<noteq> None \<Longrightarrow> b' = b \<and> view_le (pool_view readDisk b d) (pool_view readDisk b d')"
    by (simp_all split: if_splits)
qed

lemma flush_entry_ok:
  assumes ok: "pool_ok readDisk b d" and pe: "map_of (items b) k = Some pe" "pe_dirty pe"
    and w: "writeDisk d (pe_page pe) = (d', None)"
  defines "b' \<equiv> b\<lparr>items := AList.update k (pe\<lparr>pe_dirty := False\<rparr>) (items b)\<rparr>"
  shows "keeps readDisk b d b' d'"
proof -
  have id: "ID (pe_page pe) = k" "wf_page (pe_page pe)"
    using pool_ok_entry [OF ok pe(1)] by (simp_all add: entry_ok_def)
  have "entry_ok readDisk d' k (pe\<lparr>pe_dirty := False\<rparr>)"
    using id write_ok [OF id(2) w] by (simp add: entry_ok_def)
  from pool_replace [OF pool_ok_write_dirty [OF ok pe w] pe(1) this] view_write_dirty [OF ok pe(1) w] pe(1)
  show ?thesis
    by (auto simp: keeps_def b'_def view_le_def pool_view_def)
qed

lemma Flush_ok:
  assumes "pool_ok readDisk b d" and "Flush writeDisk ord b d = (b', d', r)"
  shows "keeps readDisk b d b' d' \<and> lru b' = lru b \<and>
    (\<forall>k. clean_at b k \<or> r = None \<and> k \<in> set ord \<longrightarrow> clean_at b' k)"
  using assms
proof (induction ord arbitrary: b d)
  case Nil
  then show ?case by (simp add: keeps_def)
next
  case (Cons k ord)
  show ?case
  proof (cases "\<exists>pe. map_of (items b) k = Some pe \<and> pe_dirty pe")
    case False
    then have "Flush writeDisk (k # ord) b d = Flush writeDisk ord b d" and "clean_at b k"
      by (auto simp: clean_at_def split: option.splits)
    with Cons.IH [OF Cons.prems(1)] Cons.prems(2) show ?thesis by auto
  next
    case True
    then obtain pe where pe: "map_of (items b) k = Some pe" "pe_dirty pe" by blast
    obtain d1 r1 where w: "writeDisk d (pe_page pe) = (d1, r1)"
      by (cases "writeDisk d (pe_page pe)")
    show ?thesis
    proof (cases r1)
      case (Some err)
      with Cons.prems pe w pool_ok_write_dirty [OF Cons.prems(1) pe w]
        view_write_dirty [OF Cons.prems(1) pe(1) w] show ?thesis
        by (auto simp: keeps_def)
    next
      case None
      define b1 where "b1 = b\<lparr>items := AList.update k (pe\<lparr>pe_dirty := False\<rparr>) (items b)\<rparr>"
      have k1: "keeps readDisk b d b1 d1"
        using flush_entry_ok [OF Cons.prems(1) pe] w None by (simp add: b1_def)
      have "Flush writeDisk ord b1 d1 = (b', d', r)"
        using Cons.prems(2) pe w None by (simp add: b1_def)
      note IH = Cons.IH [OF _ this]
      have "lru b1 = lru b" "\<And>j. clean_at b1 j \<longleftrightarrow> j = k \<or> clean_at b j"
        using pe by (auto simp: b1_def clean_at_def split: option.splits)
      with IH k1 show ?thesis
        by (auto simp: keeps_def intro: view_le_trans)
    qed
  qed
qed

lemma Flush_durable:
  assumes ok: "pool_ok readDisk b d" and run: "Flush writeDisk ord b d = (b', d', None)"
    and ord: "set ord = fst ` set (items b)" and view: "pool_view readDisk b d i = Inr p"
  shows "readDisk d' i = Inr p"
proof -
  note fl = Flush_ok [OF ok run]
  have v: "pool_view readDisk b' d' i = Inr p"
    using fl view by (auto simp: keeps_def dest: view_leD)
  show ?thesis
  proof (cases "map_of (items b') i")
    case None
    with v show ?thesis by (simp add: pool_view_def)
  next
    case (Some pe)
    then have "i \<in> set (lru b')"
      using fl pool_ok_cached [of readDisk b' d' i] by (simp add: keeps_def)
    with fl ok ord have "i \<in> set ord" by (simp add: pool_ok_def)
    with fl Some have "\<not> pe_dirty pe" by (auto simp: clean_at_def)
    with fl Some v show ?thesis
      by (auto simp: keeps_def pool_view_def dest!: pool_ok_entry simp: entry_ok_def)
  qed
qed

text \<open>
  The pool writes only pages it caches, and caches only the IDs it is asked for: a property
  \<open>P\<close> of the disk that writing pages with IDs in \<open>Q\<close> keeps survives every operation.
\<close>

lemma makeRoom_frame:
  assumes P: "write_frame writeDisk Q P"
    and ok: "pool_ok readDisk b d" and Q: "\<forall>i \<in> set (lru b). Q i" and d: "P d"
    and run: "makeRoomLocked writeDisk b d = (b', d', r)"
  shows "(\<forall>i \<in> set (lru b'). Q i) \<and> P d'"
proof (cases "int (length (lru b)) < capacity b \<or> lru b = []")
  case True
  with run Q d show ?thesis by (auto simp: makeRoomLocked_def split: if_splits)
next
  case False
  obtain pe where pe: "map_of (items b) (last (lru b)) = Some pe"
    using False pool_ok_cached [OF ok, of "last (lru b)"] by auto
  have "ID (pe_page pe) = last (lru b)" "wf_page (pe_page pe)"
    using pool_ok_entry [OF ok pe] by (simp_all add: entry_ok_def)
  moreover have "last (lru b) \<in> set (lru b)" using False by simp
  ultimately have "Q (ID (pe_page pe))" and wf: "wf_page (pe_page pe)" using Q by simp_all
  note step = write_frameD [OF P wf this(1) d]
  have "\<forall>i \<in> set (butlast (lru b)). Q i"
    using Q by (auto dest: in_set_butlastD)
  with run False pe Q d step show ?thesis
    by (auto simp: makeRoomLocked_def Let_def split: if_splits prod.splits option.splits)
qed

lemma Get_frame:
  assumes P: "write_frame writeDisk Q P"
    and ok: "pool_ok readDisk b d" and Q: "\<forall>i \<in> set (lru b). Q i" "Q i" and d: "P d"
    and run: "Get readDisk writeDisk i b d = (b', d', r)"
  shows "(\<forall>i \<in> set (lru b'). Q i) \<and> P d'"
proof (cases "map_of (items b) i")
  case (Some pe)
  with run Q d show ?thesis
    by (auto simp: Get_def MoveToFront_def dest: notin_set_remove1)
next
  case None
  obtain b2 d2 r2 where mr: "makeRoomLocked writeDisk b d = (b2, d2, r2)"
    by (cases "makeRoomLocked writeDisk b d")
  from makeRoom_frame [OF P ok Q(1) d mr] run None Q d mr show ?thesis
    by (auto simp: Get_def Get_insert_def Let_def makeRoom_misses split: sum.splits option.splits)
qed

lemma Put_frame:
  assumes P: "write_frame writeDisk Q P"
    and ok: "pool_ok readDisk b d" and Q: "\<forall>i \<in> set (lru b). Q i" "Q (ID p)" and d: "P d"
    and run: "Put writeDisk p dirty b d = (b', d', r)"
  shows "(\<forall>i \<in> set (lru b'). Q i) \<and> P d'"
proof (cases "map_of (items b) (ID p)")
  case (Some pe)
  with run Q d show ?thesis
    by (auto simp: Put_def MoveToFront_def dest: notin_set_remove1)
next
  case None
  obtain b2 d2 r2 where mr: "makeRoomLocked writeDisk b d = (b2, d2, r2)"
    by (cases "makeRoomLocked writeDisk b d")
  from makeRoom_frame [OF P ok Q(1) d mr] run None Q d mr show ?thesis
    by (auto simp: Put_def split: option.splits)
qed

lemma Put_frame_error:
  assumes P: "write_frame writeDisk Q P"
    and ok: "pool_ok readDisk b d" and Q: "\<forall>i \<in> set (lru b). Q i" and d: "P d"
    and run: "Put writeDisk p dirty b d = (b', d', Some err)"
  shows "P d'"
proof (cases "map_of (items b) (ID p)")
  case None
  obtain b2 d2 r2 where mr: "makeRoomLocked writeDisk b d = (b2, d2, r2)"
    by (cases "makeRoomLocked writeDisk b d")
  from makeRoom_frame [OF P ok Q d mr] run None mr show ?thesis
    by (auto simp: Put_def split: option.splits)
qed (use run in \<open>simp add: Put_def\<close>)

lemma Flush_frame:
  assumes P: "write_frame writeDisk Q P"
    and "pool_ok readDisk b d" and "\<forall>i \<in> set (lru b). Q i" and "P d"
    and "Flush writeDisk ord b d = (b', d', r)"
  shows "P d'"
  using assms(2-)
proof (induction ord arbitrary: b d)
  case (Cons k ord)
  show ?case
  proof (cases "\<exists>pe. map_of (items b) k = Some pe \<and> pe_dirty pe")
    case False
    then have "Flush writeDisk (k # ord) b d = Flush writeDisk ord b d"
      by (auto split: option.splits)
    with Cons show ?thesis by simp
  next
    case True
    then obtain pe where pe: "map_of (items b) k = Some pe" "pe_dirty pe" by blast
    obtain d1 r1 where w: "writeDisk d (pe_page pe) = (d1, r1)"
      by (cases "writeDisk d (pe_page pe)")
    have "Q (ID (pe_page pe))" "wf_page (pe_page pe)"
      using pool_ok_entry [OF Cons.prems(1) pe(1)] pool_ok_cached [OF Cons.prems(1), of k] pe Cons.prems(2)
      by (auto simp: entry_ok_def)
    then have d1: "P d1" using write_frameD [OF P] Cons.prems(3) w by blast
    show ?thesis
    proof (cases r1)
      case None
      have "pool_ok readDisk (b\<lparr>items := AList.update k (pe\<lparr>pe_dirty := False\<rparr>) (items b)\<rparr>) d1"
        using flush_entry_ok [OF Cons.prems(1) pe] w None by (simp add: keeps_def)
      from Cons.IH [OF this _ d1] Cons.prems(2,4) pe w None show ?thesis by simp
    qed (use Cons.prems pe w d1 in auto)
  qed
qed simp

text \<open>Without I/O errors no operation on a coherent pool fails.\<close>

lemma makeRoom_quiet:
  assumes "quiet writeDisk P" and ok: "pool_ok readDisk b d" and "P d"
    and run: "makeRoomLocked writeDisk b d = (b', d', r)"
  shows "r = None \<and> P d'"
proof (cases "int (length (lru b)) < capacity b")
  case True
  with run assms(3) show ?thesis by (auto simp: makeRoomLocked_def)
next
  case False
  then have "lru b \<noteq> []" using ok by (auto simp: pool_ok_def)
  then obtain pe where pe: "map_of (items b) (last (lru b)) = Some pe"
    using pool_ok_cached [OF ok, of "last (lru b)"] by auto
  obtain d1 r1 where w: "writeDisk d (pe_page pe) = (d1, r1)" by (cases "writeDisk d (pe_page pe)")
  from quietD [OF assms(1,3) w] w False pe \<open>lru b \<noteq> []\<close> run assms(3) show ?thesis
    by (auto simp: makeRoomLocked_def Let_def split: if_splits)
qed

lemma Get_quiet:
  assumes "quiet writeDisk P" and ok: "pool_ok readDisk b d" and "P d"
    and "pool_view readDisk b d i = Inr p" and run: "Get readDisk writeDisk i b d = (b', d', r)"
  shows "r = Inr p \<and> P d'"
proof (cases "map_of (items b) i")
  case (Some pe)
  with assms show ?thesis by (auto simp: Get_def pool_view_def)
next
  case None
  with assms(4) have "readDisk d i = Inr p" by (simp add: pool_view_def)
  moreover obtain b2 d2 r2 where mr: "makeRoomLocked writeDisk b d = (b2, d2, r2)"
    by (cases "makeRoomLocked writeDisk b d")
  ultimately show ?thesis
    using makeRoom_quiet [OF assms(1) ok assms(3) mr] run None
    by (auto simp: Get_def Get_insert_def makeRoom_misses)
qed

lemma Put_quiet:
  assumes "quiet writeDisk P" and ok: "pool_ok readDisk b d" and "P d"
    and run: "Put writeDisk p dirty b d = (b', d', r)"
  shows "r = None \<and> P d'"
proof (cases "map_of (items b) (ID p)")
  case (Some pe)
  with run assms(3) show ?thesis by (auto simp: Put_def)
next
  case None
  obtain b2 d2 r2 where mr: "makeRoomLocked writeDisk b d = (b2, d2, r2)"
    by (cases "makeRoomLocked writeDisk b d")
  with makeRoom_quiet [OF assms(1) ok assms(3) mr] run None show ?thesis by (auto simp: Put_def)
qed

lemma Flush_quiet:
  "quiet writeDisk P \<Longrightarrow> P d \<Longrightarrow> Flush writeDisk ord b d = (b', d', r) \<Longrightarrow> r = None \<and> P d'"
proof (induction ord arbitrary: b d)
  case (Cons k ord)
  show ?case
  proof (cases "\<exists>pe. map_of (items b) k = Some pe \<and> pe_dirty pe")
    case False
    with Cons.prems Cons.IH [OF Cons.prems(1,2)] show ?thesis by (auto split: option.splits)
  next
    case True
    then obtain pe where pe: "map_of (items b) k = Some pe" "pe_dirty pe" by blast
    obtain d1 r1 where w: "writeDisk d (pe_page pe) = (d1, r1)"
      by (cases "writeDisk d (pe_page pe)")
    from quietD [OF Cons.prems(1,2) w] Cons.IH [OF Cons.prems(1), of d1] Cons.prems(3) pe w show ?thesis
      by simp
  qed
qed simp

end

end
