(* ===== verification/Pager.thy ===== *)
theory Pager
  imports Buffer_Pool
begin

text \<open>
  The pager of \<^verbatim>\<open>storage/pager.go\<close>: the database file, the page count and the buffer pool.
  The file's read and write callbacks are shown to be a \<open>page_disk\<close>, so the pool's
  contract holds of the pager; the pager in turn implements a growing array of pages
  (\<open>pager_view\<close>) that survives a flush and a reopening of the file.
\<close>

section \<open>Definitions\<close>

record Pager =
  dbfile :: os_file
  numPages :: u32
  pool :: BufferPool

definition readPageDisk :: "os_file \<Rightarrow> u32 \<Rightarrow> Page result" where
  "readPageDisk f pid =
     (case os_ReadAt PageSize (unat pid * PageSize) f of
        Inl err \<Rightarrow> Inl (ErrCtx ''reading page'' err)
      | Inr d \<Rightarrow> Inr \<lparr>ID = pid, Data = d\<rparr>)"

definition writePageDisk :: "os_file \<Rightarrow> Page \<Rightarrow> os_file \<times> db_error option" where
  "writePageDisk f page =
     (case os_WriteAt (Data page) (unat (ID page) * PageSize) f of
        (f', Some err) \<Rightarrow> (f', Some (ErrCtx ''writing page'' err))
      | (f', None) \<Rightarrow> (f', None))"

definition pager_Open :: "os_file \<Rightarrow> Pager result" where
  "pager_Open f =
     (if length (fdata f) mod PageSize \<noteq> 0 then Inl (ErrCorruptSize (length (fdata f)))
      else Inr \<lparr>dbfile = f, numPages = word_of_nat (length (fdata f) div PageSize),
                pool = NewBufferPool 64\<rparr>)"

definition AllocatePage :: "Pager \<Rightarrow> Pager \<times> Page result" where
  "AllocatePage p =
     (let page = NewPage (numPages p);
          p1 = p\<lparr>numPages := numPages p + 1\<rparr>
      in (case Put writePageDisk page True (pool p1) (dbfile p1) of
            (b, f, Some err) \<Rightarrow>
              (p1\<lparr>pool := b, dbfile := f, numPages := numPages p1 - 1\<rparr>, Inl err)
          | (b, f, None) \<Rightarrow> (p1\<lparr>pool := b, dbfile := f\<rparr>, Inr page)))"

definition ReadPage :: "u32 \<Rightarrow> Pager \<Rightarrow> Pager \<times> Page result" where
  "ReadPage pid p =
     (if numPages p \<le> pid then (p, Inl (ErrNoSuchPage pid (numPages p)))
      else (case Get readPageDisk writePageDisk pid (pool p) (dbfile p) of
              (b, f, r) \<Rightarrow> (p\<lparr>pool := b, dbfile := f\<rparr>, r)))"

definition WritePage :: "Page \<Rightarrow> Pager \<Rightarrow> Pager \<times> db_error option" where
  "WritePage page p =
     (if numPages p \<le> ID page then (p, Some (ErrNoSuchPage (ID page) (numPages p)))
      else (case Put writePageDisk page True (pool p) (dbfile p) of
              (b, f, r) \<Rightarrow> (p\<lparr>pool := b, dbfile := f\<rparr>, r)))"

definition pager_Flush :: "u32 list \<Rightarrow> Pager \<Rightarrow> Pager \<times> db_error option" where
  "pager_Flush ord p =
     (case Flush writePageDisk ord (pool p) (dbfile p) of
        (b, f, r) \<Rightarrow> (p\<lparr>pool := b, dbfile := f\<rparr>, r))"

definition pager_Sync :: "Pager \<Rightarrow> Pager \<times> db_error option" where
  "pager_Sync p = (case os_Sync (dbfile p) of (f, r) \<Rightarrow> (p\<lparr>dbfile := f\<rparr>, r))"

definition pager_Close :: "u32 list \<Rightarrow> Pager \<Rightarrow> Pager \<times> db_error option" where
  "pager_Close ord p =
     (case pager_Flush ord p of
        (p1, Some err) \<Rightarrow> (p1, Some err)
      | (p1, None) \<Rightarrow> pager_Sync p1)"

definition NumPages :: "Pager \<Rightarrow> u32" where
  "NumPages p = numPages p"

definition pager_BufferPoolStats :: "Pager \<Rightarrow> BufferPoolStats" where
  "pager_BufferPoolStats p = Stats (pool p)"

section \<open>The file is a page disk\<close>

lemma page_offsets_disjoint:
  "i \<noteq> j \<Longrightarrow> unat i * PageSize + PageSize \<le> unat j * PageSize \<or>
    unat j * PageSize + PageSize \<le> unat (i :: u32) * PageSize"
  by (cases "unat i < unat j") (auto simp: PageSize_def word_unat_eq_iff)

lemma readPageDisk_Inr:
  "readPageDisk f i = Inr q \<longleftrightarrow>
     unat i * PageSize + PageSize \<le> length (fdata f) \<and>
     q = \<lparr>ID = i, Data = go_slice (unat i * PageSize) (unat i * PageSize + PageSize) (fdata f)\<rparr>"
  by (auto simp: readPageDisk_def os_ReadAt_def split: sum.splits if_splits)

lemma writePageDisk_eq:
  "writePageDisk f p = (f', r) \<Longrightarrow>
     \<exists>n. fdata f' = overwrite (unat (ID p) * PageSize) (take n (Data p)) (fdata f) \<and>
         (r = None \<longrightarrow> length (Data p) \<le> n) \<and> r \<noteq> Some Panic"
proof (cases "next_outcome f")
  case IoOk
  then show "writePageDisk f p = (f', r) \<Longrightarrow> ?thesis"
    by (auto simp: writePageDisk_def os_WriteAt_def intro!: exI [of _ "length (Data p)"])
next
  case (IoFail n)
  then show "writePageDisk f p = (f', r) \<Longrightarrow> ?thesis"
    by (auto simp: writePageDisk_def os_WriteAt_def intro!: exI [of _ n])
qed

interpretation file_disk: page_disk readPageDisk writePageDisk
proof unfold_locales
  fix f i p
  assume "readPageDisk f i = Inr p"
  then show "ID p = i \<and> wf_page p"
    by (auto simp: readPageDisk_Inr wf_page_def length_slice)
next
  fix p f f'
  assume "wf_page p" and "writePageDisk f p = (f', None)"
  then show "readPageDisk f' (ID p) = Inr p"
    by (cases p) (force dest: writePageDisk_eq
        simp: readPageDisk_Inr wf_page_def length_overwrite slice_overwrite_same)
next
  fix p f f' r i q
  assume p: "wf_page p" and w: "writePageDisk f p = (f', r)" and ne: "i \<noteq> ID p"
    and q: "readPageDisk f i = Inr q"
  obtain n where f': "fdata f' = overwrite (unat (ID p) * PageSize) (take n (Data p)) (fdata f)"
    using writePageDisk_eq [OF w] by blast
  have "length (take n (Data p)) \<le> PageSize"
    using p by (simp add: wf_page_def)
  then show "readPageDisk f' i = Inr q"
    using q page_offsets_disjoint [OF ne]
    by (auto simp: readPageDisk_Inr f' length_overwrite intro!: slice_overwrite_other [symmetric])
next
  fix f p f' err
  assume "writePageDisk f p = (f', Some err)"
  then show "err \<noteq> Panic" by (auto dest: writePageDisk_eq)
qed

section \<open>The pager as an array of pages\<close>

definition pager_view :: "Pager \<Rightarrow> u32 \<Rightarrow> Page option" where
  "pager_view p i =
     (if i < numPages p
      then (case pool_view readPageDisk (pool p) (dbfile p) i of Inr q \<Rightarrow> Some q | Inl _ \<Rightarrow> None)
      else None)"

text \<open>
  The invariant: the pool is coherent with the file, it caches existing pages only, every
  existing page can be read, and the file is no longer than its pages.
\<close>

definition pager_ok :: "Pager \<Rightarrow> bool" where
  "pager_ok p \<longleftrightarrow>
     pool_ok readPageDisk (pool p) (dbfile p) \<and> (\<forall>i \<in> set (lru (pool p)). i < numPages p) \<and>
     (\<forall>i < numPages p. pager_view p i \<noteq> None) \<and>
     length (fdata (dbfile p)) \<le> unat (numPages p) * PageSize"

lemma pager_view_Some:
  "pager_view p i = Some q \<longleftrightarrow>
     i < numPages p \<and> pool_view readPageDisk (pool p) (dbfile p) i = Inr q"
  by (auto simp: pager_view_def split: sum.splits)

lemma file_frame:
  "write_frame writePageDisk (\<lambda>i. i < n) (\<lambda>f. length (fdata f) \<le> unat n * PageSize)"
proof -
  have "unat i * PageSize + k \<le> unat n * PageSize" if "i < n" "k \<le> PageSize" for i k
  proof -
    have "Suc (unat i) * PageSize \<le> unat n * PageSize"
      using that(1) by (intro mult_right_mono) (simp_all add: word_less_nat_alt Suc_leI)
    with that(2) show ?thesis by simp
  qed
  then show ?thesis
    by (fastforce simp: write_frame_def wf_page_def length_overwrite dest: writePageDisk_eq)
qed

lemma keeps_pager_view:
  assumes "keeps readPageDisk (pool p) (dbfile p) b f" and "pager_ok p"
  shows "pager_view (p\<lparr>pool := b, dbfile := f\<rparr>) = pager_view p"
proof
  fix i
  show "pager_view (p\<lparr>pool := b, dbfile := f\<rparr>) i = pager_view p i"
  proof (cases "i < numPages p")
    case True
    then obtain q where "pool_view readPageDisk (pool p) (dbfile p) i = Inr q"
      using assms(2) by (auto simp: pager_ok_def pager_view_Some)
    moreover from this have "pool_view readPageDisk b f i = Inr q"
      using assms(1) by (auto simp: keeps_def view_le_def)
    ultimately show ?thesis by (simp add: pager_view_def)
  qed (simp add: pager_view_def)
qed

lemma ReadPage_ok:
  assumes ok: "pager_ok p" and run: "ReadPage i p = (p', r)"
  shows "pager_ok p'" "pager_view p' = pager_view p" "numPages p' = numPages p"
    and "r = Inr q \<Longrightarrow> pager_view p i = Some q"
    and "numPages p \<le> i \<Longrightarrow> r = Inl (ErrNoSuchPage i (numPages p))"
proof -
  have "pager_ok p' \<and> pager_view p' = pager_view p \<and> numPages p' = numPages p \<and>
    (\<forall>q. r = Inr q \<longrightarrow> pager_view p i = Some q) \<and>
    (numPages p \<le> i \<longrightarrow> r = Inl (ErrNoSuchPage i (numPages p)))"
  proof (cases "numPages p \<le> i")
    case True
    with ok run show ?thesis by (auto simp: ReadPage_def)
  next
    case False
    then have i: "i < numPages p" by simp
    obtain b f r1 where g: "Get readPageDisk writePageDisk i (pool p) (dbfile p) = (b, f, r1)"
      by (cases "Get readPageDisk writePageDisk i (pool p) (dbfile p)")
    have pool: "pool_ok readPageDisk (pool p) (dbfile p)" using ok by (simp add: pager_ok_def)
    note get = file_disk.Get_ok [OF pool g]
    have p': "p' = p\<lparr>pool := b, dbfile := f\<rparr>" "r = r1"
      using run False g by (simp_all add: ReadPage_def)
    have "(\<forall>j \<in> set (lru b). j < numPages p) \<and> length (fdata f) \<le> unat (numPages p) * PageSize"
      using file_disk.Get_frame [OF file_frame pool _ i _ g] ok by (simp add: pager_ok_def)
    with keeps_pager_view [OF get(1) ok] get(1) ok p' i get(2) False show ?thesis
      by (auto simp: pager_ok_def keeps_def pager_view_Some)
  qed
  then show "pager_ok p'" "pager_view p' = pager_view p" "numPages p' = numPages p"
    "r = Inr q \<Longrightarrow> pager_view p i = Some q"
    "numPages p \<le> i \<Longrightarrow> r = Inl (ErrNoSuchPage i (numPages p))"
    by simp_all
qed

lemma WritePage_ok:
  assumes ok: "pager_ok p" and wf: "wf_page q" and i: "ID q < numPages p"
    and run: "WritePage q p = (p', r)"
  shows "pager_ok p'" "numPages p' = numPages p"
    and "r = None \<Longrightarrow> pager_view p' = (pager_view p)(ID q \<mapsto> q)"
    and "r \<noteq> None \<Longrightarrow> pager_view p' = pager_view p"
proof -
  obtain b f r1 where put: "Put writePageDisk q True (pool p) (dbfile p) = (b, f, r1)"
    by (cases "Put writePageDisk q True (pool p) (dbfile p)")
  have pool: "pool_ok readPageDisk (pool p) (dbfile p)" using ok by (simp add: pager_ok_def)
  note w = file_disk.Put_ok [OF pool wf put]
  have p': "p' = p\<lparr>pool := b, dbfile := f\<rparr>" "r = r1"
    using run put i [unfolded not_le [symmetric]] by (simp_all add: WritePage_def)
  have fr: "(\<forall>j \<in> set (lru b). j < numPages p) \<and> length (fdata f) \<le> unat (numPages p) * PageSize"
    using file_disk.Put_frame [OF file_frame pool _ i _ put] ok by (simp add: pager_ok_def)
  have view: "pager_view p' = (if r = None then (pager_view p)(ID q \<mapsto> q) else pager_view p)"
  proof (cases "r = None")
    case True
    show ?thesis
    proof
      fix j
      show "pager_view p' j = (if r = None then (pager_view p)(ID q \<mapsto> q) else pager_view p) j"
      proof (cases "j < numPages p")
        case j: True
        then obtain q' where "pool_view readPageDisk (pool p) (dbfile p) j = Inr q'"
          using ok by (auto simp: pager_ok_def pager_view_Some)
        with j True w(3) p' show ?thesis
          by (auto simp: pager_view_def view_le_def)
      qed (use p' i True in \<open>auto simp: pager_view_def\<close>)
    qed
  next
    case False
    with w(5) p' w(1) ok keeps_pager_view [of p "pool p" f] show ?thesis
      by (auto simp: keeps_def)
  qed
  have "pager_ok p'"
    using ok w(1) fr view p' i by (auto simp: pager_ok_def)
  with view p'(1) show "pager_ok p'" "numPages p' = numPages p"
    "r = None \<Longrightarrow> pager_view p' = (pager_view p)(ID q \<mapsto> q)"
    "r \<noteq> None \<Longrightarrow> pager_view p' = pager_view p"
    by (simp_all split: if_splits)
qed

lemma AllocatePage_ok:
  assumes ok: "pager_ok p" and room: "numPages p < NoPage" and run: "AllocatePage p = (p', r)"
  shows "pager_ok p'"
    and "r = Inr q \<Longrightarrow> q = NewPage (numPages p) \<and> numPages p' = numPages p + 1 \<and>
           pager_view p' = (pager_view p)(numPages p \<mapsto> q)"
    and "r = Inl err \<Longrightarrow> numPages p' = numPages p \<and> pager_view p' = pager_view p"
proof -
  let ?n = "numPages p" and ?q = "NewPage (numPages p)"
  obtain b f r1 where put: "Put writePageDisk ?q True (pool p) (dbfile p) = (b, f, r1)"
    by (cases "Put writePageDisk ?q True (pool p) (dbfile p)")
  have pool: "pool_ok readPageDisk (pool p) (dbfile p)" using ok by (simp add: pager_ok_def)
  note w = file_disk.Put_ok [OF pool wf_NewPage put]
  note less = less_next_page [OF room] and succ = unat_next_page [OF room]
  have "pager_ok p' \<and>
    (\<forall>q. r = Inr q \<longrightarrow> q = ?q \<and> numPages p' = ?n + 1 \<and> pager_view p' = (pager_view p)(?n \<mapsto> q)) \<and>
    (\<forall>err. r = Inl err \<longrightarrow> numPages p' = ?n \<and> pager_view p' = pager_view p)"
  proof (cases r1)
    case (Some err)
    with run put w(5) have p': "p' = p\<lparr>pool := pool p, dbfile := f\<rparr>" "r = Inl err"
      by (auto simp: AllocatePage_def Let_def)
    have "length (fdata f) \<le> unat ?n * PageSize"
      using file_disk.Put_frame_error [OF file_frame pool] put Some ok by (simp add: pager_ok_def)
    moreover have "keeps readPageDisk (pool p) (dbfile p) (pool p) f"
      using w(1,5) Some by (simp add: keeps_def)
    ultimately show ?thesis
      using p' keeps_pager_view [of p "pool p" f] ok by (auto simp: pager_ok_def keeps_def)
  next
    case None
    with run put have p': "p' = p\<lparr>numPages := ?n + 1, pool := b, dbfile := f\<rparr>" "r = Inr ?q"
      by (auto simp: AllocatePage_def Let_def)
    have view: "pager_view p' = (pager_view p)(?n \<mapsto> ?q)"
    proof
      fix j
      show "pager_view p' j = ((pager_view p)(?n \<mapsto> ?q)) j"
      proof (cases "j < ?n")
        case j: True
        then obtain q' where "pool_view readPageDisk (pool p) (dbfile p) j = Inr q'"
          using ok by (auto simp: pager_ok_def pager_view_Some)
        with j None w(3) p' show ?thesis
          by (auto simp: pager_view_def view_le_def less)
      qed (use p' None w(3) in \<open>auto simp: pager_view_def less view_le_def\<close>)
    qed
    have "(\<forall>j \<in> set (lru b). j < ?n + 1) \<and> length (fdata f) \<le> unat (?n + 1) * PageSize"
      using ok by (intro file_disk.Put_frame [OF file_frame pool _ _ _ put])
        (auto simp: pager_ok_def less succ)
    with view p' w(1) ok show ?thesis by (auto simp: pager_ok_def less)
  qed
  then show "pager_ok p'"
    "r = Inr q \<Longrightarrow> q = NewPage (numPages p) \<and> numPages p' = numPages p + 1 \<and>
       pager_view p' = (pager_view p)(numPages p \<mapsto> q)"
    "r = Inl err \<Longrightarrow> numPages p' = numPages p \<and> pager_view p' = pager_view p"
    by simp_all
qed

section \<open>Flushing and reopening\<close>

lemma pager_Flush_ok:
  assumes ok: "pager_ok p" and run: "pager_Flush ord p = (p', r)"
  shows "pager_ok p'" "pager_view p' = pager_view p" "numPages p' = numPages p"
    "lru (pool p') = lru (pool p)"
proof -
  obtain b f r1 where fl: "Flush writePageDisk ord (pool p) (dbfile p) = (b, f, r1)"
    by (cases "Flush writePageDisk ord (pool p) (dbfile p)")
  have pool: "pool_ok readPageDisk (pool p) (dbfile p)" using ok by (simp add: pager_ok_def)
  note w = file_disk.Flush_ok [OF pool fl]
  have p': "p' = p\<lparr>pool := b, dbfile := f\<rparr>"
    using run fl by (simp add: pager_Flush_def)
  have "length (fdata f) \<le> unat (numPages p) * PageSize"
    using file_disk.Flush_frame [OF file_frame pool _ _ fl] ok by (simp add: pager_ok_def)
  with keeps_pager_view [of p b f] w ok p' show "pager_ok p'" "pager_view p' = pager_view p"
    "numPages p' = numPages p" "lru (pool p') = lru (pool p)"
    by (auto simp: pager_ok_def keeps_def)
qed

lemma pager_Open_view:
  assumes "length (fdata f) = unat n * PageSize"
  shows "\<exists>p. pager_Open f = Inr p \<and> pager_ok p \<and> numPages p = n \<and> dbfile p = f \<and>
    (\<forall>i < n. \<exists>q. readPageDisk f i = Inr q \<and> pager_view p i = Some q)"
proof -
  define p where "p = \<lparr>dbfile = f, numPages = n, pool = NewBufferPool 64\<rparr>"
  have "pager_Open f = Inr p"
    using assms by (simp add: pager_Open_def p_def PageSize_def)
  moreover have rd: "\<exists>q. readPageDisk f i = Inr q \<and> pager_view p i = Some q" if "i < n" for i
  proof -
    have "Suc (unat i) * PageSize \<le> unat n * PageSize"
      using that by (intro mult_right_mono) (simp_all add: word_less_nat_alt Suc_leI)
    then obtain q where "readPageDisk f i = Inr q"
      using assms by (auto simp: readPageDisk_Inr)
    with that show ?thesis
      by (simp add: p_def pager_view_def pool_view_def NewBufferPool_def)
  qed
  moreover have "pager_ok p"
    using assms rd NewBufferPool_ok [of readPageDisk 64 f]
    by (auto simp: pager_ok_def p_def NewBufferPool_def)
  ultimately show ?thesis by (auto simp: p_def)
qed

lemma readPageDisk_fdata: "fdata f = fdata g \<Longrightarrow> readPageDisk f = readPageDisk g"
  by (simp add: fun_eq_iff readPageDisk_def os_ReadAt_def)

text \<open>
  After a successful flush, opening the file again shows exactly the pages the pager showed,
  whatever order the flush wrote them in.
\<close>

lemma pager_Flush_durable:
  assumes ok: "pager_ok p" and run: "pager_Flush ord p = (p', None)"
    and ord: "set ord = fst ` set (items (pool p))" and f: "fdata f = fdata (dbfile p')"
  shows "\<exists>p''. pager_Open f = Inr p'' \<and> pager_ok p'' \<and> dbfile p'' = f \<and>
    numPages p'' = numPages p \<and> pager_view p'' = pager_view p"
proof -
  obtain b g where fl: "Flush writePageDisk ord (pool p) (dbfile p) = (b, g, None)"
    and p': "p' = p\<lparr>pool := b, dbfile := g\<rparr>"
    using run by (auto simp: pager_Flush_def split: prod.splits)
  have pool: "pool_ok readPageDisk (pool p) (dbfile p)" using ok by (simp add: pager_ok_def)
  have rd: "readPageDisk f = readPageDisk g"
    using f p' by (intro readPageDisk_fdata) simp
  have page: "\<exists>q. pager_view p i = Some q \<and> readPageDisk f i = Inr q" if "i < numPages p" for i
  proof -
    from that ok obtain q where q: "pager_view p i = Some q" by (auto simp: pager_ok_def)
    with file_disk.Flush_durable [OF pool fl ord] rd show ?thesis
      by (auto simp: pager_view_Some)
  qed
  have "unat (numPages p) * PageSize \<le> length (fdata f)"
  proof (cases "numPages p = 0")
    case False
    then have "numPages p - 1 < numPages p" and "unat (numPages p) = Suc (unat (numPages p - 1))"
      by (simp_all add: word_less_nat_alt unat_minus_one unat_gt_0)
    with page [of "numPages p - 1"] show ?thesis by (auto simp: readPageDisk_Inr)
  qed simp
  moreover have "length (fdata f) \<le> unat (numPages p) * PageSize"
    using pager_Flush_ok(1,3) [OF ok run] f by (simp add: pager_ok_def)
  ultimately have "length (fdata f) = unat (numPages p) * PageSize" by simp
  from pager_Open_view [OF this] obtain p'' where
    o: "pager_Open f = Inr p''" "pager_ok p''" "numPages p'' = numPages p" "dbfile p'' = f"
    and v: "\<And>i. i < numPages p \<Longrightarrow> \<exists>q. readPageDisk f i = Inr q \<and> pager_view p'' i = Some q"
    by blast
  have "pager_view p'' = pager_view p"
  proof
    fix i
    show "pager_view p'' i = pager_view p i"
      using v [of i] page [of i] o(3) by (cases "i < numPages p") (auto simp: pager_view_def)
  qed
  with o show ?thesis by blast
qed

lemma pager_Sync_same:
  assumes "pager_Sync p = (p', r)"
  shows "fdata (dbfile p') = fdata (dbfile p)" "pool p' = pool p" "numPages p' = numPages p"
    "pager_view p' = pager_view p" "pager_ok p' = pager_ok p"
proof -
  from assms show f: "fdata (dbfile p') = fdata (dbfile p)" and pl: "pool p' = pool p"
    and n: "numPages p' = numPages p"
    by (auto simp: pager_Sync_def os_Sync_def)
  have rd: "readPageDisk (dbfile p') = readPageDisk (dbfile p)"
    using f by (rule readPageDisk_fdata)
  show v: "pager_view p' = pager_view p"
    unfolding fun_eq_iff pager_view_def pool_view_def rd pl n by simp
  show "pager_ok p' = pager_ok p"
    by (simp add: pager_ok_def pool_ok_def entry_ok_def v f pl n rd)
qed

lemma pager_Close_durable:
  assumes "pager_ok p" and "pager_Close ord p = (p', None)"
    and "set ord = fst ` set (items (pool p))" and "fdata f = fdata (dbfile p')"
  shows "\<exists>p''. pager_Open f = Inr p'' \<and> pager_ok p'' \<and> dbfile p'' = f \<and>
    numPages p'' = numPages p \<and> pager_view p'' = pager_view p"
proof -
  from assms(2) obtain p1 where "pager_Flush ord p = (p1, None)" "pager_Sync p1 = (p', None)"
    by (auto simp: pager_Close_def split: prod.splits option.splits)
  with pager_Flush_durable [OF assms(1) this(1) assms(3), of f] pager_Sync_same(1) [OF this(2)] assms(4)
  show ?thesis by simp
qed

section \<open>Without I/O errors\<close>

definition pager_fine :: "Pager \<Rightarrow> bool" where
  "pager_fine p \<longleftrightarrow> pager_ok p \<and> faults (dbfile p) = []"

lemma file_quiet: "quiet writePageDisk (\<lambda>f. faults f = [])"
  by (auto simp: quiet_def writePageDisk_def os_WriteAt_def)

lemma pager_ok_pool: "pager_ok p \<Longrightarrow> pool_ok readPageDisk (pool p) (dbfile p)"
  by (simp add: pager_ok_def)

lemma ReadPage_fine:
  assumes fine: "pager_fine p" and view: "pager_view p i = Some q"
  shows "\<exists>p'. ReadPage i p = (p', Inr q) \<and> pager_fine p' \<and> pager_view p' = pager_view p \<and>
    numPages p' = numPages p"
proof -
  obtain b f r where g: "Get readPageDisk writePageDisk i (pool p) (dbfile p) = (b, f, r)"
    by (cases "Get readPageDisk writePageDisk i (pool p) (dbfile p)")
  from fine view have "r = Inr q \<and> faults f = []"
    by (intro file_disk.Get_quiet [OF file_quiet pager_ok_pool _ _ g]) (auto simp: pager_fine_def pager_view_Some)
  with g view [unfolded pager_view_Some] have "ReadPage i p = (p\<lparr>pool := b, dbfile := f\<rparr>, Inr q)" "faults f = []"
    by (auto simp: ReadPage_def)
  with ReadPage_ok [of p i "p\<lparr>pool := b, dbfile := f\<rparr>" "Inr q"] fine show ?thesis
    by (auto simp: pager_fine_def)
qed

lemma WritePage_fine:
  assumes fine: "pager_fine p" and wf: "wf_page q" and i: "ID q < numPages p"
  shows "\<exists>p'. WritePage q p = (p', None) \<and> pager_fine p' \<and> pager_view p' = (pager_view p)(ID q \<mapsto> q) \<and>
    numPages p' = numPages p"
proof -
  obtain b f r where put: "Put writePageDisk q True (pool p) (dbfile p) = (b, f, r)"
    by (cases "Put writePageDisk q True (pool p) (dbfile p)")
  from fine have "r = None \<and> faults f = []"
    by (intro file_disk.Put_quiet [OF file_quiet pager_ok_pool _ put]) (auto simp: pager_fine_def)
  with put i [unfolded not_le [symmetric]] have "WritePage q p = (p\<lparr>pool := b, dbfile := f\<rparr>, None)" "faults f = []"
    by (auto simp: WritePage_def)
  with WritePage_ok [OF _ wf i, of "p\<lparr>pool := b, dbfile := f\<rparr>" None] fine show ?thesis
    by (auto simp: pager_fine_def)
qed

lemma AllocatePage_fine:
  assumes fine: "pager_fine p" and room: "numPages p < NoPage"
  shows "\<exists>p'. AllocatePage p = (p', Inr (NewPage (numPages p))) \<and> pager_fine p' \<and>
    pager_view p' = (pager_view p)(numPages p \<mapsto> NewPage (numPages p)) \<and> numPages p' = numPages p + 1"
proof -
  obtain b f r where put: "Put writePageDisk (NewPage (numPages p)) True (pool p) (dbfile p) = (b, f, r)"
    by (cases "Put writePageDisk (NewPage (numPages p)) True (pool p) (dbfile p)")
  from fine have "r = None \<and> faults f = []"
    by (intro file_disk.Put_quiet [OF file_quiet pager_ok_pool _ put]) (auto simp: pager_fine_def)
  with put have "AllocatePage p = (p\<lparr>numPages := numPages p + 1, pool := b, dbfile := f\<rparr>, Inr (NewPage (numPages p)))"
    "faults f = []" by (auto simp: AllocatePage_def Let_def)
  with AllocatePage_ok(1,2) [OF _ room this(1)] fine show ?thesis
    by (auto simp: pager_fine_def)
qed

lemma pager_Flush_fine:
  assumes fine: "pager_fine p"
  shows "\<exists>p'. pager_Flush ord p = (p', None) \<and> pager_fine p' \<and> pager_view p' = pager_view p \<and>
    numPages p' = numPages p"
proof -
  obtain b f r where fl: "Flush writePageDisk ord (pool p) (dbfile p) = (b, f, r)"
    by (cases "Flush writePageDisk ord (pool p) (dbfile p)")
  from fine have "r = None \<and> faults f = []"
    by (intro file_disk.Flush_quiet [OF file_quiet _ fl]) (auto simp: pager_fine_def)
  with fl have "pager_Flush ord p = (p\<lparr>pool := b, dbfile := f\<rparr>, None)" "faults f = []"
    by (auto simp: pager_Flush_def)
  with pager_Flush_ok [of p ord "p\<lparr>pool := b, dbfile := f\<rparr>" None] fine show ?thesis
    by (auto simp: pager_fine_def)
qed

section \<open>Sequences of operations\<close>

datatype pager_op = OpAllocate | OpRead u32 | OpWrite Page | OpFlush "u32 list"

definition pager_exec :: "pager_op \<Rightarrow> Pager \<Rightarrow> Pager \<times> Page option result" where
  "pager_exec op p =
     (case op of
        OpAllocate \<Rightarrow> (case AllocatePage p of (p', r) \<Rightarrow> (p', map_sum id Some r))
      | OpRead i \<Rightarrow> (case ReadPage i p of (p', r) \<Rightarrow> (p', map_sum id Some r))
      | OpWrite q \<Rightarrow> (case WritePage q p of (p', r) \<Rightarrow> (p', case r of None \<Rightarrow> Inr None | Some e \<Rightarrow> Inl e))
      | OpFlush ord \<Rightarrow> (case pager_Flush ord p of (p', r) \<Rightarrow> (p', case r of None \<Rightarrow> Inr None | Some e \<Rightarrow> Inl e)))"

fun pager_run :: "pager_op list \<Rightarrow> Pager \<Rightarrow> Pager \<times> Page option result list" where
  "pager_run [] p = (p, [])"
| "pager_run (op # ops) p =
     (case pager_exec op p of (p1, r) \<Rightarrow> (case pager_run ops p1 of (p2, rs) \<Rightarrow> (p2, r # rs)))"

text \<open>
  The specification: a growing list of pages. It accepts an operation with the result the
  code gave, or refuses it (\<open>None\<close>); an operation that failed has changed nothing.
\<close>

fun pages_step :: "pager_op \<Rightarrow> Page option result \<Rightarrow> Page list \<Rightarrow> Page list option" where
  "pages_step OpAllocate (Inr (Some q)) ps =
     (if q = NewPage (word_of_nat (length ps)) then Some (ps @ [q]) else None)"
| "pages_step (OpRead i) (Inr (Some q)) ps =
     (if unat i < length ps \<and> ps ! unat i = q then Some ps else None)"
| "pages_step (OpWrite q) (Inr None) ps =
     (if unat (ID q) < length ps then Some (ps[unat (ID q) := q]) else None)"
| "pages_step (OpFlush ord) (Inr None) ps = Some ps"
| "pages_step op (Inl err) ps = Some ps"
| "pages_step op r ps = None"

fun pages_run :: "pager_op list \<Rightarrow> Page option result list \<Rightarrow> Page list \<Rightarrow> Page list option" where
  "pages_run [] [] ps = Some ps"
| "pages_run (op # ops) (r # rs) ps = Option.bind (pages_step op r ps) (pages_run ops rs)"
| "pages_run _ _ ps = None"

definition shows_pages :: "Pager \<Rightarrow> Page list \<Rightarrow> bool" where
  "shows_pages p ps \<longleftrightarrow>
     unat (numPages p) = length ps \<and>
     pager_view p = (\<lambda>i. if unat i < length ps then Some (ps ! unat i) else None)"

lemma shows_pages_same: "shows_pages p ps \<Longrightarrow> pager_view p' = pager_view p \<Longrightarrow> numPages p' = numPages p \<Longrightarrow> shows_pages p' ps"
  by (simp add: shows_pages_def)

lemma shows_pages_nth: "shows_pages p ps \<Longrightarrow> pager_view p i = Some q \<longleftrightarrow> unat i < length ps \<and> ps ! unat i = q"
  by (simp add: shows_pages_def)

lemma exec_Allocate:
  assumes ok: "pager_ok p" and sh: "shows_pages p ps" and room: "Suc (length ps) < 2 ^ 32"
    and run: "AllocatePage p = (p', Inr q)"
  shows "pager_ok p' \<and> q = NewPage (word_of_nat (length ps)) \<and> shows_pages p' (ps @ [q])"
proof -
  have len: "length ps = unat (numPages p)" using sh by (simp add: shows_pages_def)
  have n: "numPages p < NoPage" using room by (simp add: len word_less_nat_alt unat_NoPage)
  note al = AllocatePage_ok(1) [OF ok n run] AllocatePage_ok(2) [OF ok n run refl]
  have "pager_view p' = (\<lambda>i. if unat i < length (ps @ [q]) then Some ((ps @ [q]) ! unat i) else None)"
    using al(2) sh by (auto simp: shows_pages_def fun_eq_iff nth_append less_Suc_eq len word_unat_eq_iff)
  moreover have "q = NewPage (numPages p)" "numPages p' = numPages p + 1" using al(2) by simp_all
  ultimately show ?thesis using al(1) by (auto simp: shows_pages_def len unat_next_page [OF n])
qed

lemma exec_Write:
  assumes ok: "pager_ok p" and sh: "shows_pages p ps" and wf: "wf_page q" and run: "WritePage q p = (p', r)"
  shows "pager_ok p' \<and> (case r of None \<Rightarrow> unat (ID q) < length ps \<and> shows_pages p' (ps[unat (ID q) := q])
    | Some err \<Rightarrow> shows_pages p' ps)"
proof (cases "ID q < numPages p")
  case True
  note w = WritePage_ok [OF ok wf True run]
  have len: "unat (numPages p) = length ps" "unat (ID q) < length ps"
    using sh True by (auto simp: shows_pages_def word_less_nat_alt)
  have "pager_view p' = (\<lambda>i. if unat i < length ps then Some (ps[unat (ID q) := q] ! unat i) else None)" if "r = None"
    using w(3) [OF that] sh len(2) by (auto simp: shows_pages_def fun_eq_iff nth_list_update word_unat_eq_iff)
  with w len sh show ?thesis by (auto simp: shows_pages_def split: option.splits)
next
  case False
  with run ok sh show ?thesis by (auto simp: WritePage_def not_less)
qed

lemma pager_exec_step:
  assumes ok: "pager_ok p" and sh: "shows_pages p ps" and room: "Suc (length ps) < 2 ^ 32"
    and wf: "\<And>q. op = OpWrite q \<Longrightarrow> wf_page q" and run: "pager_exec op p = (p', r)"
  shows "\<exists>ps'. pages_step op r ps = Some ps' \<and> pager_ok p' \<and> shows_pages p' ps' \<and> length ps' \<le> Suc (length ps)"
proof (cases op)
  case OpAllocate
  obtain p1 r1 where al: "AllocatePage p = (p1, r1)" by (cases "AllocatePage p")
  have "numPages p < NoPage" using sh room by (simp add: shows_pages_def word_less_nat_alt unat_NoPage)
  note e = AllocatePage_ok(1,3) [OF ok this al]
  show ?thesis
  proof (cases r1)
    case (Inl err)
    with e run OpAllocate al sh show ?thesis by (auto simp: pager_exec_def intro: shows_pages_same)
  next
    case (Inr q)
    with exec_Allocate [OF ok sh room] run OpAllocate al show ?thesis by (auto simp: pager_exec_def)
  qed
next
  case (OpRead i)
  obtain p1 r1 where rd: "ReadPage i p = (p1, r1)" by (cases "ReadPage i p")
  note e = ReadPage_ok [OF ok rd]
  have "shows_pages p1 ps" using shows_pages_same [OF sh e(2,3)] .
  with e(1,4) run OpRead rd sh show ?thesis
    by (cases r1) (auto simp: pager_exec_def shows_pages_nth)
next
  case (OpWrite q)
  obtain p1 r1 where w: "WritePage q p = (p1, r1)" by (cases "WritePage q p")
  with exec_Write [OF ok sh wf [OF OpWrite] w] run OpWrite show ?thesis
    by (cases r1) (auto simp: pager_exec_def)
next
  case (OpFlush ord)
  obtain p1 r1 where fl: "pager_Flush ord p = (p1, r1)" by (cases "pager_Flush ord p")
  note e = pager_Flush_ok [OF ok fl]
  have "shows_pages p1 ps" using shows_pages_same [OF sh e(2,3)] .
  with e(1) run OpFlush fl show ?thesis by (cases r1) (auto simp: pager_exec_def)
qed

lemma pager_run_ok:
  assumes "pager_ok p" and "shows_pages p ps" and "length ps + length ops < 2 ^ 32"
    and "\<forall>q. OpWrite q \<in> set ops \<longrightarrow> wf_page q" and "pager_run ops p = (p', rs)"
  shows "\<exists>ps'. pages_run ops rs ps = Some ps' \<and> pager_ok p' \<and> shows_pages p' ps'"
  using assms
proof (induction ops arbitrary: p ps rs)
  case (Cons op ops)
  obtain p1 r where e: "pager_exec op p = (p1, r)" by (cases "pager_exec op p")
  from Cons.prems(5) e obtain rs' where rest: "pager_run ops p1 = (p', rs')" and rs: "rs = r # rs'"
    by (auto split: prod.splits)
  from pager_exec_step [OF Cons.prems(1,2) _ _ e] Cons.prems(3,4) obtain ps1 where
    ps1: "pages_step op r ps = Some ps1" "pager_ok p1" "shows_pages p1 ps1" "length ps1 \<le> Suc (length ps)" by auto
  from Cons.IH [OF ps1(2,3) _ _ rest] ps1(1,4) Cons.prems(3,4) rs show ?case by auto
qed auto

text \<open>The pages of a file on disk.\<close>

definition file_pages :: "os_file \<Rightarrow> Page list" where
  "file_pages f = map (\<lambda>i. \<lparr>ID = word_of_nat i, Data = go_slice (i * PageSize) (i * PageSize + PageSize) (fdata f)\<rparr>)
     [0..<length (fdata f) div PageSize]"

lemma file_pages_nth:
  assumes "readPageDisk f i = Inr q"
  shows "unat i < length (file_pages f) \<and> file_pages f ! unat i = q"
proof -
  from assms have "Suc (unat i) * PageSize \<le> length (fdata f)" by (simp add: readPageDisk_Inr)
  then have "Suc (unat i) \<le> length (fdata f) div PageSize" by (simp add: PageSize_def)
  with assms show ?thesis by (simp add: file_pages_def readPageDisk_Inr)
qed

lemma pager_Open_pages:
  assumes "pager_Open f = Inr p" and "length (fdata f) div PageSize < 2 ^ 32"
  shows "pager_ok p" "dbfile p = f" "shows_pages p (file_pages f)"
proof -
  define n :: u32 where "n = word_of_nat (length (fdata f) div PageSize)"
  have "length (fdata f) mod PageSize = 0" using assms(1) by (auto simp: pager_Open_def split: if_splits)
  then have len: "length (fdata f) = unat n * PageSize"
    using assms(2) by (simp add: n_def unat_of_nat mod_eq_0_iff_dvd)
  from pager_Open_view [OF len] assms(1) have p: "pager_ok p" "dbfile p = f" "numPages p = n"
    and v: "\<forall>i < n. \<exists>q. readPageDisk f i = Inr q \<and> pager_view p i = Some q" by auto
  have l: "length (file_pages f) = unat n" using len by (simp add: file_pages_def PageSize_def)
  have "pager_view p i = (if unat i < length (file_pages f) then Some (file_pages f ! unat i) else None)" for i
    using v file_pages_nth [of f i] l p(3) by (cases "i < n") (auto simp: pager_view_def word_less_nat_alt)
  with p l show "pager_ok p" "dbfile p = f" "shows_pages p (file_pages f)"
    by (auto simp: shows_pages_def fun_eq_iff)
qed

lemma shows_pages_unique: "shows_pages p xs \<Longrightarrow> shows_pages p ys \<Longrightarrow> xs = ys"
proof (rule nth_equalityI)
  assume xs: "shows_pages p xs" and ys: "shows_pages p ys"
  then show len: "length xs = length ys" by (simp add: shows_pages_def)
  fix i assume i: "i < length xs"
  have "length xs < 2 ^ 32" using xs unat_bound [of "numPages p"] by (simp add: shows_pages_def)
  with i have "unat (word_of_nat i :: u32) = i" by (simp add: unat_of_nat)
  with i len xs ys show "xs ! i = ys ! i"
    unfolding shows_pages_def by (metis option.inject)
qed

section \<open>Properties of the pager\<close>

text \<open>C3: Opening a database file and running any sequence of allocations, reads, writes and
  flushes, with any I/O failures on the way, behaves like a growing array of pages that starts
  with the pages of the file: an allocation appends an empty page under the next ID, a read
  returns the page last written under that ID, evictions from the buffer pool lose nothing, and
  an operation that returns an error has changed no page.\<close>

theorem pager_refines_pages:
  assumes "pager_Open f = Inr p" and "length (fdata f) div PageSize + length ops < 2 ^ 32"
    and "\<forall>q. OpWrite q \<in> set ops \<longrightarrow> wf_page q" and "pager_run ops p = (p', rs)"
  shows "\<exists>ps. pages_run ops rs (file_pages f) = Some ps \<and> pager_ok p' \<and> shows_pages p' ps"
  using pager_Open_pages [OF assms(1)] assms(2-)
  by (intro pager_run_ok [of p]) (auto simp: file_pages_def)

theorem pager_refines_pages_witness:
  "pager_Open (file_of []) = Inr \<lparr>dbfile = file_of [], numPages = 0, pool = NewBufferPool 64\<rparr> \<and>
   (\<exists>ps. pages_run [OpAllocate, OpRead 0]
      (snd (pager_run [OpAllocate, OpRead 0] \<lparr>dbfile = file_of [], numPages = 0, pool = NewBufferPool 64\<rparr>))
      (file_pages (file_of [])) = Some ps)"
proof -
  let ?p = "\<lparr>dbfile = file_of [], numPages = 0, pool = NewBufferPool 64\<rparr>"
  have "pager_Open (file_of []) = Inr ?p" by (simp add: pager_Open_def file_of_def)
  with pager_refines_pages [OF this, of "[OpAllocate, OpRead 0]" "fst (pager_run [OpAllocate, OpRead 0] ?p)"
      "snd (pager_run [OpAllocate, OpRead 0] ?p)"]
  show ?thesis by (auto simp: file_of_def)
qed

text \<open>C14: After a close that reported no error the file on disk consists of exactly the pages the
  pager showed, in whatever order the dirty pages were written, and opening it again succeeds and
  shows the same pages.\<close>

theorem pager_Close_reopen:
  assumes "pager_ok p" and "shows_pages p ps" and "set ord = fst ` set (items (pool p))"
    and "pager_Close ord p = (p', None)"
  shows "file_pages (dbfile p') = ps \<and>
    (\<exists>p''. pager_Open (dbfile p') = Inr p'' \<and> pager_ok p'' \<and> shows_pages p'' ps)"
proof -
  from pager_Close_durable [OF assms(1,4,3) refl] obtain p'' where
    p'': "pager_Open (dbfile p') = Inr p''" "pager_ok p''" "dbfile p'' = dbfile p'"
      "numPages p'' = numPages p" "pager_view p'' = pager_view p" by auto
  have sh: "shows_pages p'' ps" using shows_pages_same [OF assms(2) p''(5,4)] .
  have "length (fdata (dbfile p')) div PageSize \<le> unat (numPages p'')"
    using p''(2,3) div_le_mono [of _ "unat (numPages p'') * PageSize" PageSize]
    by (simp add: pager_ok_def PageSize_def)
  then have "length (fdata (dbfile p')) div PageSize < 2 ^ 32"
    using unat_bound [of "numPages p''"] by simp
  from shows_pages_unique [OF pager_Open_pages(3) [OF p''(1) this] sh] p'' sh show ?thesis by auto
qed

text \<open>Two new pages, both dirty in the pool and not yet in the file, the second written first.\<close>

theorem pager_Close_reopen_witness:
  "\<exists>p0 p1 p p' p''. pager_Open (file_of []) = Inr p0 \<and> AllocatePage p0 = (p1, Inr (NewPage 0)) \<and> AllocatePage p1 = (p, Inr (NewPage 1)) \<and>
     fdata (dbfile p) = [] \<and> pager_Close [1, 0] p = (p', None) \<and> file_pages (dbfile p') = [NewPage 0, NewPage 1] \<and>
     pager_Open (dbfile p') = Inr p'' \<and> shows_pages p'' [NewPage 0, NewPage 1]"
proof -
  define p0 where "p0 = \<lparr>dbfile = file_of [], numPages = 0, pool = NewBufferPool 64\<rparr>"
  have op: "pager_Open (file_of []) = Inr p0" by (simp add: pager_Open_def file_of_def p0_def)
  have p0: "pager_ok p0" "shows_pages p0 []"
    using pager_Open_pages [OF op] by (simp_all add: file_of_def file_pages_def)
  obtain p1 q1 where a1: "AllocatePage p0 = (p1, Inr q1)" "items (pool p1) = [(0, \<lparr>pe_page = NewPage 0, pe_dirty = True\<rparr>)]" "dbfile p1 = file_of []"
    "numPages p1 = 1" "capacity (pool p1) = 64" "length (lru (pool p1)) = 1"
    by (simp add: AllocatePage_def Put_def makeRoomLocked_def NewBufferPool_def p0_def NewPage_def Let_def)
  obtain p q2 where a2: "AllocatePage p1 = (p, Inr q2)" "fst ` set (items (pool p)) = {0, 1}" "dbfile p = file_of []"
    using a1(2-6) by (simp add: AllocatePage_def Put_def makeRoomLocked_def NewPage_def Let_def)
  have s1: "pager_ok p1" "q1 = NewPage 0" "shows_pages p1 [NewPage 0]" using exec_Allocate [OF p0 _ a1(1)] by auto
  have s2: "pager_ok p" "q2 = NewPage 1" "shows_pages p [NewPage 0, NewPage 1]" using exec_Allocate [OF s1(1,3) _ a2(1)] by auto
  have fine: "pager_fine p" using s2(1) a2(3) by (simp add: pager_fine_def file_of_def)
  obtain p2 where "pager_Flush [1, 0] p = (p2, None)" "pager_fine p2" using pager_Flush_fine [OF fine] by blast
  then obtain p' where cl: "pager_Close [1, 0] p = (p', None)"
    by (auto simp: pager_Close_def pager_Sync_def os_Sync_def pager_fine_def)
  have "set [1, 0] = fst ` set (items (pool p))" using a2(2) by auto
  from pager_Close_reopen [OF s2(1,3) this cl] op a1(1) a2(1,3) s1(2) s2(2) cl show ?thesis by (auto simp: file_of_def)
qed

text \<open>As long as no I/O call fails, reading an existing page, writing one back and allocating
  a page all succeed, however often the buffer pool has to evict.\<close>

theorem pager_total_without_faults:
  assumes "pager_ok p" and "faults (dbfile p) = []"
  shows "(i < numPages p \<longrightarrow> (\<exists>p' q. ReadPage i p = (p', Inr q) \<and> pager_view p i = Some q)) \<and>
    (wf_page q \<and> ID q < numPages p \<longrightarrow> (\<exists>p'. WritePage q p = (p', None) \<and> pager_view p' (ID q) = Some q)) \<and>
    (numPages p < NoPage \<longrightarrow> (\<exists>p'. AllocatePage p = (p', Inr (NewPage (numPages p)))))"
proof (intro conjI impI)
  have fine: "pager_fine p" using assms by (simp add: pager_fine_def)
  show "\<exists>p' q. ReadPage i p = (p', Inr q) \<and> pager_view p i = Some q" if "i < numPages p"
    using ReadPage_fine [OF fine, of i] assms(1) that by (fastforce simp: pager_ok_def)
  show "\<exists>p'. WritePage q p = (p', None) \<and> pager_view p' (ID q) = Some q" if "wf_page q \<and> ID q < numPages p"
    using WritePage_fine [OF fine, of q] that by auto
  show "\<exists>p'. AllocatePage p = (p', Inr (NewPage (numPages p)))" if "numPages p < NoPage"
    using AllocatePage_fine [OF fine that] by auto
qed

theorem pager_total_without_faults_witness:
  "\<exists>p'. AllocatePage \<lparr>dbfile = file_of [], numPages = 0, pool = NewBufferPool 64\<rparr> = (p', Inr (NewPage 0))"
proof -
  let ?p = "\<lparr>dbfile = file_of [], numPages = 0, pool = NewBufferPool 64\<rparr>"
  have "pager_Open (file_of []) = Inr ?p" by (simp add: pager_Open_def file_of_def)
  then have "pager_ok ?p" using pager_Open_pages(1) [of "file_of []" ?p] by (simp add: file_of_def)
  from pager_total_without_faults [OF this] show ?thesis
    by (simp add: file_of_def word_less_nat_alt unat_NoPage)
qed

end
