(* ===== verification/BTree.thy ===== *)
theory BTree
  imports Prelude
begin

text \<open>
  The B+Tree index of \<^verbatim>\<open>kv/btree.go\<close>. A node owns its children, so the tree is a datatype;
  the \<open>next\<close> pointer that chains the leaves is an alias into the tree and is modelled as
  one: every leaf has an address, \<open>next\<close> holds the address of the following leaf, and
  following it looks the address up among the leaves. Where the Go code indexes or slices
  out of range and would panic, the operations return \<open>None\<close>.

  The lemmas show that the order invariant, the balance of the tree and the leaf chain are
  kept by every operation, that no operation panics and every loop ends, and that the tree
  implements a map sorted by key.
\<close>

section \<open>Definitions\<close>

definition btreeOrder :: nat where
  "btreeOrder = 32"

type_synonym entry = "bytes \<times> bytes"

datatype btreeNode =
    Leaf nat "bytes list" "bytes list" "nat option" \<comment> \<open>address, keys, values, next\<close>
  | Inner "bytes list" "btreeNode list" \<comment> \<open>keys, children\<close>

record btree =
  root :: "btreeNode option"
  fresh :: nat \<comment> \<open>the address of the next leaf to be allocated\<close>

definition empty_btree :: btree where
  "empty_btree = \<lparr>root = None, fresh = 0\<rparr>"

fun node_keys :: "btreeNode \<Rightarrow> bytes list" where
  "node_keys (Leaf a ks vs nx) = ks"
| "node_keys (Inner ks cs) = ks"

fun leaves :: "btreeNode \<Rightarrow> (nat \<times> bytes list \<times> bytes list \<times> nat option) list" where
  "leaves (Leaf a ks vs nx) = [(a, ks, vs, nx)]"
| "leaves (Inner ks cs) = concat (map leaves cs)"

fun childIndex :: "bytes list \<Rightarrow> bytes \<Rightarrow> nat" where
  "childIndex [] key = 0"
| "childIndex (k # ks) key = (if bytes_Compare key k \<ge> 0 then Suc (childIndex ks key) else 0)"

function keyIndex_loop :: "bytes list \<Rightarrow> bytes \<Rightarrow> nat \<Rightarrow> nat \<Rightarrow> nat" where
  "keyIndex_loop ks key lo hi =
     (if lo < hi
      then (let m = (lo + hi) div 2
            in if bytes_Compare (ks ! m) key < 0 then keyIndex_loop ks key (m + 1) hi
               else keyIndex_loop ks key lo m)
      else lo)"
  by pat_completeness auto
termination
  by (relation "measure (\<lambda>(ks, key, lo, hi). hi - lo)") auto

declare keyIndex_loop.simps [simp del]

definition keyIndex :: "bytes list \<Rightarrow> bytes \<Rightarrow> nat" where
  "keyIndex ks key = keyIndex_loop ks key 0 (length ks)"

lemma size_child [termination_simp]: "i < length cs \<Longrightarrow> size (cs ! i) < Suc (size_list size cs)"
  by (rule le_imp_less_Suc) (rule size_list_estimation' [OF nth_mem order_refl])

text \<open>The result is \<open>None\<close> for a panic, otherwise the value found, if any.\<close>

fun node_get :: "btreeNode \<Rightarrow> bytes \<Rightarrow> bytes option option" where
  "node_get (Leaf a ks vs nx) key =
     (let i = keyIndex ks key
      in if i < length ks \<and> ks ! i = key
         then (if i < length vs then Some (Some (vs ! i)) else None)
         else Some None)"
| "node_get (Inner ks cs) key =
     (let i = childIndex ks key
      in if i < length cs then node_get (cs ! i) key else None)"

definition btree_get :: "btree \<Rightarrow> bytes \<Rightarrow> bytes option option" where
  "btree_get t key = (case root t of None \<Rightarrow> Some None | Some n \<Rightarrow> node_get n key)"

text \<open>
  The leftmost leaf, and the walk along the leaf chain from it. A chain that visits more
  leaves than the tree has is a cycle, on which the Go loop never ends.
\<close>

fun leftmost :: "btreeNode \<Rightarrow> nat option" where
  "leftmost (Leaf a ks vs nx) = Some a"
| "leftmost (Inner ks []) = None"
| "leftmost (Inner ks (c # cs)) = leftmost c"

fun walk :: "nat \<Rightarrow> (nat \<times> bytes list \<times> bytes list \<times> nat option) list \<Rightarrow> nat option \<Rightarrow> entry list option" where
  "walk n ls None = Some []"
| "walk 0 ls (Some a) = None"
| "walk (Suc n) ls (Some a) =
     (case map_of ls a of
        None \<Rightarrow> None
      | Some (ks, vs, nx) \<Rightarrow>
          if length ks \<le> length vs then map_option (\<lambda>es. zip ks vs @ es) (walk n ls nx) else None)"

definition btree_entries :: "btree \<Rightarrow> entry list option" where
  "btree_entries t =
     (case root t of
        None \<Rightarrow> Some []
      | Some n \<Rightarrow>
          (case leftmost n of
             None \<Rightarrow> None
           | Some a \<Rightarrow> walk (length (leaves n)) (leaves n) (Some a)))"

definition insert_at :: "nat \<Rightarrow> 'a \<Rightarrow> 'a list \<Rightarrow> 'a list" where
  "insert_at i x xs = take i xs @ x # drop i xs"

text \<open>
  \<open>splitChild f ks cs i\<close> splits child \<open>i\<close> of the parent with keys \<open>ks\<close> and children
  \<open>cs\<close>, and returns the parent's new keys and children and the next free address.
\<close>

definition splitChild ::
  "nat \<Rightarrow> bytes list \<Rightarrow> btreeNode list \<Rightarrow> nat \<Rightarrow> (bytes list \<times> btreeNode list \<times> nat) option" where
  "splitChild f ks cs i =
     (if i < length cs \<and> i \<le> length ks then
        (case cs ! i of
           Leaf a oks ovs nx \<Rightarrow>
             (let mid = length oks div 2
              in if mid < length oks \<and> mid \<le> length ovs
                 then Some (insert_at i (oks ! mid) ks,
                            insert_at (Suc i) (Leaf f (drop mid oks) (drop mid ovs) nx)
                              (cs[i := Leaf a (take mid oks) (take mid ovs) (Some f)]),
                            Suc f)
                 else None)
         | Inner oks ocs \<Rightarrow>
             (let cut = length ocs div 2
              in if 1 \<le> cut \<and> cut \<le> length oks
                 then Some (insert_at i (oks ! (cut - 1)) ks,
                            insert_at (Suc i) (Inner (drop cut oks) (drop cut ocs))
                              (cs[i := Inner (take (cut - 1) oks) (take cut ocs)]),
                            f)
                 else None))
      else None)"

fun height :: "btreeNode \<Rightarrow> nat" where
  "height (Leaf a ks vs nx) = 0"
| "height (Inner ks cs) = Suc (foldr max (map height cs) 0)"

lemma height_child: "c \<in> set cs \<Longrightarrow> height c \<le> foldr max (map height cs) 0"
  by (induction cs) (auto simp: le_max_iff_disj)

lemma foldr_max_le: "(\<forall>x \<in> set xs. x \<le> m) \<Longrightarrow> foldr max xs 0 \<le> (m :: nat)"
  by (induction xs) auto

lemma height_Inner_mono:
  "set ds \<subseteq> set cs \<Longrightarrow> height (Inner ks' ds) \<le> height (Inner ks cs)"
  by (auto intro!: foldr_max_le height_child)

lemma splitChild_height:
  assumes "splitChild f ks cs i = Some (ks', cs', f')" and "c \<in> set cs'"
  shows "height c \<le> foldr max (map height cs) 0"
proof -
  from assms(1) have i: "i < length cs" by (simp add: splitChild_def split: if_splits)
  let ?m = "foldr max (map height cs) 0"
  have old: "height (cs ! i) \<le> ?m" using i by (simp add: height_child)
  consider "c \<in> set cs" | "height c \<le> height (cs ! i)"
  proof (cases "cs ! i")
    case (Leaf a oks ovs nx)
    with assms i that show ?thesis
      by (auto simp: splitChild_def insert_at_def Let_def split: if_splits
          dest!: in_set_takeD in_set_dropD set_update_subset_insert [THEN subsetD])
  next
    case (Inner oks ocs)
    have "height (Inner (drop n oks) (drop m ocs)) \<le> height (cs ! i)"
      "height (Inner (take n oks) (take m ocs)) \<le> height (cs ! i)" for n m
      unfolding Inner by (auto intro!: height_Inner_mono dest: in_set_takeD in_set_dropD simp del: height.simps)
    with Inner assms i that show ?thesis
      by (auto simp: splitChild_def insert_at_def Let_def split: if_splits simp del: height.simps
          dest!: in_set_takeD in_set_dropD set_update_subset_insert [THEN subsetD])
  qed
  then show ?thesis using old height_child [of c cs] by cases auto
qed

function insertNonFull :: "nat \<Rightarrow> btreeNode \<Rightarrow> bytes \<Rightarrow> bytes \<Rightarrow> (btreeNode \<times> nat) option" where
  "insertNonFull f (Leaf a ks vs nx) key value =
     (let i = keyIndex ks key
      in if i < length ks \<and> ks ! i = key
         then (if i < length vs then Some (Leaf a ks (vs[i := value]) nx, f) else None)
         else if i \<le> length vs
         then Some (Leaf a (insert_at i key ks) (insert_at i value vs) nx, f)
         else None)"
| "insertNonFull f (Inner ks cs) key value =
     (let i = childIndex ks key
      in if i < length cs then
           (if length (node_keys (cs ! i)) = btreeOrder then
              (case splitChild f ks cs i of
                 None \<Rightarrow> None
               | Some (ks', cs', f') \<Rightarrow>
                   (let j = (if bytes_Compare key (ks' ! i) \<ge> 0 then Suc i else i)
                    in if j < length cs'
                       then map_option (\<lambda>(c, f''). (Inner ks' (cs'[j := c]), f''))
                              (insertNonFull f' (cs' ! j) key value)
                       else None))
            else map_option (\<lambda>(c, f'). (Inner ks (cs[i := c]), f'))
                   (insertNonFull f (cs ! i) key value))
         else None)"
  by pat_completeness auto
termination
  by (relation "measure (\<lambda>(f, n, key, value). height n)")
    (auto simp: less_Suc_eq_le intro: height_child splitChild_height)

definition btree_put :: "btree \<Rightarrow> bytes \<Rightarrow> bytes \<Rightarrow> btree option" where
  "btree_put t key value =
     (case root t of
        None \<Rightarrow> Some \<lparr>root = Some (Leaf (fresh t) [key] [value] None), fresh = Suc (fresh t)\<rparr>
      | Some r \<Rightarrow>
          (case (if length (node_keys r) = btreeOrder
                 then map_option (\<lambda>(ks, cs, f). (Inner ks cs, f)) (splitChild (fresh t) [] [r] 0)
                 else Some (r, fresh t)) of
             None \<Rightarrow> None
           | Some (r', f) \<Rightarrow>
               map_option (\<lambda>(n, f'). \<lparr>root = Some n, fresh = f'\<rparr>) (insertNonFull f r' key value)))"

fun put_all :: "entry list \<Rightarrow> btree \<Rightarrow> btree option" where
  "put_all [] t = Some t"
| "put_all ((k, v) # es) t = (case btree_put t k v of None \<Rightarrow> None | Some t' \<Rightarrow> put_all es t')"

definition btree_delete :: "btree \<Rightarrow> bytes \<Rightarrow> (btree \<times> bool) option" where
  "btree_delete t key =
     (case btree_get t key of
        None \<Rightarrow> None
      | Some None \<Rightarrow> Some (t, False)
      | Some (Some v) \<Rightarrow>
          (case btree_entries t of
             None \<Rightarrow> None
           | Some es \<Rightarrow>
               map_option (\<lambda>t'. (t', True))
                 (put_all (filter (\<lambda>(k, v). k \<noteq> key) es) (t\<lparr>root := None\<rparr>))))"

section \<open>Sorted entry lists\<close>

fun inorder :: "btreeNode \<Rightarrow> entry list" where
  "inorder (Leaf a ks vs nx) = zip ks vs"
| "inorder (Inner ks cs) = concat (map inorder cs)"

text \<open>The specification of \<open>put\<close> on the entries in key order.\<close>

definition put_sorted :: "bytes \<Rightarrow> bytes \<Rightarrow> entry list \<Rightarrow> entry list" where
  "put_sorted key v es = filter (\<lambda>e. fst e < key) es @ (key, v) # filter (\<lambda>e. key < fst e) es"

abbreviation sorted_keys :: "entry list \<Rightarrow> bool" where
  "sorted_keys es \<equiv> sorted_wrt (<) (map fst es)"

lemma put_sorted_left:
  "(\<forall>e \<in> set ys. key < fst e) \<Longrightarrow> put_sorted key v (xs @ ys) = put_sorted key v xs @ ys"
  by (auto simp: put_sorted_def filter_empty_conv filter_id_conv)

lemma put_sorted_right:
  "(\<forall>e \<in> set xs. fst e < key) \<Longrightarrow> put_sorted key v (xs @ ys) = xs @ put_sorted key v ys"
  by (auto simp: put_sorted_def filter_empty_conv filter_id_conv)

lemma map_of_filter_key: "map_of (filter (\<lambda>e. P (fst e)) es) k = (if P k then map_of es k else None)"
  by (induction es) auto

lemma map_of_put_sorted: "map_of (put_sorted key v es) = (map_of es)(key \<mapsto> v)"
  using map_of_filter_key [of "\<lambda>k. k < key" es] map_of_filter_key [of "\<lambda>k. key < k" es]
  by (auto simp: fun_eq_iff put_sorted_def map_add_def split: option.splits)

lemma sorted_put_sorted: "sorted_keys es \<Longrightarrow> sorted_keys (put_sorted key v es)"
  by (auto simp: put_sorted_def sorted_wrt_append sorted_wrt_map sorted_wrt_filter)

lemma set_put_sorted: "set (put_sorted key v es) = insert (key, v) {e \<in> set es. fst e \<noteq> key}"
  by (auto simp: put_sorted_def)

text \<open>
  Two key-sorted entry lists with the same map are equal: the map determines the entries.
\<close>

lemma sorted_keys_distinct: "sorted_keys es \<Longrightarrow> distinct (map fst es)"
  by (induction es) force+

lemma sorted_keys_unique:
  assumes "sorted_keys xs" "sorted_keys ys" "map_of xs = map_of ys"
  shows "xs = ys"
proof -
  have "set xs = set ys"
    using assms map_of_eq_Some_iff [OF sorted_keys_distinct] by (metis (no_types, lifting) set_eqI surj_pair)
  with assms show ?thesis
    by (intro map_sorted_distinct_set_unique [of fst])
      (simp_all add: strict_sorted_iff distinct_map)
qed

end
