(* ===== verification/BTree_Correct.thy ===== *)
theory BTree_Correct
  imports BTree
begin

text \<open>
  Correctness of the B+Tree of \<^verbatim>\<open>kv/btree.go\<close>: the order invariant (\<open>ok\<close>), the balance
  (\<open>bal\<close>) and the leaf chain (\<open>linked\<close>) are kept by \<open>splitChild\<close>, \<open>insertNonFull\<close>,
  \<open>put\<close> and \<open>delete\<close>; the operations never panic; and they implement a sorted map.
\<close>

section \<open>The order invariant\<close>

definition ge_lo :: "bytes option \<Rightarrow> bytes \<Rightarrow> bool" where
  "ge_lo lo k \<longleftrightarrow> (case lo of None \<Rightarrow> True | Some l \<Rightarrow> l \<le> k)"

definition lt_hi :: "bytes \<Rightarrow> bytes option \<Rightarrow> bool" where
  "lt_hi k hi \<longleftrightarrow> (case hi of None \<Rightarrow> True | Some h \<Rightarrow> k < h)"

definition gt_lo :: "bytes option \<Rightarrow> bytes \<Rightarrow> bool" where
  "gt_lo lo k \<longleftrightarrow> (case lo of None \<Rightarrow> True | Some l \<Rightarrow> l < k)"

lemma gt_lo_simps [simp]: "gt_lo None k" "gt_lo (Some l) k \<longleftrightarrow> l < k"
  by (simp_all add: gt_lo_def)

lemma ge_lo_simps [simp]: "ge_lo None k" "ge_lo (Some l) k \<longleftrightarrow> l \<le> k"
  by (simp_all add: ge_lo_def)

lemma lt_hi_simps [simp]: "lt_hi k None" "lt_hi k (Some h) \<longleftrightarrow> k < h"
  by (simp_all add: lt_hi_def)

lemma ge_lo_trans: "ge_lo lo k \<Longrightarrow> k \<le> k' \<Longrightarrow> ge_lo lo k'"
  by (cases lo) auto

lemma gt_lo_trans: "ge_lo lo k \<Longrightarrow> k < k' \<Longrightarrow> gt_lo lo k'"
  by (cases lo) auto

lemma gt_lo_less: "gt_lo lo k \<Longrightarrow> k < k' \<Longrightarrow> gt_lo lo k'"
  by (cases lo) auto

lemma gt_lo_ge [simp]: "gt_lo lo k \<Longrightarrow> ge_lo lo k"
  by (cases lo) auto

lemma lt_hi_trans: "lt_hi k hi \<Longrightarrow> k' \<le> k \<Longrightarrow> lt_hi k' hi"
  by (cases hi) auto

fun ok :: "bytes option \<Rightarrow> bytes option \<Rightarrow> btreeNode \<Rightarrow> bool"
  and ok_list :: "bytes option \<Rightarrow> bytes option \<Rightarrow> bytes list \<Rightarrow> btreeNode list \<Rightarrow> bool" where
  "ok lo hi (Leaf a ks vs nx) =
     (sorted_wrt (<) ks \<and> length vs = length ks \<and> length ks \<le> btreeOrder \<and>
      (\<forall>k \<in> set ks. ge_lo lo k \<and> lt_hi k hi))"
| "ok lo hi (Inner ks cs) = (length ks \<le> btreeOrder \<and> ok_list lo hi ks cs)"
| "ok_list lo hi [] [c] = ok lo hi c"
| "ok_list lo hi (k # ks) (c # cs) =
     (gt_lo lo k \<and> lt_hi k hi \<and> ok lo (Some k) c \<and> ok_list (Some k) hi ks cs)"
| "ok_list lo hi ks cs = False"

lemma ok_list_length: "ok_list lo hi ks cs \<Longrightarrow> length cs = Suc (length ks)"
  by (induction ks arbitrary: lo cs) (auto elim: ok_list.elims)

text \<open>The children before position \<open>i\<close>, each below its separator.\<close>

fun ok_prefix :: "bytes option \<Rightarrow> bytes option \<Rightarrow> bytes list \<Rightarrow> btreeNode list \<Rightarrow> bool" where
  "ok_prefix lo hi [] [] = True"
| "ok_prefix lo hi (k # ks) (c # cs) =
     (gt_lo lo k \<and> lt_hi k hi \<and> ok lo (Some k) c \<and> ok_prefix (Some k) hi ks cs)"
| "ok_prefix lo hi ks cs = False"

definition lower :: "bytes option \<Rightarrow> bytes list \<Rightarrow> bytes option" where
  "lower lo ks = (if ks = [] then lo else Some (last ks))"

definition upper :: "bytes list \<Rightarrow> bytes option \<Rightarrow> bytes option" where
  "upper ks hi = (case ks of [] \<Rightarrow> hi | k # _ \<Rightarrow> Some k)"

lemma lower_Cons [simp]: "lower lo (k # ks) = lower (Some k) ks"
  by (simp add: lower_def)

lemma ok_list_append:
  "length ks1 = length cs1 \<Longrightarrow>
     ok_list lo hi (ks1 @ ks2) (cs1 @ cs2) \<longleftrightarrow>
     ok_prefix lo hi ks1 cs1 \<and> ok_list (lower lo ks1) hi ks2 cs2"
  by (induction ks1 cs1 arbitrary: lo rule: list_induct2) (auto simp: lower_def)

lemma ok_list_Cons:
  "ok_list lo hi ks (c # cs) \<longleftrightarrow>
     ok lo (upper ks hi) c \<and>
     (case ks of [] \<Rightarrow> cs = []
      | k # ks' \<Rightarrow> gt_lo lo k \<and> lt_hi k hi \<and> ok_list (Some k) hi ks' cs)"
  by (cases ks; cases cs) (auto simp: upper_def)

lemma ok_prefix_append:
  "length ks1 = length cs1 \<Longrightarrow>
     ok_prefix lo hi (ks1 @ ks2) (cs1 @ cs2) \<longleftrightarrow>
     ok_prefix lo hi ks1 cs1 \<and> ok_prefix (lower lo ks1) hi ks2 cs2"
  by (induction ks1 cs1 arbitrary: lo rule: list_induct2) (auto simp: lower_def)

lemma ok_prefix_length: "ok_prefix lo hi ks cs \<Longrightarrow> length ks = length cs"
  by (induction lo hi ks cs rule: ok_prefix.induct) auto

section \<open>Bounds and order of the entries\<close>

lemma inorder_bounds:
  "ok lo hi n \<Longrightarrow> e \<in> set (inorder n) \<Longrightarrow> ge_lo lo (fst e) \<and> lt_hi (fst e) hi"
  "ok_list lo hi ks cs \<Longrightarrow> e \<in> set (concat (map inorder cs)) \<Longrightarrow> ge_lo lo (fst e) \<and> lt_hi (fst e) hi"
proof (induction lo hi n and lo hi ks cs rule: ok_ok_list.induct)
  case (1 lo hi a ks vs nx)
  then show ?case by (cases e) (auto dest!: set_zip_leftD)
next
  case (4 lo hi k ks c cs)
  show ?case
  proof (cases "e \<in> set (inorder c)")
    case True
    with 4 have "ge_lo lo (fst e)" "fst e < k" "lt_hi k hi" by auto
    then show ?thesis by (auto intro: lt_hi_trans)
  next
    case False
    with 4 have "ge_lo lo k" "k \<le> fst e" "lt_hi (fst e) hi" by auto
    then show ?thesis by (auto intro: ge_lo_trans)
  qed
qed auto

lemma inorder_sorted:
  "ok lo hi n \<Longrightarrow> sorted_keys (inorder n)"
  "ok_list lo hi ks cs \<Longrightarrow> sorted_keys (concat (map inorder cs))"
proof (induction lo hi n and lo hi ks cs rule: ok_ok_list.induct)
  case (4 lo hi k ks c cs)
  have "fst e < fst e'" if "e \<in> set (inorder c)" "e' \<in> set (concat (map inorder cs))" for e e'
    using inorder_bounds(1) [of lo "Some k" c e] inorder_bounds(2) [of "Some k" hi ks cs e'] 4 that by force
  then have "\<forall>x \<in> set (map fst (inorder c)). \<forall>y \<in> set (map fst (concat (map inorder cs))). x < y"
    by fastforce
  with 4 show ?case by (simp add: sorted_wrt_append del: set_map set_concat)
qed auto

lemma ok_prefix_last: "ok_prefix lo hi ks cs \<Longrightarrow> ks \<noteq> [] \<Longrightarrow> gt_lo lo (last ks)"
  by (induction lo hi ks cs rule: ok_prefix.induct) (auto intro: gt_lo_less split: if_splits)

lemma prefix_bounds:
  "ok_prefix lo hi ks cs \<Longrightarrow> e \<in> set (concat (map inorder cs)) \<Longrightarrow> ks \<noteq> [] \<and> fst e < last ks"
proof (induction lo hi ks cs rule: ok_prefix.induct)
  case (2 lo hi k ks c cs)
  have "ks = [] \<or> k \<le> last ks"
    using 2(2) ok_prefix_last [of "Some k" hi ks cs] by (cases "ks = []") auto
  moreover have "fst e < k" if "e \<in> set (inorder c)"
    using 2(2) inorder_bounds(1) [of lo "Some k" c e] that by simp
  ultimately show ?case using 2 by auto
qed auto

section \<open>Searching a node\<close>

text \<open>The linear search for the child of a key.\<close>

lemma childIndex_le: "childIndex ks key \<le> length ks"
  by (induction ks) auto

lemma childIndex_split:
  "lower lo (take (childIndex ks key) ks) = lo \<or> ge_lo (lower lo (take (childIndex ks key) ks)) key"
  "lt_hi key (upper (drop (childIndex ks key) ks) None)"
proof -
  show "lower lo (take (childIndex ks key) ks) = lo \<or> ge_lo (lower lo (take (childIndex ks key) ks)) key"
    by (induction ks arbitrary: lo) (auto simp: lower_def split: if_splits)
  show "lt_hi key (upper (drop (childIndex ks key) ks) None)"
    by (induction ks) (auto simp: upper_def)
qed

lemma childIndex_bounds:
  assumes "ge_lo lo key" and "lt_hi key hi"
  shows "ge_lo (lower lo (take (childIndex ks key) ks)) key"
    and "lt_hi key (upper (drop (childIndex ks key) ks) hi)"
  using assms childIndex_split(1) [of lo ks key] childIndex_split(2) [of key ks]
  by (auto simp: upper_def split: list.splits)

text \<open>The binary search finds the number of keys below the one sought.\<close>

lemma keyIndex_loop_correct:
  assumes "sorted_wrt (<) ks" and "lo \<le> hi" and "hi \<le> length ks"
    and "\<forall>j < lo. ks ! j < key" and "\<forall>j. hi \<le> j \<and> j < length ks \<longrightarrow> key \<le> ks ! j"
  shows "let i = keyIndex_loop ks key lo hi
    in i \<le> length ks \<and> (\<forall>j < i. ks ! j < key) \<and> (\<forall>j. i \<le> j \<and> j < length ks \<longrightarrow> key \<le> ks ! j)"
  using assms
proof (induction ks key lo hi rule: keyIndex_loop.induct)
  case (1 ks key lo hi)
  show ?case
  proof (cases "lo < hi")
    case False
    with "1.prems" show ?thesis by (subst keyIndex_loop.simps) simp
  next
    case True
    define m where "m = (lo + hi) div 2"
    have m: "lo \<le> m" "m < hi" using True by (auto simp: m_def)
    have mono: "ks ! i < ks ! j" if "i < j" "j < length ks" for i j
      using "1.prems"(1) that by (simp add: sorted_wrt_iff_nth_less)
    show ?thesis
    proof (cases "ks ! m < key")
      case less: True
      have "ks ! j < key" if "j < m + 1" for j
        using that less mono [of j m] m "1.prems"(3) by (cases "j = m") auto
      with "1.IH"(1) [OF True m_def] less m "1.prems" show ?thesis
        by (simp add: keyIndex_loop.simps [of ks key lo hi] True m_def [symmetric])
    next
      case False
      have "key \<le> ks ! j" if "m \<le> j" "j < length ks" for j
        using that False mono [of m j] by (cases "j = m") auto
      with "1.IH"(2) [OF True m_def] False m "1.prems" show ?thesis
        by (simp add: keyIndex_loop.simps [of ks key lo hi] True m_def [symmetric])
    qed
  qed
qed

lemma keyIndex_correct:
  assumes "sorted_wrt (<) ks"
  shows "keyIndex ks key \<le> length ks"
    and "k \<in> set (take (keyIndex ks key) ks) \<Longrightarrow> k < key"
    and "k \<in> set (drop (keyIndex ks key) ks) \<Longrightarrow> key \<le> k"
proof -
  have *: "keyIndex ks key \<le> length ks \<and> (\<forall>j < keyIndex ks key. ks ! j < key) \<and>
      (\<forall>j. keyIndex ks key \<le> j \<and> j < length ks \<longrightarrow> key \<le> ks ! j)"
    unfolding keyIndex_def
    by (rule keyIndex_loop_correct [OF assms, of 0 "length ks" key, unfolded Let_def]) auto
  then show "keyIndex ks key \<le> length ks" by simp
  show "k \<in> set (take (keyIndex ks key) ks) \<Longrightarrow> k < key"
    using * by (auto simp: in_set_conv_nth)
  show "k \<in> set (drop (keyIndex ks key) ks) \<Longrightarrow> key \<le> k"
    using * by (auto simp: in_set_conv_nth)
qed

section \<open>Lookup\<close>

lemma zip_split_at:
  "i \<le> length xs \<Longrightarrow> length ys = length xs \<Longrightarrow> zip xs ys = zip (take i xs) (take i ys) @ zip (drop i xs) (drop i ys)"
  by (metis append_take_drop_id length_take zip_append)

lemma map_of_zip_None: "key \<notin> set ks \<Longrightarrow> map_of (zip ks vs) key = None"
  by (auto simp: map_of_eq_None_iff dest: set_zip_leftD)

lemma leaf_get:
  assumes "sorted_wrt (<) ks" and "length vs = length ks"
  shows "node_get (Leaf a ks vs nx) key = Some (map_of (zip ks vs) key)"
proof -
  let ?i = "keyIndex ks key"
  note ki = keyIndex_correct [OF assms(1), where key = key]
  have left: "map_of (zip (take ?i ks) (take ?i vs)) key = None"
    using ki(2) [of key] by (intro map_of_zip_None) auto
  have split: "map_of (zip ks vs) key = map_of (zip (drop ?i ks) (drop ?i vs)) key"
    using zip_split_at [OF ki(1) assms(2)] left by (simp add: map_add_def)
  show ?thesis
  proof (cases "?i < length ks")
    case True
    then have d: "drop ?i ks = ks ! ?i # drop (Suc ?i) ks" "drop ?i vs = vs ! ?i # drop (Suc ?i) vs"
      using assms(2) by (simp_all add: Cons_nth_drop_Suc)
    have "key \<notin> set (drop (Suc ?i) ks)" if "ks ! ?i \<noteq> key"
    proof
      assume "key \<in> set (drop (Suc ?i) ks)"
      moreover have "sorted_wrt (<) (drop ?i ks)" using assms(1) by (rule sorted_wrt_drop)
      ultimately have "ks ! ?i < key" by (simp add: d)
      with ki(3) [of "ks ! ?i"] show False by (simp add: d)
    qed
    with True assms(2) split d show ?thesis by (auto simp: Let_def map_of_zip_None)
  next
    case False
    with ki(1) split show ?thesis by (simp add: Let_def)
  qed
qed

lemma map_of_outside:
  fixes xs ys :: "entry list"
  shows "(\<forall>e \<in> set xs. fst e < key) \<Longrightarrow> map_of (xs @ ys) key = map_of ys key"
  "(\<forall>e \<in> set ys. key < fst e) \<Longrightarrow> map_of (xs @ ys) key = map_of xs key"
proof -
  have *: "map_of zs key = None" if "\<forall>e \<in> set zs. fst e \<noteq> key" for zs :: "entry list"
    using that by (auto simp: map_of_eq_None_iff)
  have "map_of xs key = None" if "\<forall>e \<in> set xs. fst e < key"
    using that by (intro *) auto
  then show "map_of (xs @ ys) key = map_of ys key" if "\<forall>e \<in> set xs. fst e < key"
    using that by (simp add: map_add_def)
  have "map_of ys key = None" if "\<forall>e \<in> set ys. key < fst e"
    using that by (intro *) auto
  then show "map_of (xs @ ys) key = map_of xs key" if "\<forall>e \<in> set ys. key < fst e"
    using that by (simp add: map_add_def split: option.split)
qed

text \<open>
  The child chosen for a key splits the node's entries into those below the key's range, the
  child's own, and those above.
\<close>

lemma child_context:
  assumes ok: "ok_list lo hi ks cs" and key: "ge_lo lo key" "lt_hi key hi"
  defines "i \<equiv> childIndex ks key"
  obtains cs1 cs2 where "cs = cs1 @ cs ! i # cs2" "length cs1 = i" "i < length cs" "i \<le> length ks"
    "ok_prefix lo hi (take i ks) cs1" "ok_list (lower lo (take i ks)) hi (drop i ks) (cs ! i # cs2)"
    "ok (lower lo (take i ks)) (upper (drop i ks) hi) (cs ! i)"
    "ge_lo (lower lo (take i ks)) key" "lt_hi key (upper (drop i ks) hi)"
    "\<forall>e \<in> set (concat (map inorder cs1)). fst e < key"
    "\<forall>e \<in> set (concat (map inorder cs2)). key < fst e"
proof -
  have i: "i \<le> length ks" "i < length cs"
    using childIndex_le ok_list_length [OF ok] by (auto simp: i_def less_Suc_eq_le)
  define cs1 cs2 where "cs1 = take i cs" and "cs2 = drop (Suc i) cs"
  have cs: "cs = cs1 @ cs ! i # cs2" and l1: "length cs1 = i"
    using i(2) by (simp_all add: cs1_def cs2_def id_take_nth_drop)
  have "ok_list lo hi (take i ks @ drop i ks) (cs1 @ cs ! i # cs2)"
    using ok cs by simp
  moreover have "length (take i ks) = length cs1" using i(1) l1 by simp
  ultimately have pre: "ok_prefix lo hi (take i ks) cs1"
    and suf: "ok_list (lower lo (take i ks)) hi (drop i ks) (cs ! i # cs2)"
    by (simp_all only: ok_list_append)
  note b = childIndex_bounds [OF key, of ks, folded i_def]
  have "\<forall>e \<in> set (concat (map inorder cs1)). fst e < key"
    using prefix_bounds [OF pre] b(1) by (auto simp: lower_def) force
  moreover have "\<forall>e \<in> set (concat (map inorder cs2)). key < fst e"
  proof (cases "drop i ks")
    case Nil
    with suf show ?thesis by (simp add: ok_list_Cons)
  next
    case (Cons k ks')
    with suf b(2) show ?thesis
      using inorder_bounds(2) [of "Some k" hi ks' cs2] by (fastforce simp: upper_def)
  qed
  ultimately show ?thesis
    using that cs l1 i pre suf b ok_list_Cons [THEN iffD1, OF suf] by blast
qed

lemma node_get_correct:
  "ok lo hi n \<Longrightarrow> ge_lo lo key \<Longrightarrow> lt_hi key hi \<Longrightarrow> node_get n key = Some (map_of (inorder n) key)"
proof (induction n key arbitrary: lo hi rule: node_get.induct)
  case (1 a ks vs nx key)
  then show ?case using leaf_get by simp
next
  case (2 ks cs key)
  let ?i = "childIndex ks key"
  from "2.prems" have "ok_list lo hi ks cs" by simp
  from child_context [OF this "2.prems"(2,3)] obtain cs1 cs2 where
    cs: "cs = cs1 @ cs ! ?i # cs2" "?i < length cs"
    and c: "ok (lower lo (take ?i ks)) (upper (drop ?i ks) hi) (cs ! ?i)"
      "ge_lo (lower lo (take ?i ks)) key" "lt_hi key (upper (drop ?i ks) hi)"
    and out: "\<forall>e \<in> set (concat (map inorder cs1)). fst e < key"
      "\<forall>e \<in> set (concat (map inorder cs2)). key < fst e"
    by metis
  have "map_of (inorder (Inner ks cs)) key
      = map_of (concat (map inorder cs1) @ inorder (cs ! ?i) @ concat (map inorder cs2)) key"
    by (subst cs(1)) simp
  also have "\<dots> = map_of (inorder (cs ! ?i)) key"
    by (simp only: map_of_outside(1) [OF out(1)] map_of_outside(2) [OF out(2)])
  finally show ?case
    using "2.IH" [OF refl cs(2) c] cs(2) by (simp add: Let_def)
qed

section \<open>Balance and the leaf chain\<close>

fun bal :: "nat \<Rightarrow> btreeNode \<Rightarrow> bool" where
  "bal 0 (Leaf a ks vs nx) = True"
| "bal (Suc h) (Inner ks cs) = (\<forall>c \<in> set cs. bal h c)"
| "bal h n = False"

type_synonym link = "nat \<times> nat option"

definition links :: "btreeNode \<Rightarrow> link list" where
  "links n = map (\<lambda>(a, ks, vs, nx). (a, nx)) (leaves n)"

lemma links_simps [simp]:
  "links (Leaf a ks vs nx) = [(a, nx)]" "links (Inner ks cs) = concat (map links cs)"
  by (simp_all add: links_def [abs_def] map_concat o_def)

fun first_link :: "link list \<Rightarrow> nat option \<Rightarrow> nat option" where
  "first_link [] e = e"
| "first_link ((a, nx) # ls) e = Some a"

text \<open>Every leaf points to the one after it, the last one to \<open>e\<close>.\<close>

fun linked :: "link list \<Rightarrow> nat option \<Rightarrow> bool" where
  "linked [] e = True"
| "linked ((a, nx) # ls) e = (nx = first_link ls e \<and> linked ls e)"

lemma first_link_append [simp]: "first_link (xs @ ys) e = first_link xs (first_link ys e)"
  by (cases xs) auto

lemma linked_append [simp]: "linked (xs @ ys) e \<longleftrightarrow> linked xs (first_link ys e) \<and> linked ys e"
  by (induction xs) auto

text \<open>
  A rewriting of part of the chain that allocates the addresses from \<open>f\<close> to \<open>f'\<close>, and
  that the rest of the chain does not notice.
\<close>

definition chain_step :: "nat \<Rightarrow> nat \<Rightarrow> link list \<Rightarrow> link list \<Rightarrow> bool" where
  "chain_step f f' xs ys \<longleftrightarrow>
     f \<le> f' \<and> (\<forall>e. linked xs e \<longrightarrow> linked ys e) \<and> (\<forall>e. first_link ys e = first_link xs e) \<and>
     fst ` set ys \<subseteq> fst ` set xs \<union> {f..<f'} \<and>
     (distinct (map fst xs) \<and> fst ` set xs \<subseteq> {..<f} \<longrightarrow> distinct (map fst ys))"

lemma chain_step_refl [simp]: "chain_step f f xs xs"
  by (simp add: chain_step_def)

lemma chain_stepD:
  assumes "chain_step f f' xs ys"
  shows "f \<le> f'" "linked xs e \<Longrightarrow> linked ys e" "first_link ys e = first_link xs e"
    "fst ` set ys \<subseteq> fst ` set xs \<union> {f..<f'}"
    "distinct (map fst xs) \<Longrightarrow> fst ` set xs \<subseteq> {..<f} \<Longrightarrow> distinct (map fst ys)"
  using assms by (simp_all add: chain_step_def)

lemma chain_sets:
  "Y \<subseteq> X \<union> B \<Longrightarrow> X \<subseteq> C \<Longrightarrow> C \<subseteq> D \<Longrightarrow> B \<subseteq> D \<Longrightarrow> Y \<subseteq> D"
  "Z \<subseteq> Y \<union> B' \<Longrightarrow> Y \<subseteq> X \<union> B \<Longrightarrow> B \<subseteq> D \<Longrightarrow> B' \<subseteq> D \<Longrightarrow> Z \<subseteq> X \<union> D"
  "Y \<subseteq> X \<union> B \<Longrightarrow> P \<union> Y \<union> S \<subseteq> P \<union> X \<union> S \<union> B"
  "Y \<subseteq> X \<union> B \<Longrightarrow> P \<inter> X = {} \<Longrightarrow> P \<subseteq> C \<Longrightarrow> C \<inter> B = {} \<Longrightarrow> P \<inter> Y = {}"
  by blast+

lemma chain_step_fresh:
  "chain_step f f' xs ys \<Longrightarrow> fst ` set xs \<subseteq> {..<f} \<Longrightarrow> fst ` set ys \<subseteq> {..<f'}"
  by (rule chain_sets(1) [OF chain_stepD(4)], assumption+) (auto dest: chain_stepD(1))

lemma chain_step_trans:
  assumes 1: "chain_step f f' xs ys" and 2: "chain_step f' f'' ys zs"
  shows "chain_step f f'' xs zs"
  unfolding chain_step_def
proof (intro conjI allI impI)
  show "f \<le> f''" using chain_stepD(1) [OF 1] chain_stepD(1) [OF 2] by simp
  show "fst ` set zs \<subseteq> fst ` set xs \<union> {f..<f''}"
    using chain_stepD(1) [OF 1] chain_stepD(1) [OF 2]
    by (intro chain_sets(2) [OF chain_stepD(4) [OF 2] chain_stepD(4) [OF 1]]) auto
  show "distinct (map fst zs)" if "distinct (map fst xs) \<and> fst ` set xs \<subseteq> {..<f}"
    using that chain_stepD(5) [OF 2 chain_stepD(5) [OF 1]] chain_step_fresh [OF 1] by simp
qed (use chain_stepD(2,3) [OF 1] chain_stepD(2,3) [OF 2] in simp_all)

lemma chain_step_context:
  assumes 1: "chain_step f f' xs ys"
  shows "chain_step f f' (p @ xs @ s) (p @ ys @ s)"
  unfolding chain_step_def
proof (intro conjI allI impI)
  show "fst ` set (p @ ys @ s) \<subseteq> fst ` set (p @ xs @ s) \<union> {f..<f'}"
    using chain_sets(3) [OF chain_stepD(4) [OF 1], of "fst ` set p" "fst ` set s"]
    by (simp add: image_Un Un_assoc)
  show "distinct (map fst (p @ ys @ s))"
    if "distinct (map fst (p @ xs @ s)) \<and> fst ` set (p @ xs @ s) \<subseteq> {..<f}"
  proof -
    have "(fst ` set p \<union> fst ` set s) \<inter> fst ` set ys = {}"
      by (rule chain_sets(4) [OF chain_stepD(4) [OF 1], of _ "{..<f}"])
        (use that in \<open>auto simp: image_Un Int_Un_distrib Int_Un_distrib2 Int_commute simp del: image_iff\<close>)
    with that chain_stepD(5) [OF 1] show ?thesis
      by (simp add: image_Un Int_Un_distrib Int_Un_distrib2 Int_commute)
  qed
qed (use chain_stepD(1,2,3) [OF 1] in simp_all)

section \<open>Splitting a full child\<close>

lemma ok_list_split:
  assumes "length cs1 = Suc (length ks1)"
  shows "ok_list lo hi (ks1 @ k # ks2) (cs1 @ cs2) \<longleftrightarrow>
    ok_list lo (Some k) ks1 cs1 \<and> ok_list (Some k) hi ks2 cs2 \<and> gt_lo lo k \<and> lt_hi k hi"
  using assms
proof (induction ks1 arbitrary: lo cs1)
  case Nil
  then show ?case by (cases cs1) auto
next
  case (Cons j ks1)
  then obtain c cs where c: "cs1 = c # cs" "length cs = Suc (length ks1)" by (cases cs1) auto
  from Cons.IH [OF c(2), of "Some j"] c(1) show ?case
    by (auto intro: lt_hi_trans gt_lo_less)
qed

lemma concat_map_split: "concat (map g (take n xs)) @ concat (map g (drop n xs)) = concat (map g xs)"
  by (metis append_take_drop_id concat_append map_append)

lemma nth_split: "i < length xs \<Longrightarrow> j = Suc i \<Longrightarrow> xs = take i xs @ xs ! i # drop j xs"
  by (simp only: id_take_nth_drop [symmetric])

text \<open>What a split of a node \<open>c\<close> into \<open>l\<close> and \<open>r\<close> around \<open>sep\<close> achieves.\<close>

definition split_ok ::
  "bytes option \<Rightarrow> bytes option \<Rightarrow> nat \<Rightarrow> btreeNode \<Rightarrow> bytes \<Rightarrow> btreeNode \<Rightarrow> btreeNode \<Rightarrow> nat \<Rightarrow> bool" where
  "split_ok lo hi f c sep l r f' \<longleftrightarrow>
     ok lo (Some sep) l \<and> ok (Some sep) hi r \<and> gt_lo lo sep \<and> lt_hi sep hi \<and>
     inorder c = inorder l @ inorder r \<and> (\<forall>h. bal h c \<longrightarrow> bal h l \<and> bal h r) \<and>
     length (node_keys l) < btreeOrder \<and> length (node_keys r) < btreeOrder \<and>
     chain_step f f' (links c) (links l @ links r)"

lemma split_leaf_ok:
  assumes ok: "ok lo hi (Leaf a ks vs nx)" and full: "length ks = btreeOrder"
  shows "split_ok lo hi f (Leaf a ks vs nx) (ks ! 16) (Leaf a (take 16 ks) (take 16 vs) (Some f))
    (Leaf f (drop 16 ks) (drop 16 vs) nx) (Suc f)"
proof -
  have len: "length ks = 32" "length vs = 32" and srt: "sorted_wrt (<) ks"
    and bnd: "\<forall>k \<in> set ks. ge_lo lo k \<and> lt_hi k hi"
    using ok full by (auto simp: btreeOrder_def)
  have less: "ks ! i < ks ! j" if "i < j" "j < 32" for i j
    using srt len that by (simp add: sorted_wrt_iff_nth_less)
  have mem: "ks ! i \<in> set ks" if "i < 32" for i using len that by simp
  have sep: "gt_lo lo (ks ! 16)" "lt_hi (ks ! 16) hi"
    using bnd mem less [of 0 16] gt_lo_trans [of lo "ks ! 0" "ks ! 16"] by auto
  have "k < ks ! 16" if "k \<in> set (take 16 ks)" for k
    using that len less by (auto simp: in_set_conv_nth)
  then have l: "ok lo (Some (ks ! 16)) (Leaf a (take 16 ks) (take 16 vs) (Some f))"
    using len srt bnd by (auto simp: btreeOrder_def sorted_wrt_take dest: in_set_takeD)
  have "ks ! 16 \<le> k" if "k \<in> set (drop 16 ks)" for k
  proof -
    from that len obtain i where "i < 16" "k = ks ! (16 + i)" by (auto simp: in_set_conv_nth)
    with less [of 16 "16 + i"] show ?thesis by (cases "i = 0") auto
  qed
  then have r: "ok (Some (ks ! 16)) hi (Leaf f (drop 16 ks) (drop 16 vs) nx)"
    using len srt bnd by (auto simp: btreeOrder_def sorted_wrt_drop dest: in_set_dropD)
  have "zip ks vs = zip (take 16 ks) (take 16 vs) @ zip (drop 16 ks) (drop 16 vs)"
    using len by (intro zip_split_at) auto
  moreover have "chain_step f (Suc f) [(a, nx)] ([(a, Some f)] @ [(f, nx)])"
    by (auto simp: chain_step_def)
  moreover have "bal h (Leaf a ks vs nx) \<longrightarrow> bal h (Leaf b xs ys z)" for h b xs ys z
    by (cases h) auto
  ultimately show ?thesis
    using len sep l r by (simp add: split_ok_def btreeOrder_def del: ok.simps)
qed

lemma split_inner_ok:
  assumes ok: "ok lo hi (Inner ks cs)" and full: "length ks = btreeOrder"
  shows "split_ok lo hi f (Inner ks cs) (ks ! 15) (Inner (take 15 ks) (take 16 cs))
    (Inner (drop 16 ks) (drop 16 cs)) f"
proof -
  have len: "length ks = 32" "length cs = 33" and okl: "ok_list lo hi ks cs"
    using ok full ok_list_length [of lo hi ks cs] by (auto simp: btreeOrder_def)
  have "take 15 ks @ ks ! 15 # drop 16 ks = ks"
    using len by (intro nth_split [symmetric]) simp_all
  with okl have "ok_list lo hi (take 15 ks @ ks ! 15 # drop 16 ks) (take 16 cs @ drop 16 cs)"
    by (simp only: append_take_drop_id)
  moreover have "length (take 16 cs) = Suc (length (take 15 ks))" using len by simp
  ultimately have parts: "ok_list lo (Some (ks ! 15)) (take 15 ks) (take 16 cs)"
    "ok_list (Some (ks ! 15)) hi (drop 16 ks) (drop 16 cs)" "gt_lo lo (ks ! 15)" "lt_hi (ks ! 15) hi"
    by (simp_all only: ok_list_split)
  have "bal h (Inner ks cs) \<longrightarrow> bal h (Inner xs (take n cs)) \<and> bal h (Inner ys (drop m cs))" for h xs ys n m
    by (cases h) (auto dest: in_set_takeD in_set_dropD)
  then have "\<forall>h. bal h (Inner ks cs) \<longrightarrow>
      bal h (Inner (take 15 ks) (take 16 cs)) \<and> bal h (Inner (drop 16 ks) (drop 16 cs))"
    by blast
  moreover have "ok lo (Some (ks ! 15)) (Inner (take 15 ks) (take 16 cs))"
    "ok (Some (ks ! 15)) hi (Inner (drop 16 ks) (drop 16 cs))"
    using parts len by (simp_all add: btreeOrder_def)
  ultimately show ?thesis
    using parts(3,4) len unfolding split_ok_def
    by (simp add: btreeOrder_def concat_map_split del: ok.simps bal.simps)
qed

lemma splitChild_ok:
  assumes ok: "ok lo hi c" and full: "length (node_keys c) = btreeOrder" and i: "length cs1 \<le> length ks"
  obtains sep l r f' where
    "splitChild f ks (cs1 @ c # cs2) (length cs1) = Some (insert_at (length cs1) sep ks, cs1 @ l # r # cs2, f')"
    "split_ok lo hi f c sep l r f'"
proof (cases c)
  case (Leaf a oks ovs nx)
  then have len: "length oks = 32" "length ovs = 32" using ok full by (auto simp: btreeOrder_def)
  show ?thesis
  proof (rule that)
    show "splitChild f ks (cs1 @ c # cs2) (length cs1) = Some (insert_at (length cs1) (oks ! 16) ks,
        cs1 @ Leaf a (take 16 oks) (take 16 ovs) (Some f) # Leaf f (drop 16 oks) (drop 16 ovs) nx # cs2, Suc f)"
      using Leaf len i by (simp add: splitChild_def insert_at_def Let_def)
  qed (use ok full in \<open>simp add: Leaf split_leaf_ok del: ok.simps\<close>)
next
  case (Inner oks ocs)
  then have len: "length oks = 32" "length ocs = 33"
    using ok full ok_list_length [of lo hi oks ocs] by (auto simp: btreeOrder_def)
  show ?thesis
  proof (rule that)
    show "splitChild f ks (cs1 @ c # cs2) (length cs1) = Some (insert_at (length cs1) (oks ! 15) ks,
        cs1 @ Inner (take 15 oks) (take 16 ocs) # Inner (drop 16 oks) (drop 16 ocs) # cs2, f)"
      using Inner len i by (simp add: splitChild_def insert_at_def Let_def)
  qed (use ok full in \<open>simp add: Inner split_inner_ok del: ok.simps\<close>)
qed

section \<open>Insertion\<close>

text \<open>What inserting an entry into a node achieves.\<close>

definition insert_ok ::
  "bytes option \<Rightarrow> bytes option \<Rightarrow> nat \<Rightarrow> btreeNode \<Rightarrow> bytes \<Rightarrow> bytes \<Rightarrow> btreeNode \<Rightarrow> nat \<Rightarrow> bool" where
  "insert_ok lo hi f n key v n' f' \<longleftrightarrow>
     ok lo hi n' \<and> inorder n' = put_sorted key v (inorder n) \<and> (\<forall>h. bal h n \<longrightarrow> bal h n') \<and>
     chain_step f f' (links n) (links n')"

lemma ok_keys_le: "ok lo hi n \<Longrightarrow> length (node_keys n) \<le> btreeOrder"
  by (cases n) auto

lemma put_sorted_zip:
  fixes key v :: bytes
  assumes srt: "sorted_wrt (<) ks" and len: "length vs = length ks"
  defines "i \<equiv> keyIndex ks key"
  shows "i < length ks \<and> ks ! i = key \<Longrightarrow> put_sorted key v (zip ks vs) = zip ks (vs[i := v])"
    and "\<not> (i < length ks \<and> ks ! i = key) \<Longrightarrow>
      put_sorted key v (zip ks vs) = zip (insert_at i key ks) (insert_at i v vs)"
    and "\<not> (i < length ks \<and> ks ! i = key) \<Longrightarrow> sorted_wrt (<) (insert_at i key ks)"
proof -
  note ki = keyIndex_correct [OF srt, where key = key, folded i_def]
  have split: "zip ks vs = zip (take i ks) (take i vs) @ zip (drop i ks) (drop i vs)"
    using ki(1) len by (intro zip_split_at) auto
  have left: "\<forall>e \<in> set (zip (take i ks) (take i vs)). fst e < key"
    using ki(2) by (auto dest: set_zip_leftD)
  have here: "put_sorted key v (zip ks vs) = zip (take i ks) (take i vs) @ put_sorted key v (zip (drop i ks) (drop i vs))"
    unfolding split using left by (rule put_sorted_right)
  {
    assume k: "i < length ks \<and> ks ! i = key"
    have dk: "drop i ks = key # drop (Suc i) ks" and dv: "drop i vs = vs ! i # drop (Suc i) vs"
      using k len by (auto simp: Cons_nth_drop_Suc)
    have "sorted_wrt (<) (drop i ks)" using srt by (rule sorted_wrt_drop)
    then have "\<forall>e \<in> set (zip (drop (Suc i) ks) (drop (Suc i) vs)). key < fst e"
      unfolding dk by (auto dest: set_zip_leftD)
    then have "put_sorted key v (zip (drop i ks) (drop i vs)) = (key, v) # zip (drop (Suc i) ks) (drop (Suc i) vs)"
      unfolding dk dv using put_sorted_left [of _ key v "[(key, vs ! i)]"] by (simp add: put_sorted_def)
    moreover have "zip ks (vs[i := v]) = zip (take i ks) (take i vs) @ (key, v) # zip (drop (Suc i) ks) (drop (Suc i) vs)"
      using zip_split_at [of i ks "vs[i := v]"] k len
      by (simp add: dk) (simp add: drop_update_cancel upd_conv_take_nth_drop)
    ultimately show "put_sorted key v (zip ks vs) = zip ks (vs[i := v])" by (simp add: here)
  }
  assume k: "\<not> (i < length ks \<and> ks ! i = key)"
  have gt: "key < k" if "k \<in> set (drop i ks)" for k
  proof -
    from that have i: "i < length ks" by (cases "i < length ks") auto
    then have dk: "drop i ks = ks ! i # drop (Suc i) ks" by (simp add: Cons_nth_drop_Suc)
    have "key < ks ! i" using k i ki(3) [of "ks ! i"] by (simp add: dk)
    moreover have "ks ! i \<le> k" using sorted_wrt_drop [OF srt, of i] that unfolding dk by auto
    ultimately show ?thesis by simp
  qed
  show "put_sorted key v (zip ks vs) = zip (insert_at i key ks) (insert_at i v vs)"
  proof -
    have "\<forall>e \<in> set (zip (drop i ks) (drop i vs)). key < fst e"
      using gt by (auto dest: set_zip_leftD)
    from put_sorted_left [OF this, of v "[]"] show ?thesis
      using ki(1) len here by (simp add: insert_at_def put_sorted_def)
  qed
  show "sorted_wrt (<) (insert_at i key ks)"
    using srt ki(2) gt by (auto simp: insert_at_def sorted_wrt_append sorted_wrt_take sorted_wrt_drop intro: less_trans)
qed

lemma insert_leaf_ok:
  assumes ok: "ok lo hi (Leaf a ks vs nx)" and room: "length ks < btreeOrder"
    and key: "ge_lo lo key" "lt_hi key hi"
  shows "\<exists>n' f'. insertNonFull f (Leaf a ks vs nx) key v = Some (n', f') \<and>
    insert_ok lo hi f (Leaf a ks vs nx) key v n' f'"
proof -
  let ?i = "keyIndex ks key"
  from ok have srt: "sorted_wrt (<) ks" and len: "length vs = length ks" by auto
  note ps = put_sorted_zip [OF srt len, of key] and ki = keyIndex_correct(1) [OF srt, of key]
  have bal: "bal h (Leaf a ks vs nx) \<longrightarrow> bal h (Leaf a xs ys nx)" for h xs ys by (cases h) auto
  show ?thesis
  proof (cases "?i < length ks \<and> ks ! ?i = key")
    case True
    with ok len ps(1) [OF True, of v] bal show ?thesis by (simp add: insert_ok_def Let_def)
  next
    case False
    have "set (insert_at ?i key ks) = insert key (set ks)"
      unfolding insert_at_def using append_take_drop_id [of ?i ks]
      by (metis Un_insert_right list.simps(15) set_append)
    moreover have "length (insert_at ?i x (xs :: bytes list)) = Suc (length xs)" if "?i \<le> length xs" for x xs
      using that by (simp add: insert_at_def)
    ultimately show ?thesis
      using ok len room key ki ps(2,3) [OF False] False bal by (auto simp: insert_ok_def Let_def)
  qed
qed

text \<open>Inserting into a child of an inner node inserts into the node.\<close>

lemma insert_child_ok:
  assumes pre: "length ks1 = length cs1" and ok: "ok lo hi (Inner (ks1 @ ks2) (cs1 @ c # cs2))"
    and c': "insert_ok (lower lo ks1) (upper ks2 hi) f c key v c' f'"
    and left: "\<forall>e \<in> set (concat (map inorder cs1)). fst e < key"
    and right: "\<forall>e \<in> set (concat (map inorder cs2)). key < fst e"
  shows "insert_ok lo hi f (Inner (ks1 @ ks2) (cs1 @ c # cs2)) key v (Inner (ks1 @ ks2) (cs1 @ c' # cs2)) f'"
proof -
  from c' have c: "ok (lower lo ks1) (upper ks2 hi) c'" "inorder c' = put_sorted key v (inorder c)"
    "\<And>h. bal h c \<Longrightarrow> bal h c'" "chain_step f f' (links c) (links c')" by (simp_all add: insert_ok_def)
  have "ok lo hi (Inner (ks1 @ ks2) (cs1 @ c' # cs2))"
    using ok c(1) by (simp add: ok_list_append [OF pre] ok_list_Cons)
  moreover have "inorder (Inner (ks1 @ ks2) (cs1 @ c' # cs2)) = put_sorted key v (inorder (Inner (ks1 @ ks2) (cs1 @ c # cs2)))"
    using put_sorted_left [OF right, of v "inorder c"]
      put_sorted_right [OF left, of v "inorder c @ concat (map inorder cs2)"] c(2) by simp
  moreover have "bal h (Inner (ks1 @ ks2) (cs1 @ c # cs2)) \<longrightarrow> bal h (Inner (ks1 @ ks2) (cs1 @ c' # cs2))" for h
    using c(3) by (cases h) auto
  moreover have "chain_step f f' (links (Inner (ks1 @ ks2) (cs1 @ c # cs2))) (links (Inner (ks1 @ ks2) (cs1 @ c' # cs2)))"
    using chain_step_context [OF c(4)] by simp
  ultimately show ?thesis unfolding insert_ok_def by blast
qed

text \<open>Splitting a child keeps the inner node's invariant and entries.\<close>

lemma split_parent_ok:
  assumes pre: "length ks1 = length cs1" and ok: "ok lo hi (Inner (ks1 @ ks2) (cs1 @ c # cs2))"
    and room: "length (ks1 @ ks2) < btreeOrder"
    and split: "split_ok (lower lo ks1) (upper ks2 hi) f c sep l r f'"
  shows "ok lo hi (Inner (ks1 @ sep # ks2) (cs1 @ l # r # cs2))"
    and "inorder (Inner (ks1 @ sep # ks2) (cs1 @ l # r # cs2)) = inorder (Inner (ks1 @ ks2) (cs1 @ c # cs2))"
    and "bal h (Inner (ks1 @ ks2) (cs1 @ c # cs2)) \<Longrightarrow> bal h (Inner (ks1 @ sep # ks2) (cs1 @ l # r # cs2))"
    and "chain_step f f' (links (Inner (ks1 @ ks2) (cs1 @ c # cs2))) (links (Inner (ks1 @ sep # ks2) (cs1 @ l # r # cs2)))"
proof -
  have parts: "ok_prefix lo hi ks1 cs1" "ok_list (lower lo ks1) hi ks2 (c # cs2)"
    using ok by (simp_all add: ok_list_append [OF pre])
  then have "lt_hi sep hi"
    using split by (cases ks2) (auto simp: ok_list_Cons split_ok_def upper_def intro: lt_hi_trans)
  with parts show "ok lo hi (Inner (ks1 @ sep # ks2) (cs1 @ l # r # cs2))"
    using split room
    by (cases ks2) (simp_all add: ok_list_append [OF pre] ok_list_Cons split_ok_def upper_def)
  show "inorder (Inner (ks1 @ sep # ks2) (cs1 @ l # r # cs2)) = inorder (Inner (ks1 @ ks2) (cs1 @ c # cs2))"
    using split by (simp add: split_ok_def)
  show "bal h (Inner (ks1 @ sep # ks2) (cs1 @ l # r # cs2))" if "bal h (Inner (ks1 @ ks2) (cs1 @ c # cs2))"
    using that split by (cases h) (auto simp: split_ok_def)
  show "chain_step f f' (links (Inner (ks1 @ ks2) (cs1 @ c # cs2))) (links (Inner (ks1 @ sep # ks2) (cs1 @ l # r # cs2)))"
    using split chain_step_context [of f f' "links c" "links l @ links r"] by (simp add: split_ok_def)
qed

lemma insert_ok_after:
  assumes "inorder m = inorder n" and "\<And>h. bal h n \<Longrightarrow> bal h m"
    and "chain_step f f' (links n) (links m)" and "insert_ok lo hi f' m key v n' f''"
  shows "insert_ok lo hi f n key v n' f''"
  using assms chain_step_trans by (auto simp: insert_ok_def)

lemma insert_split_ok:
  assumes pre: "length ks1 = length cs1" and ok: "ok lo hi (Inner (ks1 @ ks2) (cs1 @ c # cs2))"
    and i: "childIndex (ks1 @ ks2) key = length cs1"
    and room: "length (ks1 @ ks2) < btreeOrder" and full: "length (node_keys c) = btreeOrder"
    and key: "ge_lo (lower lo ks1) key" "lt_hi key (upper ks2 hi)"
    and left: "\<forall>e \<in> set (concat (map inorder cs1)). fst e < key"
    and right: "\<forall>e \<in> set (concat (map inorder cs2)). key < fst e"
    and IH: "\<And>m lo' hi' f'. height m < height (Inner (ks1 @ ks2) (cs1 @ c # cs2)) \<Longrightarrow> ok lo' hi' m \<Longrightarrow>
      length (node_keys m) < btreeOrder \<Longrightarrow> ge_lo lo' key \<Longrightarrow> lt_hi key hi' \<Longrightarrow>
      \<exists>n' f''. insertNonFull f' m key v = Some (n', f'') \<and> insert_ok lo' hi' f' m key v n' f''"
  shows "\<exists>n' f'. insertNonFull f (Inner (ks1 @ ks2) (cs1 @ c # cs2)) key v = Some (n', f') \<and>
    insert_ok lo hi f (Inner (ks1 @ ks2) (cs1 @ c # cs2)) key v n' f'"
proof -
  have c: "ok (lower lo ks1) (upper ks2 hi) c" using ok by (simp add: ok_list_append [OF pre] ok_list_Cons)
  have "length cs1 \<le> length (ks1 @ ks2)" using pre by simp
  then obtain sep l r f1 where
    "splitChild f (ks1 @ ks2) (cs1 @ c # cs2) (length cs1)
      = Some (insert_at (length cs1) sep (ks1 @ ks2), cs1 @ l # r # cs2, f1)"
    and sp: "split_ok (lower lo ks1) (upper ks2 hi) f c sep l r f1"
    by (rule splitChild_ok [OF c full])
  with pre have sc: "splitChild f (ks1 @ ks2) (cs1 @ c # cs2) (length cs1)
      = Some (ks1 @ sep # ks2, cs1 @ l # r # cs2, f1)" by (simp add: insert_at_def)
  note parent = split_parent_ok [OF pre ok room sp]
  have h: "height m < height (Inner (ks1 @ ks2) (cs1 @ c # cs2))" if "m \<in> {l, r}" for m
    using splitChild_height [OF sc, of m] that by auto
  from sp have l: "ok (lower lo ks1) (Some sep) l" "length (node_keys l) < btreeOrder"
    and r: "ok (Some sep) (upper ks2 hi) r" "length (node_keys r) < btreeOrder" by (simp_all add: split_ok_def)
  show ?thesis
  proof (cases "key < sep")
    case True
    from IH [OF h l, of f1] True key obtain n' f' where
      n': "insertNonFull f1 l key v = Some (n', f')" "insert_ok (lower lo ks1) (Some sep) f1 l key v n' f'" by auto
    have "\<forall>e \<in> set (concat (map inorder (r # cs2))). key < fst e"
      using right inorder_bounds(1) [OF r(1)] True by fastforce
    from insert_child_ok [OF pre parent(1) _ left this, of f1 v n' f'] n'(2)
    have "insert_ok lo hi f1 (Inner (ks1 @ sep # ks2) (cs1 @ l # r # cs2)) key v
        (Inner (ks1 @ sep # ks2) (cs1 @ n' # r # cs2)) f'" by (simp add: upper_def)
    from insert_ok_after [OF parent(2-4) this] sc n'(1) True [unfolded not_le [symmetric]] i full pre show ?thesis
      by (simp add: Let_def nth_append)
  next
    case False
    from IH [OF h r, of f1] False [unfolded not_less] key obtain n' f' where
      n': "insertNonFull f1 r key v = Some (n', f')" "insert_ok (Some sep) (upper ks2 hi) f1 r key v n' f'" by auto
    have "\<forall>e \<in> set (concat (map inorder (cs1 @ [l]))). fst e < key"
      using left inorder_bounds(1) [OF l(1)] False by fastforce
    from insert_child_ok [of "ks1 @ [sep]" "cs1 @ [l]" lo hi ks2 r cs2, OF _ _ _ this right, of f1 v n' f'] n'(2) pre parent(1)
    have "insert_ok lo hi f1 (Inner (ks1 @ sep # ks2) (cs1 @ l # r # cs2)) key v
        (Inner (ks1 @ sep # ks2) (cs1 @ l # n' # cs2)) f'" by (simp add: lower_def)
    from insert_ok_after [OF parent(2-4) this] sc n'(1) False [unfolded not_less] i full pre show ?thesis
      by (simp add: Let_def nth_append list_update_append)
  qed
qed

lemma insertNonFull_ok:
  assumes "ok lo hi n" and "length (node_keys n) < btreeOrder" and "ge_lo lo key" "lt_hi key hi"
  shows "\<exists>n' f'. insertNonFull f n key v = Some (n', f') \<and> insert_ok lo hi f n key v n' f'"
  using assms
proof (induction n arbitrary: lo hi f rule: measure_induct_rule [of height])
  case (less n)
  show ?case
  proof (cases n)
    case (Leaf a ks vs nx)
    with less.prems show ?thesis using insert_leaf_ok by simp
  next
    case (Inner ks cs)
    let ?i = "childIndex ks key"
    from less.prems Inner have ok: "ok lo hi (Inner ks cs)" and okl: "ok_list lo hi ks cs"
      and room: "length ks < btreeOrder" by auto
    from child_context [OF okl less.prems(3,4)] obtain cs1 cs2 where
      cs: "cs = cs1 @ cs ! ?i # cs2" "length cs1 = ?i" "?i < length cs" "?i \<le> length ks"
      and c: "ok (lower lo (take ?i ks)) (upper (drop ?i ks) hi) (cs ! ?i)"
        "ge_lo (lower lo (take ?i ks)) key" "lt_hi key (upper (drop ?i ks) hi)"
      and out: "\<forall>e \<in> set (concat (map inorder cs1)). fst e < key"
        "\<forall>e \<in> set (concat (map inorder cs2)). key < fst e"
      by metis
    define ks1 ks2 child where "ks1 = take ?i ks" and "ks2 = drop ?i ks" and "child = cs ! ?i"
    have ks: "ks = ks1 @ ks2" "length ks1 = length cs1" using cs by (simp_all add: ks1_def ks2_def)
    have cs': "cs = cs1 @ child # cs2" using cs(1) by (simp only: child_def)
    show ?thesis
    proof (cases "length (node_keys child) = btreeOrder")
      case False
      with ok_keys_le [OF c(1)] have "length (node_keys (cs ! ?i)) < btreeOrder" by (simp add: child_def)
      with less.IH [of child "lower lo ks1" "upper ks2 hi" f] c cs(3) Inner
      obtain n' f' where n': "insertNonFull f child key v = Some (n', f')"
        "insert_ok (lower lo ks1) (upper ks2 hi) f child key v n' f'"
        by (auto simp: ks1_def ks2_def child_def less_Suc_eq_le height_child)
      have "insert_ok lo hi f (Inner ks cs) key v (Inner ks (cs[?i := n'])) f'"
        using insert_child_ok [OF ks(2) _ n'(2) out] ok cs' cs(2) ks(1)
        by (metis list_update_length)
      with False n'(1) cs(3) show ?thesis unfolding Inner by (auto simp: Let_def child_def)
    next
      case True
      have i: "childIndex (ks1 @ ks2) key = length cs1" using ks(1) cs(2) by metis
      have n: "n = Inner (ks1 @ ks2) (cs1 @ child # cs2)" using Inner cs' ks(1) by metis
      show ?thesis
        using ok room True less.IH c
        unfolding n by (intro insert_split_ok [OF ks(2) _ i _ True _ _ out]) (simp_all add: ks(1) [symmetric] cs' [symmetric] ks1_def ks2_def)
    qed
  qed
qed

section \<open>The whole tree\<close>

definition tree_entries :: "btree \<Rightarrow> entry list" where
  "tree_entries t = (case root t of None \<Rightarrow> [] | Some n \<Rightarrow> inorder n)"

text \<open>
  The invariant of an index: keys in order and within their separators, all leaves at one
  depth, the \<open>next\<close> pointers chaining the leaves from left to right.
\<close>

definition btree_ok :: "btree \<Rightarrow> bool" where
  "btree_ok t \<longleftrightarrow>
     (case root t of
        None \<Rightarrow> True
      | Some n \<Rightarrow>
          ok None None n \<and> bal (height n) n \<and> linked (links n) None \<and> distinct (map fst (links n)) \<and>
          fst ` set (links n) \<subseteq> {..<fresh t})"

lemma btree_ok_empty [simp]: "btree_ok empty_btree" "tree_entries empty_btree = []"
  by (simp_all add: btree_ok_def tree_entries_def empty_btree_def)

lemma btree_ok_clear [simp]: "btree_ok (t\<lparr>root := None\<rparr>)" "tree_entries (t\<lparr>root := None\<rparr>) = []"
  by (simp_all add: btree_ok_def tree_entries_def)

lemma tree_entries_sorted: "btree_ok t \<Longrightarrow> sorted_keys (tree_entries t)"
  using inorder_sorted(1) by (auto simp: btree_ok_def tree_entries_def split: option.splits)

lemma btree_get_correct: "btree_ok t \<Longrightarrow> btree_get t key = Some (map_of (tree_entries t) key)"
  by (auto simp: btree_ok_def tree_entries_def btree_get_def node_get_correct split: option.splits)

lemma ok_list_child: "ok_list lo hi ks cs \<Longrightarrow> c \<in> set cs \<Longrightarrow> \<exists>lo' hi'. ok lo' hi' c"
proof (induction cs arbitrary: lo ks)
  case (Cons d cs)
  then show ?case by (cases ks) (auto simp: ok_list_Cons)
qed simp

lemma bal_height: "ok lo hi n \<Longrightarrow> bal h n \<Longrightarrow> height n = h"
proof (induction h arbitrary: lo hi n)
  case 0
  then show ?case by (cases n) auto
next
  case (Suc h)
  then obtain ks cs where n: "n = Inner ks cs" by (cases n) auto
  with Suc have cs: "\<forall>c \<in> set cs. height c = h" "cs \<noteq> []"
    using ok_list_child [of lo hi ks cs] ok_list_length [of lo hi ks cs] by auto metis
  then have "foldr max (map height cs) 0 = h"
    using height_child [of "hd cs" cs] foldr_max_le [of "map height cs" h] by (auto intro: antisym)
  then show ?case by (simp add: n)
qed

lemma btree_put_ok:
  assumes "btree_ok t"
  shows "\<exists>t'. btree_put t key v = Some t' \<and> btree_ok t' \<and> tree_entries t' = put_sorted key v (tree_entries t)"
proof (cases "root t")
  case None
  then show ?thesis
    by (simp add: btree_put_def btree_ok_def tree_entries_def put_sorted_def btreeOrder_def)
next
  case (Some n)
  have room: "\<exists>n' f' h. insertNonFull f m key v = Some (n', f') \<and>
      btree_ok \<lparr>root = Some n', fresh = f'\<rparr> \<and> inorder n' = put_sorted key v (inorder n)"
    if m: "ok None None m" "length (node_keys m) < btreeOrder" "bal h m" "inorder m = inorder n"
      "chain_step (fresh t) f (links n) (links m)" for m f h
  proof -
    from insertNonFull_ok [OF m(1,2), of key f v] obtain n' f' where
      n': "insertNonFull f m key v = Some (n', f')" "insert_ok None None f m key v n' f'" by auto
    then have "bal (height n') n'" "ok None None n'"
      using m(3) bal_height [of None None n' h] by (auto simp: insert_ok_def)
    moreover have step: "chain_step (fresh t) f' (links n) (links n')"
      using m(5) n'(2) chain_step_trans by (auto simp: insert_ok_def)
    ultimately show ?thesis
      using n' m(4) assms Some chain_stepD(2,5) [OF step] chain_step_fresh [OF step]
      by (simp add: btree_ok_def insert_ok_def)
  qed
  have n: "ok None None n" "bal (height n) n" using assms Some by (auto simp: btree_ok_def)
  show ?thesis
  proof (cases "length (node_keys n) = btreeOrder")
    case False
    with ok_keys_le [OF n(1)] room [OF n(1) _ n(2) refl chain_step_refl] Some show ?thesis
      by (auto simp: btree_put_def tree_entries_def)
  next
    case True
    obtain sep l r f where
      sc: "splitChild (fresh t) [] [n] 0 = Some ([sep], [l, r], f)" "split_ok None None (fresh t) n sep l r f"
      using splitChild_ok [OF n(1) True, of "[]" "[]" "fresh t" "[]" thesis] by (simp add: insert_at_def)
    then have "ok None None (Inner [sep] [l, r])" "bal (Suc (height n)) (Inner [sep] [l, r])"
      "inorder (Inner [sep] [l, r]) = inorder n" "chain_step (fresh t) f (links n) (links (Inner [sep] [l, r]))"
      using n(2) by (auto simp: split_ok_def btreeOrder_def)
    with room [of "Inner [sep] [l, r]" "Suc (height n)" f] sc(1) True Some show ?thesis
      by (auto simp: btree_put_def tree_entries_def btreeOrder_def)
  qed
qed

section \<open>Listing the entries\<close>

definition leaf_entries :: "nat \<times> bytes list \<times> bytes list \<times> nat option \<Rightarrow> entry list" where
  "leaf_entries l = (case l of (a, ks, vs, nx) \<Rightarrow> zip ks vs)"

lemma inorder_leaves: "inorder n = concat (map leaf_entries (leaves n))"
proof (induction n)
  case (Inner ks cs)
  then show ?case by (induction cs) auto
qed (simp add: leaf_entries_def)

lemma leaves_lengths: "ok lo hi n \<Longrightarrow> (a, ks, vs, nx) \<in> set (leaves n) \<Longrightarrow> length vs = length ks"
proof (induction n arbitrary: lo hi)
  case (Inner ks cs)
  then show ?case using ok_list_child [of lo hi ks cs] by auto blast
qed auto

lemma leftmost_first: "ok lo hi n \<Longrightarrow> leftmost n = first_link (links n) None \<and> links n \<noteq> []"
proof (induction n arbitrary: lo hi rule: leftmost.induct)
  case (3 ks c cs)
  then have "leftmost c = first_link (links c) None \<and> links c \<noteq> []"
    using ok_list_child [of lo hi ks "c # cs" c] by auto
  then show ?case by (cases "links c") auto
qed auto

lemma walk_correct:
  assumes "distinct (map fst (pre @ rest))"
    and "linked (map (\<lambda>(a, ks, vs, nx). (a, nx)) rest) None"
    and "\<forall>(a, ks, vs, nx) \<in> set rest. length vs = length ks"
  shows "walk (length rest) (pre @ rest) (first_link (map (\<lambda>(a, ks, vs, nx). (a, nx)) rest) None)
    = Some (concat (map leaf_entries rest))"
  using assms
proof (induction rest arbitrary: pre)
  case (Cons l rest)
  obtain a ks vs nx where l: "l = (a, ks, vs, nx)" by (cases l)
  have "map_of (pre @ l # rest) a = Some (ks, vs, nx)"
    using Cons.prems(1) by (auto simp: l map_add_Some_iff map_of_eq_None_iff)
  with Cons.IH [of "pre @ [l]"] Cons.prems show ?case by (simp add: l leaf_entries_def)
qed simp

lemma btree_entries_correct:
  assumes "btree_ok t"
  shows "btree_entries t = Some (tree_entries t)"
proof (cases "root t")
  case (Some n)
  with assms have n: "ok None None n" "linked (links n) None" "distinct (map fst (links n))"
    by (auto simp: btree_ok_def)
  have "map fst (leaves n) = map fst (links n)" by (auto simp: links_def)
  with n walk_correct [of "[]" "leaves n"] leaves_lengths [OF n(1)]
  have "walk (length (leaves n)) (leaves n) (first_link (links n) None) = Some (inorder n)"
    by (auto simp: links_def inorder_leaves)
  with leftmost_first [OF n(1)] Some show ?thesis
    by (cases "links n") (auto simp: btree_entries_def tree_entries_def)
qed (simp add: btree_entries_def tree_entries_def)

lemma map_of_rev_distinct: "distinct (map fst es) \<Longrightarrow> map_of (rev es) = map_of es"
proof (induction es)
  case (Cons e es)
  have "(\<lambda>x. None)(fst e \<mapsto> snd e) ++ map_of es = map_of es ++ (\<lambda>x. None)(fst e \<mapsto> snd e)"
    using Cons.prems by (intro map_add_comm) (auto simp: dom_map_of_conv_image_fst)
  with Cons show ?case by (cases e) simp
qed simp

section \<open>Building an index entry by entry\<close>

text \<open>
  The part of an index's interface that loading and deletion need: states with a content,
  entries in strict key order, and a \<open>put\<close> that never panics (\<open>None\<close> is a panic) on a good state.
\<close>

locale index_builder =
  fixes good :: "'t \<Rightarrow> bool"
    and content :: "'t \<Rightarrow> entry list"
    and put :: "'t \<Rightarrow> bytes \<Rightarrow> bytes \<Rightarrow> 't option"
    and load :: "entry list \<Rightarrow> 't \<Rightarrow> 't option"
  assumes content_sorted: "good t \<Longrightarrow> sorted_keys (content t)"
    and put: "good t \<Longrightarrow>
      \<exists>t'. put t key v = Some t' \<and> good t' \<and> content t' = put_sorted key v (content t)"
    and load_Nil: "load [] t = Some t"
    and load_Cons: "load ((k, v) # es) t = Option.bind (put t k v) (load es)"
begin

lemma load_content:
  "good t \<Longrightarrow> \<exists>t'. load es t = Some t' \<and> good t' \<and> map_of (content t') = map_of (rev es @ content t)"
proof (induction es arbitrary: t)
  case (Cons e es)
  obtain k v where e: "e = (k, v)" by (cases e)
  from put [OF Cons.prems, of k v] obtain t1 where t1: "put t k v = Some t1" "good t1"
    "content t1 = put_sorted k v (content t)" by auto
  with Cons.IH [OF t1(2)] show ?case by (auto simp: e load_Cons map_of_put_sorted)
qed (simp add: load_Nil)

text \<open>Loading entries in key order into an empty index gives an index with just these.\<close>

lemma load_sorted:
  assumes "good t" "content t = []" and "sorted_keys es"
  shows "\<exists>t'. load es t = Some t' \<and> good t' \<and> content t' = es"
proof -
  from load_content [OF assms(1), of es] obtain t' where
    t': "load es t = Some t'" "good t'" "map_of (content t') = map_of (rev es)" by (auto simp: assms(2))
  have "content t' = es"
    using t' assms(3) map_of_rev_distinct [OF sorted_keys_distinct [OF assms(3)]] content_sorted
    by (intro sorted_keys_unique) auto
  with t' show ?thesis by auto
qed

end

interpretation builder: index_builder btree_ok tree_entries btree_put put_all
proof
  show "put_all ((k, v) # es) t = Option.bind (btree_put t k v) (put_all es)" for k v es t
    by (simp split: option.split)
qed (auto intro: tree_entries_sorted btree_put_ok)

section \<open>Deletion rebuilds the tree\<close>

lemma btree_delete_ok:
  assumes "btree_ok t"
  shows "\<exists>t'. btree_delete t key = Some (t', map_of (tree_entries t) key \<noteq> None) \<and> btree_ok t' \<and>
    tree_entries t' = filter (\<lambda>e. fst e \<noteq> key) (tree_entries t)"
proof (cases "map_of (tree_entries t) key")
  case None
  then have "filter (\<lambda>e. fst e \<noteq> key) (tree_entries t) = tree_entries t"
    by (auto simp: filter_id_conv map_of_eq_None_iff)
  with None assms show ?thesis by (auto simp: btree_delete_def btree_get_correct)
next
  case (Some v)
  have "sorted_keys (filter (\<lambda>e. fst e \<noteq> key) (tree_entries t))"
    using tree_entries_sorted [OF assms] by (simp add: sorted_wrt_map sorted_wrt_filter)
  from builder.load_sorted [OF btree_ok_clear this, of t] Some assms show ?thesis
    by (auto simp: btree_delete_def btree_get_correct btree_entries_correct case_prod_beta')
qed

section \<open>The interface of an ordered index\<close>

text \<open>What the store relies on of its index.\<close>

locale ordered_index = index_builder good content put load
  for good :: "'t \<Rightarrow> bool" and content :: "'t \<Rightarrow> entry list"
    and put :: "'t \<Rightarrow> bytes \<Rightarrow> bytes \<Rightarrow> 't option" and load :: "entry list \<Rightarrow> 't \<Rightarrow> 't option" +
  fixes new :: 't
    and get :: "'t \<Rightarrow> bytes \<Rightarrow> bytes option option"
    and del :: "'t \<Rightarrow> bytes \<Rightarrow> ('t \<times> bool) option"
    and list :: "'t \<Rightarrow> entry list option"
  assumes new: "good new" "content new = []"
    and get: "good t \<Longrightarrow> get t key = Some (map_of (content t) key)"
    and del: "good t \<Longrightarrow>
      \<exists>t'. del t key = Some (t', map_of (content t) key \<noteq> None) \<and> good t' \<and>
        content t' = filter (\<lambda>e. fst e \<noteq> key) (content t)"
    and list: "good t \<Longrightarrow> list t = Some (content t)"
begin

lemma get_put:
  assumes "good t"
  shows "\<exists>t'. put t key v = Some t' \<and> good t' \<and> (\<forall>k. get t' k = (if k = key then Some (Some v) else get t k))"
  using put [OF assms, of key v] assms by (auto simp: get map_of_put_sorted)

lemma get_del:
  assumes "good t"
  shows "\<exists>t'. del t key = Some (t', get t key \<noteq> Some None) \<and> good t' \<and>
    (\<forall>k. get t' k = (if k = key then Some None else get t k))"
  using del [OF assms, of key] assms map_of_filter_key [of "\<lambda>k. k \<noteq> key" "content t"]
  by (auto simp: get)

text \<open>Loading the listing of an index into a new one gives an index with the same content.\<close>

lemma load_list:
  "good t \<Longrightarrow> \<exists>es t'. list t = Some es \<and> load es new = Some t' \<and> good t' \<and> list t' = Some es \<and> get t' = get t"
  using load_sorted [OF new content_sorted, of t] by (auto simp: list get fun_eq_iff)

end

interpretation index: ordered_index btree_ok tree_entries btree_put put_all empty_btree btree_get
    btree_delete btree_entries
  by unfold_locales (rule btree_ok_empty btree_get_correct btree_delete_ok btree_entries_correct; assumption?)+

section \<open>Properties of the index\<close>

datatype index_op = IndexPut bytes bytes | IndexDelete bytes

fun btree_run :: "index_op list \<Rightarrow> btree \<Rightarrow> btree option" where
  "btree_run [] t = Some t"
| "btree_run (IndexPut k v # ops) t = Option.bind (btree_put t k v) (btree_run ops)"
| "btree_run (IndexDelete k # ops) t = Option.bind (btree_delete t k) (\<lambda>(t', b). btree_run ops t')"

fun map_run :: "index_op list \<Rightarrow> (bytes \<rightharpoonup> bytes) \<Rightarrow> bytes \<rightharpoonup> bytes" where
  "map_run [] m = m"
| "map_run (IndexPut k v # ops) m = map_run ops (m(k \<mapsto> v))"
| "map_run (IndexDelete k # ops) m = map_run ops (m(k := None))"

lemma btree_run_ok:
  "btree_ok t \<Longrightarrow> \<exists>t'. btree_run ops t = Some t' \<and> btree_ok t' \<and>
     map_of (tree_entries t') = map_run ops (map_of (tree_entries t))"
proof (induction ops arbitrary: t)
  case (Cons op ops)
  show ?case
  proof (cases op)
    case (IndexPut k v)
    from btree_put_ok [OF Cons.prems, of k v] obtain t1 where t1: "btree_put t k v = Some t1" "btree_ok t1"
      "tree_entries t1 = put_sorted k v (tree_entries t)" by auto
    have "map_of (tree_entries t1) = (map_of (tree_entries t))(k \<mapsto> v)"
      unfolding t1(3) by (rule map_of_put_sorted)
    with t1(1) Cons.IH [OF t1(2)] IndexPut show ?thesis by (simp del: fun_upd_apply)
  next
    case (IndexDelete k)
    from btree_delete_ok [OF Cons.prems, of k] obtain t1 b where t1: "btree_delete t k = Some (t1, b)"
      "btree_ok t1" "tree_entries t1 = filter (\<lambda>e. fst e \<noteq> k) (tree_entries t)" by auto
    have "map_of (tree_entries t1) = (map_of (tree_entries t))(k := None)"
      using map_of_filter_key [of "\<lambda>j. j \<noteq> k" "tree_entries t"] by (auto simp: t1(3) fun_eq_iff)
    with t1(1) Cons.IH [OF t1(2)] IndexDelete show ?thesis by (simp del: fun_upd_apply)
  qed
qed simp

text \<open>C1: Whatever sequence of puts and deletes a client runs on a new index, no operation
  panics or fails to return, the order, balance and leaf-chain invariants hold afterwards,
  every lookup answers what a finite map put through the same operations holds, and listing
  the entries along the leaf chain gives that map in strictly increasing key order.\<close>

theorem btree_implements_map:
  "\<exists>t es. btree_run ops empty_btree = Some t \<and> btree_ok t \<and>
     (\<forall>k. btree_get t k = Some (map_run ops Map.empty k)) \<and>
     btree_entries t = Some es \<and> sorted_keys es \<and> map_of es = map_run ops Map.empty"
  using btree_run_ok [OF btree_ok_empty(1), of ops]
  by (auto simp: btree_get_correct btree_entries_correct tree_entries_sorted)

text \<open>Putting an entry into a well-formed index returns a well-formed index, whether or not
  nodes on the way are full and split; the new key reads as the new value, every other key as
  before, and the listing is the old one with just this entry inserted or replaced.\<close>

theorem btree_put_correct:
  assumes "btree_ok t"
  shows "\<exists>t'. btree_put t key v = Some t' \<and> btree_ok t' \<and>
    (\<forall>k. btree_get t' k = (if k = key then Some (Some v) else btree_get t k)) \<and>
    (\<forall>es. btree_entries t = Some es \<longrightarrow> btree_entries t' = Some (put_sorted key v es))"
  using btree_put_ok [OF assms, of key v] assms
  by (auto simp: btree_get_correct btree_entries_correct map_of_put_sorted)

theorem btree_put_correct_witness:
  "btree_ok empty_btree \<and>
   (\<exists>t'. btree_put empty_btree [1] [2] = Some t' \<and> btree_ok t' \<and>
    (\<forall>k. btree_get t' k = (if k = [1] then Some (Some [2]) else btree_get empty_btree k)) \<and>
    (\<forall>es. btree_entries empty_btree = Some es \<longrightarrow> btree_entries t' = Some (put_sorted [1] [2] es)))"
  using btree_put_correct [OF btree_ok_empty(1), of "[1]" "[2]"] by simp

text \<open>Deleting a key from a well-formed index reports whether the key was there, leaves a
  well-formed index without it, and keeps every other entry, although the code rebuilds the
  tree from its listing.\<close>

theorem btree_delete_correct:
  assumes "btree_ok t"
  shows "\<exists>t'. btree_delete t key = Some (t', btree_get t key \<noteq> Some None) \<and> btree_ok t' \<and>
    (\<forall>k. btree_get t' k = (if k = key then Some None else btree_get t k))"
  using index.get_del [OF assms] .

theorem btree_delete_correct_witness:
  "btree_ok empty_btree \<and>
   (\<exists>t'. btree_delete empty_btree [1] = Some (t', btree_get empty_btree [1] \<noteq> Some None) \<and> btree_ok t' \<and>
    (\<forall>k. btree_get t' k = (if k = [1] then Some None else btree_get empty_btree k)))"
  using btree_delete_correct [OF btree_ok_empty(1), of "[1]"] by simp

text \<open>C17: The binary search of a leaf finds the number of keys that are smaller than the key
  searched for, which is what scanning the keys from the left would find.\<close>

theorem keyIndex_linear:
  assumes "sorted_wrt (<) ks"
  shows "keyIndex ks key = length (takeWhile (\<lambda>k. k < key) ks)"
proof -
  let ?i = "keyIndex ks key"
  note ki = keyIndex_correct [OF assms, where key = key]
  have "takeWhile (\<lambda>k. k < key) (take ?i ks @ drop ?i ks) = take ?i ks @ takeWhile (\<lambda>k. k < key) (drop ?i ks)"
    using ki(2) by (intro takeWhile_append2) auto
  moreover have "takeWhile (\<lambda>k. k < key) (drop ?i ks) = []"
    using ki(3) [of "hd (drop ?i ks)"] by (cases "drop ?i ks") auto
  ultimately show ?thesis using ki(1) by simp
qed

theorem keyIndex_linear_witness:
  "sorted_wrt (<) [[1], [2], [5], [7::u8]] \<and> keyIndex [[1], [2], [5], [7]] [4] = 2"
proof -
  have "sorted_wrt (<) [[1], [2], [5], [7::u8]]" by simp
  with keyIndex_linear [OF this, of "[4]"] show ?thesis by simp
qed

end
