(* ===== verification/WAL.thy ===== *)
theory WAL
  imports Prelude
begin

text \<open>
  The write-ahead log of \<^verbatim>\<open>kv/wal.go\<close>, byte for byte: records with a magic, an operation,
  two lengths, a CRC-32 and a body; transactions as operation records under an ID closed by
  a commit record; and the replay that hands the committed operations to a callback, which
  acts on a state \<open>'s\<close>.

  The lemmas relate the bytes to lists of records (\<open>wal_encode\<close>) and the replay of the bytes
  to a replay of the records (\<open>replay_records\<close>), and show what survives a torn write.
\<close>

section \<open>Results with a state\<close>

text \<open>
  An operation on a state returns the new state and its error or value; the state an
  operation leaves behind when it fails is kept. \<open>seqR\<close> is \<^verbatim>\<open>if err != nil { return err }\<close>
  between two steps.
\<close>

type_synonym ('s, 'a) outcome = "'s \<times> 'a result"

definition seqR :: "('s, 'a) outcome \<Rightarrow> ('s \<Rightarrow> 'a \<Rightarrow> ('s, 'b) outcome) \<Rightarrow> ('s, 'b) outcome" where
  "seqR m f = (case m of (s, Inl err) \<Rightarrow> (s, Inl err) | (s, Inr a) \<Rightarrow> f s a)"

definition check :: "string \<Rightarrow> 's \<times> db_error option \<Rightarrow> ('s, unit) outcome" where
  "check ctx m =
     (case m of
        (s, None) \<Rightarrow> (s, Inr ())
      | (s, Some err) \<Rightarrow> (s, Inl (if ctx = [] then err else ErrCtx ctx err)))"

lemma seqR_simps [simp]: "seqR (s, Inl err) f = (s, Inl err)" "seqR (s, Inr a) f = f s a"
  by (simp_all add: seqR_def)

lemma seqR_assoc [simp]: "seqR (seqR m f) g = seqR m (\<lambda>s a. seqR (f s a) g)"
  by (auto simp: seqR_def split: prod.splits sum.splits)

lemma seqR_return [simp]: "seqR m (\<lambda>s u. (s, Inr ())) = m"
  by (auto simp: seqR_def split: prod.splits sum.splits)

lemma check_simps [simp]:
  "check ctx (s, None) = (s, Inr ())" "check [] (s, Some err) = (s, Inl err)"
  "ctx \<noteq> [] \<Longrightarrow> check ctx (s, Some err) = (s, Inl (ErrCtx ctx err))"
  by (simp_all add: check_def)

lemma check_Inr [simp]: "check ctx m = (s, Inr u) \<longleftrightarrow> m = (s, None)"
  by (cases m) (auto simp: check_def split: option.splits)

lemma seqR_Inr: "seqR m f = (s', Inr b) \<longleftrightarrow> (\<exists>s a. m = (s, Inr a) \<and> f s a = (s', Inr b))"
  by (auto simp: seqR_def split: prod.splits sum.splits)

section \<open>The CRC-32 checksum\<close>

text \<open>
  \<^verbatim>\<open>crc32.ChecksumIEEE\<close>: the reflected CRC-32 with polynomial \<open>0xEDB88320\<close>, initial value
  and final complement of all ones, one bit at a time.
\<close>

unbundle bit_operations_syntax

definition crc_poly :: u32 where
  "crc_poly = 0xEDB88320"

definition crc_bit :: "u32 \<Rightarrow> u32" where
  "crc_bit c = (if bit c 0 then drop_bit 1 c XOR crc_poly else drop_bit 1 c)"

definition crc_byte :: "u32 \<Rightarrow> u8 \<Rightarrow> u32" where
  "crc_byte c b = (crc_bit ^^ 8) (c XOR ucast b)"

definition ChecksumIEEE :: "bytes \<Rightarrow> u32" where
  "ChecksumIEEE bs = NOT (foldl crc_byte (NOT 0) bs)"

section \<open>Records\<close>

definition walMagic :: bytes where
  "walMagic = [77, 89, 87, 65, 76, 48, 49, 0]" \<comment> \<open>\<^verbatim>\<open>"MYWAL01\x00"\<close>\<close>

definition walHeader :: nat where
  "walHeader = 8 + 1 + 4 + 4 + 4"

definition walPut :: u8 where "walPut = 1"
definition walDelete :: u8 where "walDelete = 2"
definition walTxPut :: u8 where "walTxPut = 3"
definition walTxDelete :: u8 where "walTxDelete = 4"
definition walTxCommit :: u8 where "walTxCommit = 5"

record BatchOp =
  Key :: bytes
  Value :: bytes
  Delete :: bool

definition wal_record :: "u8 \<Rightarrow> bytes \<Rightarrow> bytes \<Rightarrow> bytes" where
  "wal_record op key value =
     walMagic @ [op] @ PutUint32 (word_of_nat (length key)) @ PutUint32 (word_of_nat (length value)) @
     PutUint32 (ChecksumIEEE (op # key @ value)) @ key @ value"

definition wal_size :: "os_file \<Rightarrow> nat" where
  "wal_size w = length (fdata w)"

definition wal_append :: "u8 \<Rightarrow> bytes \<Rightarrow> bytes \<Rightarrow> os_file \<Rightarrow> (os_file, unit) outcome" where
  "wal_append op key value w =
     (if length key + length value > 2 ^ 32 - 1 then (w, Inl ErrWalTooLarge)
      else seqR (check ''writing WAL'' (os_Append (wal_record op key value) w)) (\<lambda>w u.
             check ''syncing WAL'' (os_Sync w)))"

fun append_ops :: "u64 \<Rightarrow> BatchOp list \<Rightarrow> os_file \<Rightarrow> (os_file, unit) outcome" where
  "append_ops tid [] w = (w, Inr ())"
| "append_ops tid (op # ops) w =
     seqR (wal_append (if Delete op then walTxDelete else walTxPut) (PutUint64 tid @ Key op) (Value op) w)
       (\<lambda>w u. append_ops tid ops w)"

definition appendTransaction :: "u64 \<Rightarrow> BatchOp list \<Rightarrow> os_file \<Rightarrow> (os_file, unit) outcome" where
  "appendTransaction tid ops w =
     seqR (append_ops tid ops w) (\<lambda>w u. wal_append walTxCommit (PutUint64 tid) [] w)"

section \<open>Replay\<close>

type_synonym 's apply_op = "u8 \<Rightarrow> bytes \<Rightarrow> bytes \<Rightarrow> 's \<Rightarrow> ('s, unit) outcome"
type_synonym pending = "(u64 \<times> BatchOp list) list"

fun apply_batch :: "'s apply_op \<Rightarrow> BatchOp list \<Rightarrow> 's \<Rightarrow> ('s, unit) outcome" where
  "apply_batch act [] s = (s, Inr ())"
| "apply_batch act (op # ops) s =
     seqR (act (if Delete op then walDelete else walPut) (Key op) (Value op) s)
       (\<lambda>s u. apply_batch act ops s)"

definition pending_ops :: "u64 \<Rightarrow> pending \<Rightarrow> BatchOp list" where
  "pending_ops tid p = (case map_of p tid of None \<Rightarrow> [] | Some ops \<Rightarrow> ops)"

text \<open>What the loop body does with a record whose checksum is right.\<close>

definition replay_record ::
  "'s apply_op \<Rightarrow> u8 \<Rightarrow> bytes \<Rightarrow> bytes \<Rightarrow> pending \<Rightarrow> 's \<Rightarrow> ('s, pending) outcome" where
  "replay_record act op key value p s =
     (if op \<noteq> walPut \<and> op \<noteq> walDelete \<and> op \<noteq> walTxPut \<and> op \<noteq> walTxDelete \<and> op \<noteq> walTxCommit
      then (s, Inl (ErrWalOp op))
      else if op = walTxPut \<or> op = walTxDelete then
        (if length key < 8 then (s, Inl ErrWalTxKey)
         else (let tid = Uint64 key
               in (s, Inr (AList.update tid
                     (pending_ops tid p @ [\<lparr>Key = drop 8 key, Value = value, Delete = (op = walTxDelete)\<rparr>]) p))))
      else if op = walTxCommit then
        (if length key \<noteq> 8 then (s, Inl ErrWalCommit)
         else (let tid = Uint64 key
               in seqR (apply_batch act (pending_ops tid p) s) (\<lambda>s u. (s, Inr (AList.delete tid p)))))
      else seqR (act op key value s) (\<lambda>s u. (s, Inr p)))"

text \<open>
  The loop reads what is left of the file: \<open>rest\<close> is the unread part, so its length is the
  counter \<^verbatim>\<open>remaining\<close>. Reading a body that is known to fit cannot come up short, so the
  \<^verbatim>\<open>io.ReadFull\<close> error after the length check has no branch.
\<close>

function replay_loop :: "'s apply_op \<Rightarrow> bytes \<Rightarrow> pending \<Rightarrow> 's \<Rightarrow> ('s, unit) outcome" where
  "replay_loop act rest p s =
     (if length rest < walHeader then (s, Inr ())
      else
        (let h = take walHeader rest;
             rest1 = drop walHeader rest;
             op = h ! 8;
             keyLen = unat (Uint32 (go_slice 9 13 h));
             valLen = unat (Uint32 (go_slice 13 17 h));
             bodyLen = keyLen + valLen
         in if take 8 h \<noteq> walMagic then (s, Inl ErrWalMagic)
            else if bodyLen > length rest1 then (s, Inl ErrWalLength)
            else if ChecksumIEEE (op # take bodyLen rest1) \<noteq> Uint32 (go_slice 17 21 h) then (s, Inl ErrWalChecksum)
            else seqR (replay_record act op (take keyLen rest1) (go_slice keyLen bodyLen rest1) p s)
                   (\<lambda>s p. replay_loop act (drop bodyLen rest1) p s)))"
  by pat_completeness auto
termination
  by (relation "measure (\<lambda>(act, rest, p, s). length rest)") (auto simp: walHeader_def)

declare replay_loop.simps [simp del]

definition replay :: "'s apply_op \<Rightarrow> os_file \<Rightarrow> 's \<Rightarrow> ('s, unit) outcome" where
  "replay act w s = replay_loop act (fdata w) [] s"

definition wal_clear :: "os_file \<Rightarrow> (os_file, unit) outcome" where
  "wal_clear w = seqR (check [] (os_Truncate w)) (\<lambda>w u. check [] (os_Sync w))"

section \<open>Bytes and records\<close>

type_synonym wal_rec = "u8 \<times> bytes \<times> bytes"

definition encode_rec :: "wal_rec \<Rightarrow> bytes" where
  "encode_rec r = (case r of (op, key, value) \<Rightarrow> wal_record op key value)"

definition wal_encode :: "wal_rec list \<Rightarrow> bytes" where
  "wal_encode rs = concat (map encode_rec rs)"

definition rec_fits :: "wal_rec \<Rightarrow> bool" where
  "rec_fits r = (case r of (op, key, value) \<Rightarrow> length key + length value \<le> 2 ^ 32 - 1)"

fun replay_records :: "'s apply_op \<Rightarrow> wal_rec list \<Rightarrow> pending \<Rightarrow> 's \<Rightarrow> ('s, pending) outcome" where
  "replay_records act [] p s = (s, Inr p)"
| "replay_records act ((op, key, value) # rs) p s =
     seqR (replay_record act op key value p s) (\<lambda>s p. replay_records act rs p s)"

lemma wal_encode_simps [simp]:
  "wal_encode [] = []" "wal_encode (r # rs) = encode_rec r @ wal_encode rs"
  "wal_encode (rs @ qs) = wal_encode rs @ wal_encode qs"
  by (simp_all add: wal_encode_def)

lemma replay_records_append:
  "replay_records act (rs @ qs) p s = seqR (replay_records act rs p s) (\<lambda>s p. replay_records act qs p s)"
  by (induction act rs p s rule: replay_records.induct) auto

lemma length_wal_record [simp]: "length (wal_record op key value) = walHeader + length key + length value"
  by (simp add: wal_record_def walMagic_def walHeader_def)

text \<open>The header of an encoded record, whatever follows it.\<close>

definition header_of :: "u8 \<Rightarrow> bytes \<Rightarrow> bytes \<Rightarrow> bytes" where
  "header_of op key value =
     walMagic @ [op] @ PutUint32 (word_of_nat (length key)) @ PutUint32 (word_of_nat (length value)) @
     PutUint32 (ChecksumIEEE (op # key @ value))"

lemma wal_record_header: "wal_record op key value = header_of op key value @ key @ value"
  by (simp add: wal_record_def header_of_def)

lemma length_header_of [simp]: "length (header_of op key value) = walHeader"
  by (simp add: header_of_def walMagic_def walHeader_def)

lemma header_fields:
  "take 8 (header_of op key value) = walMagic" "header_of op key value ! 8 = op"
  "Uint32 (go_slice 9 13 (header_of op key value)) = word_of_nat (length key)"
  "Uint32 (go_slice 13 17 (header_of op key value)) = word_of_nat (length value)"
  "Uint32 (go_slice 17 21 (header_of op key value)) = ChecksumIEEE (op # key @ value)"
  by (simp_all add: header_of_def walMagic_def go_slice_def nth_append)

lemma fits_lengths:
  assumes "rec_fits (op, key, value)"
  shows "unat (word_of_nat (length key) :: u32) = length key"
    and "unat (word_of_nat (length value) :: u32) = length value"
  using assms by (simp_all add: rec_fits_def unat_of_nat)

lemma slice_mid [byte_simps]: "go_slice (length xs) (length xs + length ys) (xs @ ys @ zs) = ys"
  by (simp add: go_slice_def)

lemma replay_loop_record:
  assumes "rec_fits (op, key, value)"
  shows "replay_loop act (wal_record op key value @ rest) p s
    = seqR (replay_record act op key value p s) (\<lambda>s p. replay_loop act rest p s)"
  using fits_lengths [OF assms]
  by (subst replay_loop.simps)
    (simp add: wal_record_header header_fields Let_def slice_mid)

lemma replay_loop_encode:
  "\<forall>r \<in> set rs. rec_fits r \<Longrightarrow>
     replay_loop act (wal_encode rs @ rest) p s
       = seqR (replay_records act rs p s) (\<lambda>s p. replay_loop act rest p s)"
  by (induction act rs p s rule: replay_records.induct)
    (simp_all add: encode_rec_def replay_loop_record)

text \<open>A torn record at the end of the log: too short for a header it is ignored, else it is an error.\<close>

lemma replay_loop_torn:
  assumes "rec_fits (op, key, value)" and "n < length (wal_record op key value)"
  shows "replay_loop act (take n (wal_record op key value)) p s
    = (s, if n < walHeader then Inr () else Inl ErrWalLength)"
proof (cases "n < walHeader")
  case True
  then show ?thesis by (subst replay_loop.simps) simp
next
  case False
  define m where "m = n - walHeader"
  have m: "m < length (key @ value)" and n: "n = walHeader + m"
    using False assms(2) by (simp_all add: m_def)
  have "take n (wal_record op key value) = header_of op key value @ take m (key @ value)"
    by (simp add: wal_record_header n)
  moreover have "replay_loop act (header_of op key value @ body) p s = (s, Inl ErrWalLength)"
    if "length body < length key + length value" for body
    using that fits_lengths [OF assms(1)] by (subst replay_loop.simps) (simp add: header_fields Let_def)
  ultimately show ?thesis using m False by simp
qed

section \<open>Appending\<close>

lemma os_Append_prefix:
  "os_Append bs w = (w', r) \<Longrightarrow>
     \<exists>n. fdata w' = fdata w @ take n bs \<and> (r = None \<longrightarrow> length bs \<le> n)"
  by (cases "next_outcome w") (auto simp: os_Append_def os_WriteAt_def intro: exI [of _ "length bs"])

text \<open>
  The log grew by a prefix of \<open>bs\<close>, by all of it if \<open>done\<close>: what a sequence of writes
  leaves behind when one of them may fail halfway.
\<close>

definition logs :: "os_file \<Rightarrow> os_file \<Rightarrow> bytes \<Rightarrow> bool \<Rightarrow> bool" where
  "logs w w' bs complete \<longleftrightarrow> (\<exists>n. fdata w' = fdata w @ take n bs \<and> (complete \<longrightarrow> length bs \<le> n))"

lemma logs_seq: "logs w w1 bs True \<Longrightarrow> logs w1 w' cs complete \<Longrightarrow> logs w w' (bs @ cs) complete"
  unfolding logs_def by (elim exE conjE, rule_tac x = "length bs + na" in exI) simp

lemma logs_stop: "logs w w' bs complete \<Longrightarrow> logs w w' (bs @ cs) False"
  unfolding logs_def by (elim exE conjE, rule_tac x = "min n (length bs)" in exI) (simp add: min_def)

lemma logs_complete: "logs w w' bs True \<longleftrightarrow> fdata w' = fdata w @ bs"
  by (auto simp: logs_def intro: exI [of _ "length bs"])

lemma wal_append_logs:
  assumes "wal_append op key v w = (w', r)"
  shows "logs w w' (wal_record op key v) (r = Inr ()) \<and> (r = Inr () \<longrightarrow> rec_fits (op, key, v))"
proof (cases "length key + length v > 2 ^ 32 - 1")
  case True
  with assms show ?thesis by (auto simp: wal_append_def logs_def intro: exI [of _ 0])
next
  case False
  obtain w1 r1 where a: "os_Append (wal_record op key v) w = (w1, r1)" by fastforce
  obtain n where n: "fdata w1 = fdata w @ take n (wal_record op key v)"
    "r1 = None \<longrightarrow> length (wal_record op key v) \<le> n" using os_Append_prefix [OF a] by auto
  have "fdata w' = fdata w1"
    using assms False a by (cases r1) (auto simp: wal_append_def os_Sync_def check_def split: io_outcome.splits)
  moreover have "r1 = None" if "r = Inr ()"
    using assms False a that by (cases r1) (auto simp: wal_append_def check_def)
  ultimately show ?thesis using n False by (auto simp: logs_def rec_fits_def intro!: exI [of _ n])
qed

lemma wal_append_fine:
  assumes "faults w = []" and "rec_fits (op, key, value)"
  shows "wal_append op key value w = (w\<lparr>fdata := fdata w @ wal_record op key value\<rparr>, Inr ())"
  using assms by (simp add: wal_append_def rec_fits_def os_Append_def os_WriteAt_def os_Sync_def)

section \<open>Transactions\<close>

definition op_rec :: "u64 \<Rightarrow> BatchOp \<Rightarrow> wal_rec" where
  "op_rec tid op = (if Delete op then walTxDelete else walTxPut, PutUint64 tid @ Key op, Value op)"

definition tx_records :: "u64 \<Rightarrow> BatchOp list \<Rightarrow> wal_rec list" where
  "tx_records tid ops = map (op_rec tid) ops @ [(walTxCommit, PutUint64 tid, [])]"

definition enqueue :: "u64 \<Rightarrow> BatchOp \<Rightarrow> pending \<Rightarrow> pending" where
  "enqueue tid op p = AList.update tid (pending_ops tid p @ [op]) p"

lemma Uint64_key [simp]: "Uint64 (PutUint64 tid @ key) = tid"
  using Uint64_PutUint64 [of tid] by (simp add: Uint64_def)

lemma wal_ops_distinct [simp]:
  "walPut \<noteq> walDelete" "walPut \<noteq> walTxPut" "walPut \<noteq> walTxDelete" "walPut \<noteq> walTxCommit"
  "walDelete \<noteq> walTxPut" "walDelete \<noteq> walTxDelete" "walDelete \<noteq> walTxCommit"
  "walTxPut \<noteq> walTxDelete" "walTxPut \<noteq> walTxCommit" "walTxDelete \<noteq> walTxCommit"
  by (simp_all add: walPut_def walDelete_def walTxPut_def walTxDelete_def walTxCommit_def)

lemmas wal_ops_distinct' [simp] = wal_ops_distinct [symmetric]

lemma replay_op_rec:
  "(case op_rec tid op of (c, key, value) \<Rightarrow> replay_record act c key value p s) = (s, Inr (enqueue tid op p))"
  by (cases op) (simp add: op_rec_def replay_record_def enqueue_def Let_def)

lemma replay_op_recs:
  "replay_records act (map (op_rec tid) ops) p s = (s, Inr (fold (enqueue tid) ops p))"
proof (induction ops arbitrary: p)
  case (Cons op ops)
  obtain c key v where r: "op_rec tid op = (c, key, v)" by (cases "op_rec tid op")
  with replay_op_rec [where tid = tid and op = op and p = p and s = s and act = act] Cons show ?case by simp
qed simp

lemma pending_enqueue [simp]: "pending_ops tid (fold (enqueue tid) ops p) = pending_ops tid p @ ops"
  by (induction ops arbitrary: p) (auto simp: enqueue_def pending_ops_def)

lemma delete_enqueue [simp]: "AList.delete tid (fold (enqueue tid) ops p) = AList.delete tid p"
  by (induction ops arbitrary: p) (auto simp: enqueue_def AList.delete_update_same)

lemma replay_tx_records:
  "replay_records act (tx_records tid ops) p s =
     seqR (apply_batch act (pending_ops tid p @ ops) s) (\<lambda>s u. (s, Inr (AList.delete tid p)))"
  by (simp add: tx_records_def replay_records_append replay_op_recs) (simp add: replay_record_def Let_def)

text \<open>Transactions append their records one by one, so what is in the log is a prefix of them.\<close>

lemma append_ops_logs:
  "append_ops tid ops w = (w', r) \<Longrightarrow>
     logs w w' (wal_encode (map (op_rec tid) ops)) (r = Inr ()) \<and>
     (r = Inr () \<longrightarrow> (\<forall>op \<in> set ops. rec_fits (op_rec tid op)))"
proof (induction ops arbitrary: w)
  case (Cons op ops)
  let ?c = "if Delete op then walTxDelete else walTxPut" and ?k = "PutUint64 tid @ Key op"
  obtain w1 r1 where a: "wal_append ?c ?k (Value op) w = (w1, r1)" by fastforce
  have "op_rec tid op = (?c, ?k, Value op)" "encode_rec (op_rec tid op) = wal_record ?c ?k (Value op)"
    by (simp_all add: encode_rec_def op_rec_def)
  with wal_append_logs [OF a] have l: "logs w w1 (encode_rec (op_rec tid op)) (r1 = Inr ())"
    "r1 = Inr () \<longrightarrow> rec_fits (op_rec tid op)" by simp_all
  show ?case
  proof (cases r1)
    case (Inl err)
    with Cons.prems a l show ?thesis by (auto dest: logs_stop)
  next
    case (Inr u)
    with Cons.prems a have "append_ops tid ops w1 = (w', r)" by simp
    from Cons.IH [OF this] l Inr show ?thesis by (auto intro: logs_seq)
  qed
qed (simp add: logs_def)

lemma appendTransaction_logs:
  assumes "appendTransaction tid ops w = (w', r)"
  shows "logs w w' (wal_encode (tx_records tid ops)) (r = Inr ()) \<and>
    (r = Inr () \<longrightarrow> (\<forall>q \<in> set (tx_records tid ops). rec_fits q))"
proof -
  obtain w1 r1 where a: "append_ops tid ops w = (w1, r1)" by fastforce
  note l = append_ops_logs [OF a]
  show ?thesis
  proof (cases r1)
    case (Inl err)
    with assms a l show ?thesis by (auto simp: appendTransaction_def tx_records_def dest: logs_stop)
  next
    case (Inr u)
    with assms a have c: "wal_append walTxCommit (PutUint64 tid) [] w1 = (w', r)" by (simp add: appendTransaction_def)
    from wal_append_logs [OF c] l Inr show ?thesis
      by (auto simp: tx_records_def encode_rec_def intro: logs_seq)
  qed
qed

section \<open>Torn logs\<close>

lemma take_encode_split:
  "n < length (wal_encode rs) \<Longrightarrow>
     \<exists>j m. j < length rs \<and> m < length (encode_rec (rs ! j)) \<and>
       take n (wal_encode rs) = wal_encode (take j rs) @ take m (encode_rec (rs ! j))"
proof (induction rs arbitrary: n)
  case (Cons r rs)
  show ?case
  proof (cases "n < length (encode_rec r)")
    case True
    then show ?thesis by (intro exI [of _ 0] exI [of _ n]) simp
  next
    case False
    with Cons.prems have "n - length (encode_rec r) < length (wal_encode rs)" by simp
    from Cons.IH [OF this] obtain j m where
      "j < length rs" "m < length (encode_rec (rs ! j))"
      "take (n - length (encode_rec r)) (wal_encode rs) = wal_encode (take j rs) @ take m (encode_rec (rs ! j))"
      by blast
    with False show ?thesis by (intro exI [of _ "Suc j"] exI [of _ m]) simp
  qed
qed simp

text \<open>How a replay of a log that ends in a torn record may end.\<close>

definition torn_end :: "unit result \<Rightarrow> bool" where
  "torn_end t \<longleftrightarrow> t = Inr () \<or> t = Inl ErrWalLength"

lemma replay_loop_torn_log:
  assumes "\<forall>r \<in> set rs. rec_fits r" and "n < length (wal_encode rs)"
  shows "\<exists>j t. j < length rs \<and> torn_end t \<and>
    replay_loop act (take n (wal_encode rs)) p s = seqR (replay_records act (take j rs) p s) (\<lambda>s p. (s, t))"
proof -
  from take_encode_split [OF assms(2)] obtain j m where
    j: "j < length rs" "m < length (encode_rec (rs ! j))"
    and t: "take n (wal_encode rs) = wal_encode (take j rs) @ take m (encode_rec (rs ! j))" by blast
  obtain op key v where r: "rs ! j = (op, key, v)" by (cases "rs ! j")
  have fits: "rec_fits (op, key, v)" "\<forall>r \<in> set (take j rs). rec_fits r"
    using assms(1) j(1) r by (auto dest: in_set_takeD) (metis nth_mem)
  have "replay_loop act (take m (encode_rec (rs ! j))) q s'
      = (s', if m < walHeader then Inr () else Inl ErrWalLength)" for q s'
    using replay_loop_torn [OF fits(1), of m act q s'] j(2) by (simp add: r encode_rec_def)
  with replay_loop_encode [OF fits(2), of act "take m (encode_rec (rs ! j))" p s] j(1) show ?thesis
    by (intro exI [of _ j] exI [of _ "if m < walHeader then Inr () else Inl ErrWalLength"])
      (simp add: t torn_end_def)
qed

section \<open>Sequences of log calls\<close>

datatype wal_call = CallPut bytes bytes | CallDelete bytes | CallTransaction u64 "BatchOp list"

fun run_call :: "wal_call \<Rightarrow> os_file \<Rightarrow> (os_file, unit) outcome" where
  "run_call (CallPut key v) w = wal_append walPut key v w"
| "run_call (CallDelete key) w = wal_append walDelete key [] w"
| "run_call (CallTransaction tid ops) w = appendTransaction tid ops w"

fun run_calls :: "wal_call list \<Rightarrow> os_file \<Rightarrow> (os_file, unit) outcome" where
  "run_calls [] w = (w, Inr ())"
| "run_calls (c # cs) w = seqR (run_call c w) (\<lambda>w u. run_calls cs w)"

fun call_ops :: "wal_call \<Rightarrow> BatchOp list" where
  "call_ops (CallPut key v) = [\<lparr>Key = key, Value = v, Delete = False\<rparr>]"
| "call_ops (CallDelete key) = [\<lparr>Key = key, Value = [], Delete = True\<rparr>]"
| "call_ops (CallTransaction tid ops) = ops"

fun call_records :: "wal_call \<Rightarrow> wal_rec list" where
  "call_records (CallPut key v) = [(walPut, key, v)]"
| "call_records (CallDelete key) = [(walDelete, key, [])]"
| "call_records (CallTransaction tid ops) = tx_records tid ops"

lemma run_call_logs:
  "run_call c w = (w', r) \<Longrightarrow>
     logs w w' (wal_encode (call_records c)) (r = Inr ()) \<and>
     (r = Inr () \<longrightarrow> (\<forall>q \<in> set (call_records c). rec_fits q))"
  by (cases c) (auto simp: encode_rec_def dest: wal_append_logs appendTransaction_logs)

lemma run_calls_logs:
  "run_calls cs w = (w', Inr ()) \<Longrightarrow>
     fdata w' = fdata w @ wal_encode (concat (map call_records cs)) \<and>
     (\<forall>q \<in> set (concat (map call_records cs)). rec_fits q)"
proof (induction cs arbitrary: w)
  case (Cons c cs)
  from Cons.prems obtain w1 where "run_call c w = (w1, Inr ())" "run_calls cs w1 = (w', Inr ())"
    by (auto simp: seqR_Inr)
  with Cons.IH run_call_logs show ?case by (fastforce simp: logs_complete)
qed simp

lemma apply_batch_append:
  "apply_batch act (xs @ ys) s = seqR (apply_batch act xs s) (\<lambda>s u. apply_batch act ys s)"
  by (induction act xs s rule: apply_batch.induct) auto

text \<open>A complete call replays as its operations, and with no operation of it left pending.\<close>

lemma replay_call:
  "replay_records act (call_records c) [] s = seqR (apply_batch act (call_ops c) s) (\<lambda>s u. (s, Inr []))"
  by (cases c) (simp_all add: replay_tx_records pending_ops_def, simp_all add: replay_record_def)

lemma replay_calls:
  "replay_records act (concat (map call_records cs)) [] s =
     seqR (apply_batch act (concat (map call_ops cs)) s) (\<lambda>s u. (s, Inr []))"
  by (induction cs arbitrary: s) (simp_all add: replay_records_append replay_call apply_batch_append)

text \<open>A proper prefix of a call's records applies nothing.\<close>

lemma replay_call_prefix:
  assumes "j < length (call_records c)"
  shows "\<exists>p. replay_records act (take j (call_records c)) [] s = (s, Inr p)"
proof (cases c)
  case (CallTransaction tid ops)
  with assms have "take j (call_records c) = map (op_rec tid) (take j ops)"
    by (simp add: tx_records_def take_map)
  then show ?thesis by (simp add: replay_op_recs)
qed (use assms in simp_all)

section \<open>The checksum detects a changed byte\<close>

lemma crc_bit_top: "bit (crc_bit c) 31 \<longleftrightarrow> bit c 0"
  using bit_imp_le_length [of c 32] by (auto simp: crc_bit_def crc_poly_def bit_simps)

lemma xor_cancel: "a XOR b = a XOR c \<longleftrightarrow> b = c" "b XOR a = c XOR a \<longleftrightarrow> b = c" for a b c :: "'a::len word"
  by (auto simp: bit_eq_iff bit_xor_iff)

lemma ucast_byte_inj: "(ucast (b :: u8) :: u32) = ucast c \<longleftrightarrow> b = c"
proof
  assume eq: "(ucast b :: u32) = ucast c"
  show "b = c"
  proof (rule bit_eqI)
    fix n
    assume "possible_bit TYPE(u8) n"
    with eq show "bit b n \<longleftrightarrow> bit c n" by (simp add: bit_eq_iff [of "ucast b :: u32"] bit_ucast_iff)
  qed
qed simp

lemma inj_crc_bit: "inj crc_bit"
proof (rule injI)
  fix c d :: u32
  assume eq: "crc_bit c = crc_bit d"
  then have b: "bit c 0 \<longleftrightarrow> bit d 0" by (metis crc_bit_top)
  with eq have "drop_bit 1 c = drop_bit 1 d" by (auto simp: crc_bit_def xor_cancel split: if_splits)
  then have "bit c (Suc n) \<longleftrightarrow> bit d (Suc n)" for n by (metis bit_drop_bit_eq comp_apply plus_1_eq_Suc)
  with b have "bit c n \<longleftrightarrow> bit d n" for n by (cases n) auto
  then show "c = d" by (auto intro: bit_eqI)
qed

lemma crc_byte_inj:
  "crc_byte c b = crc_byte d b \<longleftrightarrow> c = d" "crc_byte c b = crc_byte c e \<longleftrightarrow> b = e"
proof -
  note inj = inj_eq [OF inj_fn [OF inj_crc_bit]]
  show "crc_byte c b = crc_byte d b \<longleftrightarrow> c = d"
    by (simp add: crc_byte_def inj xor_cancel)
  show "crc_byte c b = crc_byte c e \<longleftrightarrow> b = e"
    by (simp add: crc_byte_def inj xor_cancel ucast_byte_inj)
qed

lemma crc_fold_inj: "foldl crc_byte c bs = foldl crc_byte d bs \<longleftrightarrow> c = d"
  by (induction bs arbitrary: c d) (auto simp: crc_byte_inj)

lemma ChecksumIEEE_byte: "ChecksumIEEE (xs @ b # ys) = ChecksumIEEE (xs @ c # ys) \<longleftrightarrow> b = c"
  by (simp add: ChecksumIEEE_def crc_fold_inj crc_byte_inj)

text \<open>One step of the replay, with the record's fields read from the header \<open>h\<close>.\<close>

lemma replay_loop_header:
  assumes "length h = walHeader"
  shows "replay_loop act (h @ rest) p s =
    (let bodyLen = unat (Uint32 (go_slice 9 13 h)) + unat (Uint32 (go_slice 13 17 h))
     in if take 8 h \<noteq> walMagic then (s, Inl ErrWalMagic)
        else if bodyLen > length rest then (s, Inl ErrWalLength)
        else if ChecksumIEEE (h ! 8 # take bodyLen rest) \<noteq> Uint32 (go_slice 17 21 h) then (s, Inl ErrWalChecksum)
        else seqR (replay_record act (h ! 8) (take (unat (Uint32 (go_slice 9 13 h))) rest)
                     (go_slice (unat (Uint32 (go_slice 9 13 h))) bodyLen rest) p s)
               (\<lambda>s p. replay_loop act (drop bodyLen rest) p s))"
  using assms by (subst replay_loop.simps) (simp add: Let_def walHeader_def)

lemma slice_update_outside:
  "i < a \<or> b \<le> i \<Longrightarrow> go_slice a b (xs[i := x]) = go_slice a b xs"
  by (rule nth_equalityI) (auto simp: go_slice_def nth_list_update)

lemma Uint32_bytes: "length bs = 4 \<Longrightarrow> PutUint32 (Uint32 bs) = bs"
  using le_bytes_le_nat [of bs] le_nat_less [of bs]
  by (simp add: PutUint32_def Uint32_def unat_of_nat)

lemma replay_corrupt_header:
  assumes fits: "rec_fits (op, key, v)" and i: "i < walHeader" "\<not> (9 \<le> i \<and> i < 17)"
    and b: "b \<noteq> header_of op key v ! i"
  shows "replay_loop act ((header_of op key v)[i := b] @ key @ v @ rest) p s
    = (s, Inl (if i < 8 then ErrWalMagic else ErrWalChecksum))"
proof -
  let ?h = "header_of op key v"
  have len: "go_slice 9 13 (?h[i := b]) = go_slice 9 13 ?h" "go_slice 13 17 (?h[i := b]) = go_slice 13 17 ?h"
    using i(2) by (auto intro!: slice_update_outside)
  note step = len header_fields fits_lengths [OF fits] Let_def
  consider "i < 8" | "i = 8" | "17 \<le> i" using i(2) by linarith
  then show ?thesis
  proof cases
    case 1
    have "take 8 (?h[i := b]) ! i \<noteq> take 8 ?h ! i" using 1 i(1) b by simp
    then have "take 8 (?h[i := b]) \<noteq> walMagic" unfolding header_fields(1) by metis
    then show ?thesis using 1 by (subst replay_loop_header) simp_all
  next
    case 2
    then have "b \<noteq> op" using b by (simp add: header_fields)
    then have "ChecksumIEEE (b # key @ v) \<noteq> ChecksumIEEE (op # key @ v)"
      using ChecksumIEEE_byte [of "[]" b "key @ v" op] by simp
    then have "replay_loop act (?h[8 := b] @ key @ v @ rest) p s = (s, Inl ErrWalChecksum)"
      by (subst replay_loop_header)
        (simp_all add: slice_update_outside header_fields fits_lengths [OF fits] Let_def nth_list_update walHeader_def)
    then show ?thesis using 2 by simp
  next
    case 3
    have "Uint32 (go_slice 17 21 (?h[i := b])) \<noteq> Uint32 (go_slice 17 21 ?h)"
    proof
      assume "Uint32 (go_slice 17 21 (?h[i := b])) = Uint32 (go_slice 17 21 ?h)"
      moreover have "PutUint32 (Uint32 (go_slice 17 21 (?h[i := b]))) = go_slice 17 21 (?h[i := b])"
        "PutUint32 (Uint32 (go_slice 17 21 ?h)) = go_slice 17 21 ?h"
        by (rule Uint32_bytes, simp add: length_slice walHeader_def)+
      ultimately have "go_slice 17 21 (?h[i := b]) = go_slice 17 21 ?h" by metis
      then have "(go_slice 17 21 (?h[i := b])) ! (i - 17) = go_slice 17 21 ?h ! (i - 17)" by simp
      with 3 i(1) b show False by (simp add: go_slice_def walHeader_def)
    qed
    moreover have "take 8 (?h[i := b]) = walMagic" "?h[i := b] ! 8 = op"
      using 3 by (simp_all add: header_fields)
    ultimately show ?thesis using 3 by (subst replay_loop_header) (simp_all add: step)
  qed
qed

lemma replay_corrupt_body:
  assumes fits: "rec_fits (op, key, v)" and i: "i < length (key @ v)" and b: "b \<noteq> (key @ v) ! i"
  shows "replay_loop act (header_of op key v @ (key @ v)[i := b] @ rest) p s = (s, Inl ErrWalChecksum)"
proof -
  let ?body = "key @ v"
  have "ChecksumIEEE ((op # take i ?body) @ b # drop (Suc i) ?body)
      \<noteq> ChecksumIEEE ((op # take i ?body) @ ?body ! i # drop (Suc i) ?body)"
    using b by (simp only: ChecksumIEEE_byte not_False_eq_True)
  then have "ChecksumIEEE (op # ?body[i := b]) \<noteq> ChecksumIEEE (op # ?body)"
    by (simp only: append_Cons id_take_nth_drop [OF i, symmetric] upd_conv_take_nth_drop [OF i, symmetric] list_update_id not_False_eq_True)
  then show ?thesis
    by (subst replay_loop_header) (simp_all add: header_fields fits_lengths [OF fits] Let_def)
qed

lemma replay_corrupt:
  assumes fits: "rec_fits (op, key, v)" and i: "i < length (wal_record op key v)" "\<not> (9 \<le> i \<and> i < 17)"
    and b: "b \<noteq> wal_record op key v ! i"
  shows "replay_loop act ((wal_record op key v)[i := b] @ rest) p s
    = (s, Inl (if i < 8 then ErrWalMagic else ErrWalChecksum))"
proof (cases "i < walHeader")
  case True
  with b have "b \<noteq> header_of op key v ! i" by (simp add: wal_record_header nth_append)
  with replay_corrupt_header [OF fits True i(2) this, of act rest p s] True show ?thesis
    by (simp add: wal_record_header list_update_append)
next
  case False
  with b i(1) have "b \<noteq> (key @ v) ! (i - walHeader)" "i - walHeader < length (key @ v)"
    by (simp_all add: wal_record_header nth_append)
  with replay_corrupt_body [OF fits this(2,1), of act rest p s] False show ?thesis
    by (simp add: wal_record_header list_update_append walHeader_def)
qed

section \<open>Properties of the log\<close>

lemma replay_log:
  "\<forall>r \<in> set rs. rec_fits r \<Longrightarrow> fdata w = wal_encode rs \<Longrightarrow>
     replay act w s = seqR (replay_records act rs [] s) (\<lambda>s p. (s, Inr ()))"
proof -
  assume "\<forall>r \<in> set rs. rec_fits r" "fdata w = wal_encode rs"
  moreover have "replay_loop act [] p s = (s, Inr ())" for p s
    by (subst replay_loop.simps) (simp add: walHeader_def)
  ultimately show ?thesis using replay_loop_encode [of rs act "[]" "[]" s] by (simp add: replay_def)
qed

text \<open>C12: Replaying a log written by any sequence of successful puts, deletes and transactions
  hands the callback exactly their operations, in the order of the calls.\<close>

theorem wal_roundtrip:
  assumes "fdata w = []" and "run_calls cs w = (w', Inr ())"
  shows "replay act w' s = apply_batch act (concat (map call_ops cs)) s"
  using run_calls_logs [OF assms(2)] assms(1) replay_log [of "concat (map call_records cs)" w' act s]
  by (simp add: replay_calls)

theorem wal_roundtrip_witness:
  "\<exists>w'. run_calls [CallPut [1] [2]] (file_of []) = (w', Inr ()) \<and>
     replay (\<lambda>op k v s. (s @ [(op, k, v)], Inr ())) w' [] = ([(walPut, [1], [2])], Inr ())"
proof -
  have "run_calls [CallPut [1] [2]] (file_of []) = (file_of (wal_record walPut [1] [2]), Inr ())"
    by (simp add: wal_append_fine file_of_def rec_fits_def)
  with wal_roundtrip [OF _ this, of "\<lambda>op k v s. (s @ [(op, k, v)], Inr ())" "[]"] show ?thesis
    by (simp add: file_of_def)
qed

text \<open>C4: Start from an empty log and calls that succeeded, and let a crash or write error happen at any byte of one more call, whose records
  have a size that fits 32 bits. Replaying the log applies every earlier call and either all operations of the last call or none of them, and a call
  that reported success is always applied. The replay itself may end in the record-length error.\<close>

theorem wal_crash_atomic:
  assumes "fdata w = []" and "run_calls cs w = (w1, Inr ())"
    and "\<forall>q \<in> set (call_records c). rec_fits q" and "run_call c w1 = (w2, r)"
  shows "\<exists>b t. (r = Inr () \<longrightarrow> b) \<and> torn_end t \<and>
    replay act w2 s = seqR (apply_batch act (concat (map call_ops cs) @ (if b then call_ops c else [])) s) (\<lambda>s u. (s, t))"
proof -
  let ?rs = "concat (map call_records cs)" and ?enc = "wal_encode (call_records c)"
  have w1: "fdata w1 = wal_encode ?rs" "\<forall>q \<in> set ?rs. rec_fits q"
    using run_calls_logs [OF assms(2)] assms(1) by simp_all
  obtain n where w2: "fdata w2 = fdata w1 @ take n ?enc" "r = Inr () \<longrightarrow> length ?enc \<le> n"
    using run_call_logs [OF assms(4)] by (auto simp: logs_def)
  show ?thesis
  proof (cases "length ?enc \<le> n")
    case True
    with w1 w2 have "fdata w2 = wal_encode (?rs @ call_records c)" by simp
    with w1(2) assms(3) replay_log [of "?rs @ call_records c" w2 act s] show ?thesis
      by (intro exI [of _ True] exI [of _ "Inr ()"])
        (auto simp: torn_end_def replay_records_append replay_calls replay_call apply_batch_append)
  next
    case False
    then have n: "n < length ?enc" by simp
    have torn: "\<exists>t. torn_end t \<and> replay_loop act (take n ?enc) [] s' = (s', t)" for s'
    proof -
      from replay_loop_torn_log [OF assms(3) n, of act "[]" s'] obtain j t where
        j: "j < length (call_records c)" "torn_end t"
        "replay_loop act (take n ?enc) [] s' = seqR (replay_records act (take j (call_records c)) [] s') (\<lambda>s p. (s, t))"
        by blast
      from replay_call_prefix [OF j(1), of act s'] j(2,3) show ?thesis by auto
    qed
    have "replay act w2 s = seqR (apply_batch act (concat (map call_ops cs)) s)
        (\<lambda>s u. replay_loop act (take n ?enc) [] s)"
      using replay_loop_encode [OF w1(2), of act "take n ?enc" "[]" s] w1(1) w2(1)
      by (simp add: replay_def replay_calls)
    moreover obtain s1 q where "apply_batch act (concat (map call_ops cs)) s = (s1, q)" by fastforce
    moreover obtain t where "torn_end t" "replay_loop act (take n ?enc) [] s1 = (s1, t)" using torn by blast
    ultimately show ?thesis using w2(2) False
      by (intro exI [of _ False] exI [of _ t]) (cases q; simp)
  qed
qed

theorem wal_crash_atomic_witness:
  "\<exists>b t. torn_end t \<and>
     replay (\<lambda>op k v s. (s @ [(op, k, v)], Inr ()))
       (fst (run_call (CallTransaction 7 [\<lparr>Key = [1], Value = [2], Delete = False\<rparr>])
          \<lparr>fdata = [], faults = [IoOk, IoOk, IoFail 25]\<rparr>)) []
     = (if b then [(walPut, [1], [2])] else [], t)"
proof -
  let ?c = "CallTransaction 7 [\<lparr>Key = [1], Value = [2], Delete = False\<rparr>]"
    and ?act = "\<lambda>op k v s. (s @ [(op, k, v)], Inr ())"
  let ?w = "\<lparr>fdata = [], faults = [IoOk, IoOk, IoFail 25]\<rparr>"
  have "\<forall>q \<in> set (call_records ?c). rec_fits q"
    by (simp add: tx_records_def op_rec_def rec_fits_def)
  from wal_crash_atomic [OF _ _ this, of ?w "[]" ?w "fst (run_call ?c ?w)" "snd (run_call ?c ?w)" ?act "[]",
      simplified run_calls.simps prod.collapse]
  obtain b t where t: "torn_end t" "replay ?act (fst (run_call ?c ?w)) []
      = seqR (apply_batch ?act (concat (map call_ops []) @ (if b then call_ops ?c else [])) []) (\<lambda>s u. (s, t))"
    by fastforce
  have "seqR (apply_batch ?act (concat (map call_ops []) @ (if b then call_ops ?c else [])) []) (\<lambda>s u. (s, t))
      = (if b then [(walPut, [1], [2])] else [], t)" by simp
  with t show ?thesis by metis
qed

text \<open>C16: A log in which one byte of a record is changed, anywhere but in the two length fields, is
  replayed up to that record and then rejected: with the magic error for a byte of the magic,
  with the checksum error for the operation, the checksum or the body. Nothing of the damaged
  record or behind it is applied.\<close>

theorem wal_detects_corruption:
  assumes "\<forall>r \<in> set rs. rec_fits r" and "rec_fits (op, key, v)"
    and "i < length (wal_record op key v)" and "\<not> (9 \<le> i \<and> i < 17)"
    and "b \<noteq> wal_record op key v ! i"
    and "fdata w = wal_encode rs @ (wal_record op key v)[i := b] @ rest"
  shows "replay act w s =
    seqR (replay_records act rs [] s) (\<lambda>s p. (s, Inl (if i < 8 then ErrWalMagic else ErrWalChecksum)))"
  by (simp add: replay_def assms(6) replay_loop_encode [OF assms(1)] replay_corrupt [OF assms(2-5)])

theorem wal_detects_corruption_witness:
  "replay (\<lambda>op k v s. (s @ [(op, k, v)], Inr ())) (file_of ((wal_record walPut [1] [2])[22 := 3])) []
     = ([], Inl ErrWalChecksum)"
  using wal_detects_corruption [of "[]" walPut "[1]" "[2]" 22 3 "file_of ((wal_record walPut [1] [2])[22 := 3])" "[]"
      "\<lambda>op k v s. (s @ [(op, k, v)], Inr ())" "[]"]
  by (simp add: rec_fits_def file_of_def wal_record_header nth_append walHeader_def)

text \<open>C22: How the replay ends on a torn last record depends on where it was torn: within the
  header the tail is ignored, as the comment in the code says of an incomplete tail, but once
  the header is complete the replay, and with it the opening of the store, fails.\<close>

theorem wal_torn_tail:
  assumes "\<forall>r \<in> set rs. rec_fits r" and "rec_fits (op, key, v)" and "n < length (wal_record op key v)"
    and "fdata w = wal_encode rs @ take n (wal_record op key v)"
  shows "replay act w s =
    seqR (replay_records act rs [] s) (\<lambda>s p. (s, if n < walHeader then Inr () else Inl ErrWalLength))"
  by (simp add: replay_def assms(4) replay_loop_encode [OF assms(1)] replay_loop_torn [OF assms(2,3)])

theorem wal_torn_tail_witness:
  "replay (\<lambda>op k v s. (s @ [(op, k, v)], Inr ())) (file_of (take 22 (wal_record walPut [1] [2]))) []
     = ([], Inl ErrWalLength)"
  using wal_torn_tail [of "[]" walPut "[1]" "[2]" 22 "file_of (take 22 (wal_record walPut [1] [2]))"
      "\<lambda>op k v s. (s @ [(op, k, v)], Inr ())" "[]"]
  by (simp add: rec_fits_def file_of_def walHeader_def)

text \<open>C23: Operations of a transaction that never committed are applied after all when a later
  transaction reuses its ID: the replay keeps them pending and the later commit releases both
  batches, the abandoned one first.\<close>

theorem wal_reused_transaction_id:
  assumes "fdata w = []" and "append_ops tid ops1 w = (w1, Inr ())"
    and "appendTransaction tid ops2 w1 = (w2, Inr ())"
  shows "replay act w2 s = apply_batch act (ops1 @ ops2) s"
proof -
  let ?rs = "map (op_rec tid) ops1 @ tx_records tid ops2"
  have "fdata w2 = wal_encode ?rs" "\<forall>r \<in> set ?rs. rec_fits r"
    using append_ops_logs [OF assms(2)] appendTransaction_logs [OF assms(3)] assms(1)
    by (auto simp: logs_complete)
  from replay_log [OF this(2,1)] show ?thesis
    by (simp add: replay_records_append replay_op_recs replay_tx_records) (simp add: pending_ops_def)
qed

theorem wal_reused_transaction_id_witness:
  "\<exists>w1 w2. append_ops 1 [\<lparr>Key = [1], Value = [2], Delete = False\<rparr>] (file_of []) = (w1, Inr ()) \<and>
     appendTransaction 1 [] w1 = (w2, Inr ()) \<and>
     replay (\<lambda>op k v s. (s @ [(op, k, v)], Inr ())) w2 [] = ([(walPut, [1], [2])], Inr ())"
proof -
  let ?ops = "[\<lparr>Key = [1], Value = [2], Delete = False\<rparr>]"
  let ?w1 = "file_of (wal_record walTxPut (PutUint64 1 @ [1]) [2])"
  let ?w2 = "file_of (wal_record walTxPut (PutUint64 1 @ [1]) [2] @ wal_record walTxCommit (PutUint64 1) [])"
  have a: "append_ops 1 ?ops (file_of []) = (?w1, Inr ())"
    by (simp add: wal_append_fine file_of_def rec_fits_def)
  have b: "appendTransaction 1 [] ?w1 = (?w2, Inr ())"
    by (simp add: appendTransaction_def wal_append_fine file_of_def rec_fits_def)
  from wal_reused_transaction_id [OF _ a b, of "\<lambda>op k v s. (s @ [(op, k, v)], Inr ())" "[]"] a b
  show ?thesis by (simp add: file_of_def)
qed

end
