(* ===== verification/Page_Records.thy ===== *)
theory Page_Records
  imports Page WAL
begin

text \<open>
  The records of \<^verbatim>\<open>kv/store.go\<close> as they lie on a page: \<open>readRecord\<close>, \<open>writeRecord\<close> and the
  loop over the records of a page that \<open>validatePages\<close>, \<open>rebuildIndex\<close> and
  \<open>rebuildVersions\<close> share. \<open>page_has p rs\<close> says that page \<open>p\<close> holds the records \<open>rs\<close>;
  the lemmas show that writing appends to them and that the loop visits exactly them.
\<close>

section \<open>Definitions\<close>

definition flagLive :: u8 where "flagLive = 0"
definition flagTombstone :: u8 where "flagTombstone = 1"

definition recordHeaderSize :: nat where
  "recordHeaderSize = 5"

record kv_record =
  rec_flag :: u8
  rec_key :: bytes
  rec_value :: bytes
  rec_size :: nat

definition readRecord :: "bytes \<Rightarrow> u16 \<Rightarrow> kv_record result" where
  "readRecord data offset =
     (if unat offset + recordHeaderSize > length data then Inl (ErrRecordHeader offset)
      else
        (let flag = data ! unat offset;
             keyLen = unat (Uint16 (go_slice (unat (offset + 1)) (unat (offset + 3)) data));
             valLen = unat (Uint16 (go_slice (unat (offset + 3)) (unat (offset + 5)) data));
             start = unat offset + recordHeaderSize;
             stop = start + keyLen + valLen
         in if stop > length data then Inl (ErrRecordBody offset)
            else Inr \<lparr>rec_flag = flag, rec_key = go_slice start (start + keyLen) data,
                      rec_value = go_slice (start + keyLen) stop data,
                      rec_size = recordHeaderSize + keyLen + valLen\<rparr>))"

definition writeRecord :: "bytes \<Rightarrow> bytes \<Rightarrow> u8 \<Rightarrow> Page \<Rightarrow> Page result" where
  "writeRecord key val flag page =
     (let needed = recordHeaderSize + length key + length val
      in if Remaining page < int needed then Inl ErrPageFull
         else
           (let offset = FreeOffset page;
                data = (Data page)[unat offset := flag];
                data = go_copy (unat (offset + 1)) (PutUint16 (word_of_nat (length key))) data;
                data = go_copy (unat (offset + 3)) (PutUint16 (word_of_nat (length val))) data;
                start = unat offset + recordHeaderSize;
                data = go_copy start key data;
                data = go_copy (start + length key) val data
            in Inr (SetFreeOffset (offset + word_of_nat needed) (page\<lparr>Data := data\<rparr>))))"

text \<open>
  \<^verbatim>\<open>for off := uint16(HeaderSize); off < free;\<close> with a body that may change a state. A record
  size that wraps the 16-bit offset around would send the loop back; on a page that cannot
  happen (a record ends within the page), and the model marks it \<open>Diverge\<close>.
\<close>

function for_records ::
  "(kv_record \<Rightarrow> 's \<Rightarrow> ('s, unit) outcome) \<Rightarrow> bytes \<Rightarrow> u16 \<Rightarrow> u16 \<Rightarrow> 's \<Rightarrow> ('s, unit) outcome" where
  "for_records body data free off s =
     (if off < free then
        (case readRecord data off of
           Inl err \<Rightarrow> (s, Inl err)
         | Inr r \<Rightarrow>
             seqR (body r s) (\<lambda>s u.
               if off < off + word_of_nat (rec_size r)
               then for_records body data free (off + word_of_nat (rec_size r)) s
               else (s, Inl Diverge)))
      else (s, Inr ()))"
  by pat_completeness auto
termination
  by (relation "measure (\<lambda>(body, data, free, off, s). 2 ^ 16 - unat off)")
    (auto simp: word_less_nat_alt intro!: diff_less_mono2 unat_bound [where 'a = 16, simplified])

declare for_records.simps [simp del]

section \<open>Encoded records\<close>

type_synonym log_rec = "u8 \<times> bytes \<times> bytes"

definition encode_record :: "log_rec \<Rightarrow> bytes" where
  "encode_record r = (case r of (flag, key, val) \<Rightarrow>
     flag # PutUint16 (word_of_nat (length key)) @ PutUint16 (word_of_nat (length val)) @ key @ val)"

definition record_of :: "log_rec \<Rightarrow> kv_record" where
  "record_of r = (case r of (flag, key, val) \<Rightarrow>
     \<lparr>rec_flag = flag, rec_key = key, rec_value = val, rec_size = recordHeaderSize + length key + length val\<rparr>)"

definition rec_len :: "log_rec \<Rightarrow> nat" where
  "rec_len r = (case r of (flag, key, val) \<Rightarrow> recordHeaderSize + length key + length val)"

lemma length_encode_record [simp]: "length (encode_record r) = rec_len r"
  by (simp add: encode_record_def rec_len_def recordHeaderSize_def split: prod.splits)

lemma rec_size_record_of [simp]: "rec_size (record_of r) = rec_len r"
  by (simp add: record_of_def rec_len_def split: prod.splits)

text \<open>The page holds the records \<open>rs\<close> and nothing else.\<close>

definition page_has :: "Page \<Rightarrow> log_rec list \<Rightarrow> bool" where
  "page_has p rs \<longleftrightarrow>
     wf_page p \<and> HeaderID p = ID p \<and> HeaderSize \<le> unat (FreeOffset p) \<and> unat (FreeOffset p) \<le> PageSize \<and>
     go_slice HeaderSize (unat (FreeOffset p)) (Data p) = concat (map encode_record rs)"

lemma page_has_NewPage [simp]: "page_has (NewPage i) []"
  by (simp add: page_has_def go_slice_def page_consts)

lemma page_has_SetNextPageID [simp]: "page_has p rs \<Longrightarrow> page_has (SetNextPageID i p) rs"
  by (simp add: page_has_def)

lemma page_has_length:
  assumes "page_has p rs"
  shows "unat (FreeOffset p) = HeaderSize + sum_list (map rec_len rs)"
proof -
  have "length (go_slice HeaderSize (unat (FreeOffset p)) (Data p)) = sum_list (map rec_len rs)"
    using assms by (simp add: page_has_def length_concat o_def)
  then show ?thesis using assms unfolding length_slice page_has_def wf_page_def
    by (simp add: min_def split: if_splits)
qed

section \<open>Reading\<close>

lemma Uint16_take: "Uint16 (PutUint16 a @ bs) = a"
  using Uint16_PutUint16 [of a] by (simp add: Uint16_def)

text \<open>A record is read back from wherever its encoding lies.\<close>

lemma readRecord_encoded:
  assumes data: "drop (unat off) data = encode_record (flag, key, val) @ rest"
    and small: "length data \<le> PageSize"
  shows "readRecord data off = Inr (record_of (flag, key, val))"
proof -
  let ?o = "unat off"
  have len: "length data = ?o + recordHeaderSize + length key + length val + length rest"
  proof -
    have "length (drop ?o data) = rec_len (flag, key, val) + length rest" by (simp add: data)
    then show ?thesis by (simp add: rec_len_def recordHeaderSize_def)
  qed
  then have kv: "length key < 65536" "length val < 65536" and o: "?o + 5 \<le> 4096"
    using small by (simp_all add: PageSize_def recordHeaderSize_def)
  have u: "unat (off + 1) = ?o + 1" "unat (off + 3) = ?o + 3" "unat (off + 5) = ?o + 5"
    using o by (simp_all add: unat_word_ariths)
  have at: "go_slice (?o + i) (?o + j) data = go_slice i j (drop ?o data)" for i j
    by (simp add: go_slice_def add.commute)
  note enc = encode_record_def go_slice_def recordHeaderSize_def
  have "data ! ?o = flag" using data len nth_via_drop [of ?o data flag] by (simp add: encode_record_def)
  moreover have "go_slice (?o + 1) (?o + 3) data = PutUint16 (word_of_nat (length key))"
    "go_slice (?o + 3) (?o + 5) data = PutUint16 (word_of_nat (length val))"
    "go_slice (?o + 5) (?o + (5 + length key)) data = key"
    "go_slice (?o + (5 + length key)) (?o + (5 + length key + length val)) data = val"
    unfolding at data by (simp_all add: enc drop_Cons')
  moreover have "unat (word_of_nat (length key) :: u16) = length key" "unat (word_of_nat (length val) :: u16) = length val"
    using kv by (simp_all add: unat_of_nat)
  ultimately show ?thesis
    using len unfolding readRecord_def u by (simp add: Let_def record_of_def recordHeaderSize_def add.assoc)
qed

fun run_records :: "(kv_record \<Rightarrow> 's \<Rightarrow> ('s, unit) outcome) \<Rightarrow> log_rec list \<Rightarrow> 's \<Rightarrow> ('s, unit) outcome" where
  "run_records body [] s = (s, Inr ())"
| "run_records body (r # rs) s = seqR (body (record_of r) s) (\<lambda>s u. run_records body rs s)"

lemma run_records_append:
  "run_records body (rs @ qs) s = seqR (run_records body rs s) (\<lambda>s u. run_records body qs s)"
  by (induction body rs s rule: run_records.induct) auto

lemma rec_len_pos: "0 < rec_len r"
  by (simp add: rec_len_def recordHeaderSize_def split: prod.splits)

lemma for_records_encoded:
  assumes "drop (unat off) data = concat (map encode_record rs) @ rest" and "length data = PageSize"
    and "unat free = unat off + sum_list (map rec_len rs)"
  shows "for_records body data free off s = run_records body rs s"
  using assms
proof (induction rs arbitrary: off s)
  case Nil
  then show ?case by (subst for_records.simps) (simp add: word_less_nat_alt)
next
  case (Cons r rs)
  obtain flag key v where r: "r = (flag, key, v)" by (cases r)
  have d: "drop (unat off) data = encode_record r @ concat (map encode_record rs) @ rest" using Cons.prems(1) by simp
  have "PageSize - unat off = rec_len r + length (concat (map encode_record rs) @ rest)"
    using arg_cong [OF d, of length] Cons.prems(2) by simp
  then have "unat off + rec_len r \<le> PageSize" using rec_len_pos [of r] by linarith
  then have u: "unat (off + word_of_nat (rec_len r)) = unat off + rec_len r"
    by (simp add: PageSize_def unat_word_ariths unat_of_nat)
  have "readRecord data off = Inr (record_of r)"
    using readRecord_encoded [of off data flag key v] d Cons.prems(2) by (simp add: r)
  moreover have "off < free" "off < off + word_of_nat (rec_len r)"
    using Cons.prems(3) rec_len_pos [of r] u by (simp_all add: word_less_nat_alt)
  moreover have "for_records body data free (off + word_of_nat (rec_len r)) s' = run_records body rs s'" for s'
  proof (rule Cons.IH)
    have "drop (unat (off + word_of_nat (rec_len r))) data = drop (rec_len r) (drop (unat off) data)"
      by (simp add: u add.commute)
    then show "drop (unat (off + word_of_nat (rec_len r))) data = concat (map encode_record rs) @ rest"
      by (simp add: d)
  qed (use Cons.prems u in simp_all)
  ultimately show ?case by (subst for_records.simps) simp
qed

text \<open>The loop over a page visits the records the page holds, in the order they were written.\<close>

lemma for_records_page:
  assumes "page_has p rs"
  shows "for_records body (Data p) (FreeOffset p) (word_of_nat HeaderSize) s = run_records body rs s"
proof -
  have len: "length (Data p) = PageSize" using assms by (simp add: page_has_def wf_page_def)
  have h: "unat (word_of_nat HeaderSize :: u16) = HeaderSize" by (simp add: HeaderSize_def)
  have "drop HeaderSize (Data p) = go_slice HeaderSize (unat (FreeOffset p)) (Data p) @ drop (unat (FreeOffset p)) (Data p)"
    using assms append_take_drop_id [of "unat (FreeOffset p) - HeaderSize" "drop HeaderSize (Data p)"]
    by (simp add: page_has_def go_slice_def)
  with assms have "drop HeaderSize (Data p) = concat (map encode_record rs) @ drop (unat (FreeOffset p)) (Data p)"
    by (simp add: page_has_def)
  with page_has_length [OF assms] len h show ?thesis by (intro for_records_encoded) auto
qed

section \<open>Writing\<close>

lemma copy_copy:
  assumes "j = i + length xs" and "i + length xs + length ys \<le> length d"
  shows "go_copy j ys (go_copy i xs d) = go_copy i (xs @ ys) d"
  using assms by (simp add: go_copy_def add.commute add.left_commute)

lemma update_copy: "i < length d \<Longrightarrow> d[i := x] = go_copy i [x] d"
  by (simp add: go_copy_def upd_conv_take_nth_drop)

lemma Remaining_less: "Remaining p < int n \<longleftrightarrow> PageSize < unat (FreeOffset p) + n"
  unfolding Remaining_def by linarith

text \<open>The five writes of \<open>writeRecord\<close> lay down the encoded record.\<close>

lemma writeRecord_eq:
  assumes "wf_page p" and "unat (FreeOffset p) + rec_len (flag, key, v) \<le> PageSize"
  shows "writeRecord key v flag p =
    Inr (SetFreeOffset (FreeOffset p + word_of_nat (rec_len (flag, key, v)))
      (p\<lparr>Data := go_copy (unat (FreeOffset p)) (encode_record (flag, key, v)) (Data p)\<rparr>))"
proof -
  let ?o = "FreeOffset p"
  have o: "unat ?o + 5 + length key + length v \<le> 4096" "length (Data p) = 4096"
    using assms by (simp_all add: rec_len_def recordHeaderSize_def PageSize_def wf_page_def)
  have u: "unat (?o + 1) = unat ?o + 1" "unat (?o + 3) = unat ?o + 3"
    using o by (simp_all add: unat_word_ariths)
  have "\<not> Remaining p < int (recordHeaderSize + length key + length v)"
    using o unfolding Remaining_less by (simp add: PageSize_def recordHeaderSize_def)
  with o show ?thesis
    by (simp add: writeRecord_def Let_def u update_copy copy_copy encode_record_def rec_len_def recordHeaderSize_def add.assoc)
qed

lemma writeRecord_full:
  "PageSize < unat (FreeOffset p) + rec_len (flag, key, v) \<Longrightarrow> writeRecord key v flag p = Inl ErrPageFull"
  unfolding writeRecord_def Let_def Remaining_less by (simp add: rec_len_def)

lemma header_copy:
  assumes "wf_page p" and "HeaderSize \<le> i" and "i + length xs \<le> PageSize"
  shows "wf_page (p\<lparr>Data := go_copy i xs (Data p)\<rparr>)"
    "FreeOffset (p\<lparr>Data := go_copy i xs (Data p)\<rparr>) = FreeOffset p"
    "NextPageID (p\<lparr>Data := go_copy i xs (Data p)\<rparr>) = NextPageID p"
    "HeaderID (p\<lparr>Data := go_copy i xs (Data p)\<rparr>) = HeaderID p"
  using assms by (simp_all add: page_defs slice_copy_before)

lemma writeRecord_ok:
  assumes has: "page_has p rs" and fits: "unat (FreeOffset p) + rec_len r \<le> PageSize"
    and r: "r = (flag, key, v)"
  shows "\<exists>p'. writeRecord key v flag p = Inr p' \<and> page_has p' (rs @ [r]) \<and> ID p' = ID p \<and>
    NextPageID p' = NextPageID p"
proof -
  let ?o = "unat (FreeOffset p)" and ?q = "p\<lparr>Data := go_copy (unat (FreeOffset p)) (encode_record r) (Data p)\<rparr>"
  have p: "wf_page p" "HeaderSize \<le> ?o" "length (Data p) = PageSize" "?o \<le> PageSize"
    using has by (simp_all add: page_has_def wf_page_def)
  note q = header_copy [OF p(1,2), of "encode_record r", simplified, OF fits]
  have u: "unat (FreeOffset p + word_of_nat (rec_len r)) = ?o + rec_len r"
    using fits by (simp add: PageSize_def unat_word_ariths unat_of_nat)
  have "go_slice HeaderSize (?o + rec_len r) (Data ?q) = go_slice HeaderSize ?o (Data p) @ encode_record r"
  proof -
    have "drop HeaderSize (go_copy ?o (encode_record r) (Data p))
        = go_slice HeaderSize ?o (Data p) @ encode_record r @ drop (?o + rec_len r) (Data p)"
      using p by (simp add: go_copy_def go_slice_def drop_take)
    then show ?thesis using p fits by (simp add: go_slice_def)
  qed
  then have "page_has (SetFreeOffset (FreeOffset p + word_of_nat (rec_len r)) ?q) (rs @ [r])"
    using has q u fits p(2) by (simp add: page_has_def)
  with writeRecord_eq [OF p(1), of flag key v] fits q show ?thesis by (simp add: r)
qed

section \<open>Properties of page records\<close>

definition collect :: "kv_record \<Rightarrow> kv_record list \<Rightarrow> (kv_record list, unit) outcome" where
  "collect r acc = (acc @ [r], Inr ())"

lemma run_collect: "run_records collect rs acc = (acc @ map record_of rs, Inr ())"
  by (induction rs arbitrary: acc) (auto simp: collect_def)

text \<open>C15: Writing a record to a page either reports a full page, exactly when the record does not
  fit behind the records there, or succeeds; then scanning the page returns the old records and
  the new one last, with its flag, key and value.\<close>

theorem writeRecord_scan:
  assumes "page_has p rs"
  shows "if unat (FreeOffset p) + (5 + length key + length v) \<le> 4096
    then \<exists>p'. writeRecord key v flag p = Inr p' \<and> page_has p' (rs @ [(flag, key, v)]) \<and>
      NextPageID p' = NextPageID p \<and>
      for_records collect (Data p') (FreeOffset p') 16 [] = (map record_of (rs @ [(flag, key, v)]), Inr ())
    else writeRecord key v flag p = Inl ErrPageFull"
proof (cases "unat (FreeOffset p) + rec_len (flag, key, v) \<le> PageSize")
  case True
  from writeRecord_ok [OF assms this refl] for_records_page [of _ "rs @ [(flag, key, v)]" collect "[]"] True
  show ?thesis by (auto simp: run_collect rec_len_def recordHeaderSize_def page_consts)
next
  case False
  with writeRecord_full [of p flag key v] show ?thesis
    by (simp add: rec_len_def recordHeaderSize_def PageSize_def)
qed

theorem writeRecord_scan_witness:
  "\<exists>p'. writeRecord [1] [2, 3] 0 (NewPage 7) = Inr p' \<and>
     for_records collect (Data p') (FreeOffset p') 16 [] = ([record_of (0, [1], [2, 3])], Inr ())"
  using writeRecord_scan [OF page_has_NewPage, of 7 "[1]" "[2, 3]" 0] by auto

end
