(* ===== verification/Store.thy ===== *)
theory Store
  imports Pager BTree_Correct Page_Records
begin

text \<open>
  The key/value store of \<^verbatim>\<open>kv/store.go\<close>: the page chain of the pager as an append-only log of
  records, the B+Tree index with its file, the write-ahead log, and the versions that snapshots
  read. Every operation returns the state it leaves behind and its error or result.

  The index file is what \<^verbatim>\<open>gob\<close> decodes from it: nothing, a list of entries, or something that
  does not decode. Writing it (a temporary file and a rename) may fail at either call, and the
  old file then stays. Where the source ranges over a map, the order is an argument:
  \<open>rng\<close> gives the order in which a flush visits the buffer pool. The loops along the page
  chain read at most as many pages as the file has: a longer walk is a cycle, on which the Go
  loop does not end (\<open>Diverge\<close>). Pages are values: each change to a page is followed by
  \<^verbatim>\<open>WritePage\<close> in the source, and by \<open>WritePage\<close> here.
\<close>

section \<open>State\<close>

record version =
  v_seq :: u64
  v_value :: bytes
  v_found :: bool

datatype index_data = NoIndex | IndexEntries "entry list" | IndexCorrupt

record index_file =
  idx_data :: index_data
  idx_faults :: "io_outcome list"

record Store =
  pager :: Pager
  firstPage :: u32
  hasPages :: bool
  index :: btree
  wal :: os_file
  idx :: index_file
  seq :: u64
  versions :: "(bytes \<times> version list) list"
  activeSnapshots :: u64

record StoreStats =
  st_BufferPool :: BufferPoolStats
  st_PageCount :: u32
  st_WALSize :: nat

record disk =
  dbf :: os_file
  walf :: os_file
  idxf :: index_file

definition disk_of :: "Store \<Rightarrow> disk" where
  "disk_of s = \<lparr>dbf = dbfile (pager s), walf = wal s, idxf = idx s\<rparr>"

type_synonym 'a store_op = "Store \<Rightarrow> (Store, 'a) outcome"
type_synonym range_order = "BufferPool \<Rightarrow> u32 list"

section \<open>Parts of the state\<close>

definition on_pager :: "(Pager \<Rightarrow> (Pager, 'a) outcome) \<Rightarrow> 'a store_op" where
  "on_pager f s = (case f (pager s) of (p, r) \<Rightarrow> (s\<lparr>pager := p\<rparr>, r))"

definition on_wal :: "(os_file \<Rightarrow> (os_file, 'a) outcome) \<Rightarrow> 'a store_op" where
  "on_wal f s = (case f (wal s) of (w, r) \<Rightarrow> (s\<lparr>wal := w\<rparr>, r))"

definition on_idx :: "(index_file \<Rightarrow> (index_file, 'a) outcome) \<Rightarrow> 'a store_op" where
  "on_idx f s = (case f (idx s) of (i, r) \<Rightarrow> (s\<lparr>idx := i\<rparr>, r))"

definition ctx :: "string \<Rightarrow> ('s, 'a) outcome \<Rightarrow> ('s, 'a) outcome" where
  "ctx c m = (case m of (s, Inl err) \<Rightarrow> (s, Inl (ErrCtx c err)) | (s, Inr a) \<Rightarrow> (s, Inr a))"

definition write_page :: "Page \<Rightarrow> unit store_op" where
  "write_page page = on_pager (\<lambda>p. check [] (WritePage page p))"

definition index_put :: "bytes \<Rightarrow> bytes \<Rightarrow> unit store_op" where
  "index_put key v s =
     (case btree_put (index s) key v of None \<Rightarrow> (s, Inl Panic) | Some t \<Rightarrow> (s\<lparr>index := t\<rparr>, Inr ()))"

definition index_delete :: "bytes \<Rightarrow> unit store_op" where
  "index_delete key s =
     (case btree_delete (index s) key of None \<Rightarrow> (s, Inl Panic) | Some (t, b) \<Rightarrow> (s\<lparr>index := t\<rparr>, Inr ()))"

definition versions_of :: "bytes \<Rightarrow> Store \<Rightarrow> version list" where
  "versions_of key s = (case map_of (versions s) key of None \<Rightarrow> [] | Some vs \<Rightarrow> vs)"

definition add_version :: "bytes \<Rightarrow> bytes \<Rightarrow> bool \<Rightarrow> Store \<Rightarrow> Store" where
  "add_version key v found s =
     s\<lparr>seq := seq s + 1,
       versions := AList.update key
         (versions_of key s @ [\<lparr>v_seq = seq s + 1, v_value = v, v_found = found\<rparr>]) (versions s)\<rparr>"

section \<open>The index file\<close>

definition idx_call :: "index_file \<Rightarrow> index_file \<times> db_error option" where
  "idx_call i =
     (i\<lparr>idx_faults := tl (idx_faults i)\<rparr>,
      case idx_faults i of IoFail n # _ \<Rightarrow> Some ErrIO | _ \<Rightarrow> None)"

definition saveIndex :: "unit store_op" where
  "saveIndex s =
     (case btree_entries (index s) of
        None \<Rightarrow> (s, Inl Panic)
      | Some es \<Rightarrow>
          seqR (on_idx (\<lambda>i. check ''write index'' (idx_call i)) s) (\<lambda>s u.
          seqR (on_idx (\<lambda>i. check ''replace index'' (idx_call i)) s) (\<lambda>s u.
          (s\<lparr>idx := (idx s)\<lparr>idx_data := IndexEntries es\<rparr>\<rparr>, Inr ()))))"

definition loadIndex :: "bool store_op" where
  "loadIndex s =
     (case idx_data (idx s) of
        NoIndex \<Rightarrow> (s, Inr False)
      | IndexCorrupt \<Rightarrow> (s, Inl ErrIndexDecode)
      | IndexEntries es \<Rightarrow>
          (case put_all es (index s) of
             None \<Rightarrow> (s, Inl Panic)
           | Some t \<Rightarrow> (s\<lparr>index := t\<rparr>, Inr True)))"

section \<open>Appending\<close>

fun last_from :: "nat \<Rightarrow> Page \<Rightarrow> Page store_op" where
  "last_from n page s =
     (if NextPageID page = NoPage then (s, Inr page)
      else (case n of
              0 \<Rightarrow> (s, Inl Diverge)
            | Suc m \<Rightarrow> seqR (on_pager (ReadPage (NextPageID page)) s) (\<lambda>s page. last_from m page s)))"

declare last_from.simps [simp del]

definition lastPage :: "Page store_op" where
  "lastPage s =
     (if \<not> hasPages s then
        seqR (on_pager AllocatePage s) (\<lambda>s page. (s\<lparr>firstPage := ID page, hasPages := True\<rparr>, Inr page))
      else
        seqR (on_pager (ReadPage (firstPage s)) s) (\<lambda>s page.
          last_from (unat (numPages (pager s))) page s))"

definition append_record :: "bytes \<Rightarrow> bytes \<Rightarrow> u8 \<Rightarrow> unit store_op" where
  "append_record key v flag s =
     seqR (lastPage s) (\<lambda>s lp.
       case writeRecord key v flag lp of
         Inl err \<Rightarrow>
           seqR (on_pager AllocatePage s) (\<lambda>s new.
             case writeRecord key v flag new of
               Inl err \<Rightarrow> (s, Inl (ErrCtx ''record too large for an empty page'' err))
             | Inr new' \<Rightarrow>
                 seqR (write_page (SetNextPageID (ID new') lp) s) (\<lambda>s u.
                 seqR (write_page new' s) (\<lambda>s u.
                 seqR (if flag = flagLive then index_put key v s else index_delete key s) (\<lambda>s u.
                 saveIndex s))))
       | Inr lp' \<Rightarrow>
           seqR (write_page lp' s) (\<lambda>s u.
           seqR (if flag = flagLive then index_put key v s else (s, Inr ())) (\<lambda>s u.
           saveIndex s)))"

definition store_append :: "bytes \<Rightarrow> bytes \<Rightarrow> u8 \<Rightarrow> unit store_op" where
  "store_append key v flag s = append_record key v flag (add_version key v (flag = flagLive) s)"

definition store_Put :: "bytes \<Rightarrow> bytes \<Rightarrow> unit store_op" where
  "store_Put key v s =
     seqR (on_wal (wal_append walPut key v) s) (\<lambda>s u. store_append key v flagLive s)"

definition store_Delete :: "bytes \<Rightarrow> unit store_op" where
  "store_Delete key s =
     seqR (on_wal (wal_append walDelete key []) s) (\<lambda>s u.
     seqR (store_append key [] flagTombstone s) (\<lambda>s u.
     seqR (index_delete key s) (\<lambda>s u.
     saveIndex s)))"

fun batch_appends :: "BatchOp list \<Rightarrow> unit store_op" where
  "batch_appends [] s = (s, Inr ())"
| "batch_appends (op # ops) s =
     seqR (store_append (Key op) (Value op) (if Delete op then flagTombstone else flagLive) s) (\<lambda>s u.
     seqR (if Delete op then index_delete (Key op) s else (s, Inr ())) (\<lambda>s u.
     batch_appends ops s))"

definition ApplyBatch :: "u64 \<Rightarrow> BatchOp list \<Rightarrow> unit store_op" where
  "ApplyBatch tid ops s =
     seqR (on_wal (appendTransaction tid ops) s) (\<lambda>s u.
     seqR (batch_appends ops s) (\<lambda>s u.
     saveIndex s))"

section \<open>Reading\<close>

definition store_Get :: "bytes \<Rightarrow> Store \<Rightarrow> bytes option result" where
  "store_Get key s = (case btree_get (index s) key of None \<Rightarrow> Inl Panic | Some v \<Rightarrow> Inr v)"

definition BeginSnapshot :: "Store \<Rightarrow> Store \<times> u64" where
  "BeginSnapshot s = (s\<lparr>activeSnapshots := activeSnapshots s + 1\<rparr>, seq s)"

definition ReleaseSnapshot :: "u64 \<Rightarrow> Store \<Rightarrow> Store" where
  "ReleaseSnapshot snapshot s =
     (if activeSnapshots s > 0 then s\<lparr>activeSnapshots := activeSnapshots s - 1\<rparr> else s)"

definition ChangedSince :: "u64 \<Rightarrow> bytes \<Rightarrow> Store \<Rightarrow> bool" where
  "ChangedSince snapshot key s =
     (let vs = versions_of key s in vs \<noteq> [] \<and> v_seq (last vs) > snapshot)"

text \<open>The newest version that is not newer than the snapshot; the list is searched from its end.\<close>

definition visible :: "u64 \<Rightarrow> version list \<Rightarrow> version option" where
  "visible snapshot vs = find (\<lambda>v. v_seq v \<le> snapshot) (rev vs)"

definition store_GetAt :: "u64 \<Rightarrow> bytes \<Rightarrow> Store \<Rightarrow> bytes option" where
  "store_GetAt snapshot key s =
     (case visible snapshot (versions_of key s) of
        None \<Rightarrow> None
      | Some v \<Rightarrow> if v_found v then Some (v_value v) else None)"

definition KeysAt :: "bytes list \<Rightarrow> u64 \<Rightarrow> Store \<Rightarrow> bytes list" where
  "KeysAt ord snapshot s =
     filter (\<lambda>key. case visible snapshot (versions_of key s) of None \<Rightarrow> False | Some v \<Rightarrow> v_found v) ord"

definition store_Stats :: "Store \<Rightarrow> StoreStats" where
  "store_Stats s =
     \<lparr>st_BufferPool = pager_BufferPoolStats (pager s), st_PageCount = NumPages (pager s),
      st_WALSize = wal_size (wal s)\<rparr>"

section \<open>Checking and rebuilding\<close>

definition validatePage :: "u32 \<Rightarrow> unit store_op" where
  "validatePage pid s =
     seqR (on_pager (ReadPage pid) s) (\<lambda>s page.
       let free = FreeOffset page; next = NextPageID page
       in if HeaderID page \<noteq> pid then (s, Inl (ErrPageID pid))
          else if unat free < HeaderSize \<or> unat free > PageSize then (s, Inl (ErrFreeOffset pid free))
          else if next \<noteq> NoPage \<and> next \<ge> NumPages (pager s) then (s, Inl (ErrNextPage pid next))
          else ctx ''page'' (for_records (\<lambda>r s. (s, Inr ())) (Data page) free (word_of_nat HeaderSize) s))"

fun validate_ids :: "u32 list \<Rightarrow> unit store_op" where
  "validate_ids [] s = (s, Inr ())"
| "validate_ids (pid # ids) s = seqR (validatePage pid s) (\<lambda>s u. validate_ids ids s)"

definition validatePages :: "unit store_op" where
  "validatePages s = validate_ids (map word_of_nat [0..<unat (NumPages (pager s))]) s"

fun check_entries :: "entry list \<Rightarrow> unit store_op" where
  "check_entries [] s = (s, Inr ())"
| "check_entries ((key, v) # es) s =
     (case store_Get key s of
        Inl err \<Rightarrow> (s, Inl err)
      | Inr found \<Rightarrow> if found = Some v then check_entries es s else (s, Inl (ErrIndexMismatch key)))"

definition CheckInvariants :: "unit store_op" where
  "CheckInvariants s =
     seqR (validatePages s) (\<lambda>s u.
       case btree_entries (index s) of None \<Rightarrow> (s, Inl Panic) | Some es \<Rightarrow> check_entries es s)"

fun for_chain :: "nat \<Rightarrow> (Page \<Rightarrow> unit store_op) \<Rightarrow> u32 \<Rightarrow> unit store_op" where
  "for_chain 0 body pid s = (s, Inl Diverge)"
| "for_chain (Suc n) body pid s =
     seqR (on_pager (ReadPage pid) s) (\<lambda>s p.
     seqR (body p s) (\<lambda>s u.
       if NextPageID p = NoPage then (s, Inr ()) else for_chain n body (NextPageID p) s))"

definition version_record :: "kv_record \<Rightarrow> unit store_op" where
  "version_record r s = (add_version (rec_key r) (rec_value r) (rec_flag r = flagLive) s, Inr ())"

definition index_record :: "kv_record \<Rightarrow> unit store_op" where
  "index_record r s =
     seqR (if rec_flag r = flagTombstone then index_delete (rec_key r) s
           else index_put (rec_key r) (rec_value r) s)
       (\<lambda>s u. version_record r s)"

definition rebuildIndex :: "unit store_op" where
  "rebuildIndex s =
     for_chain (Suc (unat (numPages (pager s))))
       (\<lambda>p. for_records index_record (Data p) (FreeOffset p) (word_of_nat HeaderSize)) (firstPage s) s"

definition rebuildVersions :: "unit store_op" where
  "rebuildVersions s =
     for_chain (Suc (unat (numPages (pager s))))
       (\<lambda>p. for_records version_record (Data p) (FreeOffset p) (word_of_nat HeaderSize)) (firstPage s) s"

section \<open>Opening, flushing and closing\<close>

definition replay_apply :: "Store apply_op" where
  "replay_apply op key v = store_append key v (if op = walDelete then flagTombstone else flagLive)"

definition open_steps :: "unit store_op" where
  "open_steps s =
     seqR (ctx ''validate database'' (validatePages s)) (\<lambda>s u.
     seqR (ctx ''load index'' (loadIndex s)) (\<lambda>s indexLoaded.
     seqR (ctx ''WAL recovery'' (replay replay_apply (wal s) s)) (\<lambda>s u.
     seqR (if NumPages (pager s) > 0 \<and> \<not> indexLoaded
           then rebuildIndex (s\<lparr>firstPage := 0, hasPages := True\<rparr>) else (s, Inr ())) (\<lambda>s u.
     seqR (if NumPages (pager s) > 0 \<and> indexLoaded then rebuildVersions s else (s, Inr ())) (\<lambda>s u.
     if \<not> indexLoaded then saveIndex s else (s, Inr ()))))))"

definition fresh_store :: "Pager \<Rightarrow> disk \<Rightarrow> Store" where
  "fresh_store p d =
     \<lparr>pager = p, firstPage = 0, hasPages = False, index = empty_btree, wal = walf d, idx = idxf d,
      seq = 0, versions = [], activeSnapshots = 0\<rparr>"

definition close_pager :: "range_order \<Rightarrow> Store \<Rightarrow> Store" where
  "close_pager rng s = s\<lparr>pager := fst (pager_Close (rng (pool (pager s))) (pager s))\<rparr>"

definition store_Open :: "range_order \<Rightarrow> disk \<Rightarrow> disk \<times> Store result" where
  "store_Open rng d =
     (case pager_Open (dbf d) of
        Inl err \<Rightarrow> (d, Inl err)
      | Inr p \<Rightarrow>
          (case open_steps (fresh_store p d) of
             (s, Inl err) \<Rightarrow> (disk_of (close_pager rng s), Inl err)
           | (s, Inr u) \<Rightarrow> (disk_of s, Inr s)))"

definition flush_pager :: "range_order \<Rightarrow> unit store_op" where
  "flush_pager rng = on_pager (\<lambda>p. check [] (pager_Flush (rng (pool p)) p))"

definition sync_pager :: "unit store_op" where
  "sync_pager = on_pager (\<lambda>p. check [] (pager_Sync p))"

definition store_Flush :: "range_order \<Rightarrow> unit store_op" where
  "store_Flush rng s =
     seqR (flush_pager rng s) (\<lambda>s u.
     seqR (sync_pager s) (\<lambda>s u.
     seqR (saveIndex s) (\<lambda>s u.
     on_wal wal_clear s)))"

definition store_Close :: "range_order \<Rightarrow> unit store_op" where
  "store_Close rng s =
     seqR (flush_pager rng s) (\<lambda>s u.
     seqR (sync_pager s) (\<lambda>s u.
     seqR (saveIndex s) (\<lambda>s u.
     seqR (on_wal wal_clear s) (\<lambda>s u.
     on_pager (\<lambda>p. check [] (pager_Close (rng (pool p)) p)) s))))"

section \<open>Compaction\<close>

text \<open>
  The outcomes of the file system calls a compaction makes beside the page file's: removing an
  old temporary file, and the rename; \<open>tmp_faults\<close> are those of the new page file. Opening the page file
  again, after the rename or after its failure, fails only for a file whose size is not a number of
  pages, and the files here were just closed without error. In the source such a failure would leave
  the store without a pager; here the error is returned with the old one.
\<close>

record compact_io =
  remove_fails :: bool
  rename_fails :: bool
  tmp_faults :: "io_outcome list"

definition compact_entry :: "entry \<Rightarrow> Pager \<times> Page option \<Rightarrow> (Pager \<times> Page option, unit) outcome" where
  "compact_entry e st =
     (case e of (key, v) \<Rightarrow>
      seqR (case snd st of
              Some lp \<Rightarrow> (st, Inr lp)
            | None \<Rightarrow> (case AllocatePage (fst st) of (p, r) \<Rightarrow> ((p, None), r)))
        (\<lambda>st lp.
          case writeRecord key v flagLive lp of
            Inr lp' \<Rightarrow> ((fst st, Some lp'), Inr ())
          | Inl err \<Rightarrow>
              (case AllocatePage (fst st) of
                 (p, Inl err) \<Rightarrow> ((p, None), Inl err)
               | (p, Inr new) \<Rightarrow>
                   seqR (case check [] (WritePage (SetNextPageID (ID new) lp) p) of (p, r) \<Rightarrow> ((p, Some new), r))
                     (\<lambda>st u. case writeRecord key v flagLive new of
                               Inl err \<Rightarrow> (st, Inl err)
                             | Inr new' \<Rightarrow> ((fst st, Some new'), Inr ())))))"

fun compact_entries :: "entry list \<Rightarrow> Pager \<times> Page option \<Rightarrow> (Pager \<times> Page option, unit) outcome" where
  "compact_entries [] st = (st, Inr ())"
| "compact_entries (e # es) st = seqR (compact_entry e st) (\<lambda>st u. compact_entries es st)"

definition compact_finish :: "range_order \<Rightarrow> Page option \<Rightarrow> Pager \<Rightarrow> (Pager, unit) outcome" where
  "compact_finish rng lp p =
     (case seqR (case lp of None \<Rightarrow> (p, Inr ()) | Some page \<Rightarrow> check [] (WritePage page p)) (\<lambda>p u.
           seqR (check [] (pager_Flush (rng (pool p)) p)) (\<lambda>p u.
           check [] (pager_Sync p)))
      of (p, r) \<Rightarrow>
        (case check [] (pager_Close (rng (pool p)) p) of
           (p, c) \<Rightarrow> (p, case r of Inl err \<Rightarrow> Inl err | Inr u \<Rightarrow> c)))"

definition Compact :: "range_order \<Rightarrow> compact_io \<Rightarrow> unit store_op" where
  "Compact rng io s =
     (if activeSnapshots s > 0 then (s, Inl ErrSnapshotsActive)
      else if remove_fails io then (s, Inl ErrIO)
      else
        (case pager_Open \<lparr>fdata = [], faults = tmp_faults io\<rparr> of
           Inl err \<Rightarrow> (s, Inl err)
         | Inr np \<Rightarrow>
             (case btree_entries (index s) of
                None \<Rightarrow> (s, Inl Panic)
              | Some es \<Rightarrow>
                  (case compact_entries es (np, None) of
                     ((np, lp), Inl err) \<Rightarrow> (s, Inl err)
                   | ((np, lp), Inr u) \<Rightarrow>
                       (case compact_finish rng lp np of
                          (np, Inl err) \<Rightarrow> (s, Inl err)
                        | (np, Inr u) \<Rightarrow>
                            seqR (on_pager (\<lambda>p. check [] (pager_Close (rng (pool p)) p)) s) (\<lambda>s u.
                              if rename_fails io then
                                (case pager_Open (dbfile (pager s)) of
                                   Inl err \<Rightarrow> (s, Inl ErrIO)
                                 | Inr p \<Rightarrow> (s\<lparr>pager := p\<rparr>, Inl ErrIO))
                              else
                                (case pager_Open (dbfile np) of
                                   Inl err \<Rightarrow> (s, Inl err)
                                 | Inr p \<Rightarrow>
                                     on_wal wal_clear
                                       (s\<lparr>pager := p, firstPage := 0, hasPages := (lp \<noteq> None)\<rparr>))))))))"

end
