(* ===== verification/Store_Snapshots.thy ===== *)
theory Store_Snapshots
  imports Store
begin

text \<open>
  Snapshot reads of the store. A version is added in one place, \<open>add_version\<close>, with a
  sequence number above every number handed out before; nothing else changes the versions.
  So a snapshot keeps reading the same values whatever writes follow it, also when these
  fail halfway: the lemmas need no invariant of the pages, the index or the files.
\<close>

section \<open>Frames\<close>

text \<open>An operation moves the state within a relation, whether it succeeds or fails.\<close>

definition within :: "('s \<Rightarrow> 's \<Rightarrow> bool) \<Rightarrow> ('s \<Rightarrow> ('s, 'a) outcome) \<Rightarrow> bool" where
  "within R f \<longleftrightarrow> (\<forall>s. R s (fst (f s)))"

lemma within_seqR:
  assumes "transp R" and "within R f" and "\<And>a. within R (\<lambda>s. g s a)"
  shows "within R (\<lambda>s. seqR (f s) g)"
proof -
  have "R s (fst (seqR (f s) g))" for s
  proof (cases "f s")
    case (Pair s1 r)
    with assms(2) have 1: "R s s1" by (simp add: within_def) (metis fst_conv)
    show ?thesis
    proof (cases r)
      case (Inr a)
      have "R s1 (fst (g s1 a))" using assms(3) by (simp add: within_def)
      with 1 Pair Inr assms(1) show ?thesis by (simp add: seqR_def) (meson transpE)
    qed (use Pair 1 in simp)
  qed
  then show ?thesis by (simp add: within_def)
qed

lemma withinD: "within R f \<Longrightarrow> f s = (s', r) \<Longrightarrow> R s s'"
  by (auto simp: within_def) (metis fst_conv)

definition same_history :: "Store \<Rightarrow> Store \<Rightarrow> bool" where
  "same_history s s' \<longleftrightarrow>
     seq s' = seq s \<and> versions s' = versions s \<and> activeSnapshots s' = activeSnapshots s"

lemma same_history_trans: "transp same_history"
  by (auto simp: transp_def same_history_def)

named_theorems history_frames \<open>operations that leave the versions alone\<close>

lemma return_frame [history_frames]: "within same_history (\<lambda>s. (s, r))"
  by (simp add: within_def same_history_def)

lemma part_frames [history_frames]:
  "within same_history (on_pager f)" "within same_history (on_wal g)" "within same_history (on_idx h)"
  "within same_history (write_page page)" "within same_history (index_put key v)"
  "within same_history (index_delete key)" "within same_history (flush_pager rng)" "within same_history sync_pager"
  by (auto simp: within_def same_history_def on_pager_def on_wal_def on_idx_def write_page_def index_put_def
      index_delete_def flush_pager_def sync_pager_def split: prod.splits option.splits)

lemmas frame_seq = within_seqR [OF same_history_trans]

lemma saveIndex_frame [history_frames]: "within same_history saveIndex"
proof -
  have "same_history s (fst (saveIndex s))" for s
    by (auto simp: saveIndex_def same_history_def on_idx_def seqR_def split: option.splits prod.splits sum.splits)
  then show ?thesis by (simp add: within_def)
qed

lemma last_from_frame [history_frames]: "within same_history (last_from n page)"
proof (induction n arbitrary: page)
  case 0
  then show ?case by (auto simp: within_def same_history_def last_from.simps)
next
  case (Suc n)
  have "within same_history (\<lambda>s. seqR (on_pager (ReadPage (NextPageID page)) s) (\<lambda>s page. last_from n page s))"
    by (intro frame_seq part_frames) (use Suc in \<open>simp add: within_def\<close>)
  then show ?case by (auto simp: within_def last_from.simps [of "Suc n"] same_history_def)
qed

lemma lastPage_frame [history_frames]: "within same_history lastPage"
proof -
  have "within same_history (\<lambda>s. seqR (on_pager AllocatePage s)
      (\<lambda>s page. (s\<lparr>firstPage := ID page, hasPages := True\<rparr>, Inr page)))"
    by (intro frame_seq part_frames) (simp add: within_def same_history_def)
  moreover have "within same_history (\<lambda>s. seqR (on_pager (ReadPage (firstPage s0)) s)
      (\<lambda>s page. last_from (unat (numPages (pager s))) page s))" for s0
    by (intro frame_seq part_frames) (use last_from_frame in \<open>auto simp: within_def\<close>)
  ultimately show ?thesis by (auto simp: within_def lastPage_def)
qed

lemma index_step_frame [history_frames]:
  "within same_history (\<lambda>s. if b then index_put key v s else index_delete key s)"
  "within same_history (\<lambda>s. if b then index_put key v s else (s, Inr ()))"
  "within same_history (\<lambda>s. if b then index_delete key s else (s, Inr ()))"
  by (cases b; simp add: history_frames)+

lemma within_case:
  "(\<And>x. within R (\<lambda>s. f s x)) \<Longrightarrow> (\<And>y. within R (\<lambda>s. g s y)) \<Longrightarrow>
     within R (\<lambda>s. case e of Inl x \<Rightarrow> f s x | Inr y \<Rightarrow> g s y)"
  by (cases e) auto

lemma append_record_frame: "within same_history (append_record key v flag)"
proof -
  have "within same_history (\<lambda>s. append_record key v flag s)"
    unfolding append_record_def by (intro frame_seq within_case history_frames)
  then show ?thesis by simp
qed

section \<open>Histories only grow\<close>

text \<open>
  From \<open>s\<close> to \<open>s'\<close> at most \<open>n\<close> versions were added, all with sequence numbers above the one
  of \<open>s\<close>, and the numbers did not wrap around.
\<close>

definition extends :: "nat \<Rightarrow> Store \<Rightarrow> Store \<Rightarrow> bool" where
  "extends n s s' \<longleftrightarrow>
     unat (seq s) \<le> unat (seq s') \<and> unat (seq s') \<le> unat (seq s) + n \<and>
     (\<forall>key. \<exists>ws. versions_of key s' = versions_of key s @ ws \<and> (\<forall>w \<in> set ws. seq s < v_seq w))"

lemma extends_same: "same_history s s' \<Longrightarrow> extends n s s'"
  by (simp add: extends_def same_history_def versions_of_def)

lemma extends_trans:
  assumes "extends m s s1" and "extends n s1 s'"
  shows "extends (m + n) s s'"
proof -
  have "\<exists>ws. versions_of key s' = versions_of key s @ ws \<and> (\<forall>w \<in> set ws. seq s < v_seq w)" for key
  proof -
    from assms obtain us ws where
      "versions_of key s1 = versions_of key s @ us" "\<forall>w \<in> set us. seq s < v_seq w"
      "versions_of key s' = versions_of key s1 @ ws" "\<forall>w \<in> set ws. seq s1 < v_seq w"
      unfolding extends_def by metis
    moreover have "seq s \<le> seq s1" using assms(1) by (simp add: extends_def word_le_nat_alt)
    ultimately show ?thesis by (intro exI [of _ "us @ ws"]) (auto intro: le_less_trans)
  qed
  with assms show ?thesis by (auto simp: extends_def)
qed

lemma extends_mono: "extends m s s' \<Longrightarrow> m \<le> n \<Longrightarrow> extends n s s'"
  by (auto simp: extends_def)

lemma versions_of_add:
  "versions_of k (add_version key v found s) =
     (if k = key then versions_of key s @ [\<lparr>v_seq = seq s + 1, v_value = v, v_found = found\<rparr>] else versions_of k s)"
  by (auto simp: versions_of_def add_version_def)

lemma extends_append:
  assumes "unat (seq s) + 1 < 2 ^ 64"
  shows "extends 1 s (fst (store_append key v flag s))"
proof -
  let ?s1 = "add_version key v (flag = flagLive) s"
  have u: "unat (seq s + 1) = unat (seq s) + 1" using assms by (simp add: unat_word_ariths)
  then have "seq s < seq s + 1" by (simp add: word_less_nat_alt)
  with u have "extends 1 s ?s1" by (auto simp: extends_def versions_of_add) (simp_all add: add_version_def)
  moreover have "extends 0 ?s1 (fst (store_append key v flag s))"
    using append_record_frame by (auto simp: store_append_def within_def intro: extends_same)
  ultimately show ?thesis using extends_trans by fastforce
qed

lemma extends_refl [simp]: "extends n s s"
  by (simp add: extends_same same_history_def)

lemma extends_seqR:
  assumes "extends m s (fst x)" and "\<And>s1 a. x = (s1, Inr a) \<Longrightarrow> extends n s1 (fst (g s1 a))"
  shows "extends (m + n) s (fst (seqR x g))"
proof (cases x)
  case (Pair s1 r)
  show ?thesis
  proof (cases r)
    case (Inl err)
    with assms(1) Pair show ?thesis by (auto intro: extends_mono)
  next
    case (Inr a)
    with assms(2) [of s1 a] assms(1) Pair show ?thesis by (auto intro: extends_trans)
  qed
qed

lemma extends_frame: "within same_history f \<Longrightarrow> extends n s (fst (f s))"
  by (simp add: within_def extends_same)

section \<open>Clients\<close>

datatype store_call =
    DoPut bytes bytes
  | DoDelete bytes
  | DoBatch u64 "BatchOp list"
  | DoBegin
  | DoRelease u64
  | DoFlush range_order
  | DoCompact range_order compact_io

fun exec_call :: "store_call \<Rightarrow> unit store_op" where
  "exec_call (DoPut key v) s = store_Put key v s"
| "exec_call (DoDelete key) s = store_Delete key s"
| "exec_call (DoBatch tid ops) s = ApplyBatch tid ops s"
| "exec_call DoBegin s = (fst (BeginSnapshot s), Inr ())"
| "exec_call (DoRelease snapshot) s = (ReleaseSnapshot snapshot s, Inr ())"
| "exec_call (DoFlush rng) s = store_Flush rng s"
| "exec_call (DoCompact rng io) s = Compact rng io s"

text \<open>A client that goes on after an error.\<close>

fun exec_calls :: "store_call list \<Rightarrow> Store \<Rightarrow> Store" where
  "exec_calls [] s = s"
| "exec_calls (c # cs) s = exec_calls cs (fst (exec_call c s))"

fun call_writes :: "store_call \<Rightarrow> nat" where
  "call_writes (DoPut key v) = 1"
| "call_writes (DoDelete key) = 1"
| "call_writes (DoBatch tid ops) = length ops"
| "call_writes c = 0"

lemma extends_seq_bound: "extends m s s' \<Longrightarrow> unat (seq s') \<le> unat (seq s) + m"
  by (simp add: extends_def)

lemma extends_batch:
  "unat (seq s) + length ops < 2 ^ 64 \<Longrightarrow> extends (length ops) s (fst (batch_appends ops s))"
proof (induction ops arbitrary: s)
  case (Cons op ops)
  let ?flag = "if Delete op then flagTombstone else flagLive"
  let ?app = "store_append (Key op) (Value op) ?flag"
  let ?rest = "\<lambda>s u. seqR (if Delete op then index_delete (Key op) s else (s, Inr ())) (\<lambda>s u. batch_appends ops s)"
  have app: "extends 1 s (fst (?app s))" using Cons.prems by (intro extends_append) simp
  have "extends (1 + (0 + length ops)) s (fst (seqR (?app s) ?rest))"
  proof (rule extends_seqR [OF app], rule extends_seqR)
    show "extends 0 s1 (fst (if Delete op then index_delete (Key op) s1 else (s1, Inr ())))" for s1
      using extends_frame [OF part_frames(6)] by auto
    fix s1 s2 a b
    assume 1: "?app s = (s1, Inr a)" and 2: "(if Delete op then index_delete (Key op) s1 else (s1, Inr ())) = (s2, Inr b)"
    have "seq s2 = seq s1" using 2 withinD [OF part_frames(6)] by (auto simp: same_history_def split: if_splits)
    moreover have "unat (seq s1) \<le> unat (seq s) + 1" using extends_seq_bound [OF app] 1 by simp
    ultimately show "extends (length ops) s2 (fst (batch_appends ops s2))"
      using Cons.prems by (intro Cons.IH) simp
  qed
  then show ?case by simp
qed simp

lemma Compact_frame: "same_history s (fst (Compact rng io s))"
proof -
  have *: "same_history s (fst (seqR (on_pager f s) g))" if "\<And>s1 a. same_history s1 (fst (g s1 a))" for f g
    using frame_seq [OF part_frames(1), of g f] that by (simp add: within_def)
  have rename: "same_history s1 (fst (if rename_fails io then
      (case pager_Open (dbfile (pager s1)) of Inl err \<Rightarrow> (s1, Inl ErrIO) | Inr p \<Rightarrow> (s1\<lparr>pager := p\<rparr>, Inl ErrIO))
    else (case pager_Open f of Inl err \<Rightarrow> (s1, Inl err)
      | Inr p \<Rightarrow> on_wal wal_clear (s1\<lparr>pager := p, firstPage := 0, hasPages := b\<rparr>))))" for s1 f b
    by (auto simp: same_history_def on_wal_def split: sum.splits prod.splits)
  show ?thesis
    unfolding Compact_def using rename
    by (auto simp: return_frame same_history_def [of s s] split: sum.splits option.splits prod.splits intro!: *)
qed

lemma extends_call:
  assumes "unat (seq s) + call_writes c < 2 ^ 64"
  shows "extends (call_writes c) s (fst (exec_call c s))"
proof (cases c)
  case (DoPut key v)
  have "extends (0 + 1) s (fst (seqR (on_wal (wal_append walPut key v) s) (\<lambda>s u. store_append key v flagLive s)))"
  proof (rule extends_seqR [OF extends_frame [OF part_frames(2)]])
    fix s1 a assume "on_wal (wal_append walPut key v) s = (s1, Inr a)"
    with withinD [OF part_frames(2)] have "seq s1 = seq s" by (auto simp: same_history_def)
    with assms DoPut show "extends 1 s1 (fst (store_append key v flagLive s1))" by (intro extends_append) simp
  qed
  with DoPut show ?thesis by (simp add: store_Put_def)
next
  case (DoDelete key)
  have "extends (0 + (1 + 0)) s (fst (seqR (on_wal (wal_append walDelete key []) s) (\<lambda>s u.
      seqR (store_append key [] flagTombstone s) (\<lambda>s u. seqR (index_delete key s) (\<lambda>s u. saveIndex s)))))"
  proof (rule extends_seqR [OF extends_frame [OF part_frames(2)]], rule extends_seqR)
    fix s1 a assume "on_wal (wal_append walDelete key []) s = (s1, Inr a)"
    with withinD [OF part_frames(2)] have "seq s1 = seq s" by (auto simp: same_history_def)
    with assms DoDelete show "extends 1 s1 (fst (store_append key [] flagTombstone s1))" by (intro extends_append) simp
  next
    show "extends 0 s2 (fst (seqR (index_delete key s2) (\<lambda>s u. saveIndex s)))" for s2
      by (rule extends_frame [where f = "\<lambda>s. seqR (index_delete key s) (\<lambda>s u. saveIndex s)"])
        (intro frame_seq history_frames)
  qed
  with DoDelete show ?thesis by (simp add: store_Delete_def)
next
  case (DoBatch tid ops)
  have "extends (0 + (length ops + 0)) s (fst (seqR (on_wal (appendTransaction tid ops) s) (\<lambda>s u.
      seqR (batch_appends ops s) (\<lambda>s u. saveIndex s))))"
  proof (rule extends_seqR [OF extends_frame [OF part_frames(2)]], rule extends_seqR)
    fix s1 a assume "on_wal (appendTransaction tid ops) s = (s1, Inr a)"
    with withinD [OF part_frames(2)] have "seq s1 = seq s" by (auto simp: same_history_def)
    with assms DoBatch show "extends (length ops) s1 (fst (batch_appends ops s1))" by (intro extends_batch) simp
  qed (rule extends_frame [OF saveIndex_frame])
  with DoBatch show ?thesis by (simp add: ApplyBatch_def)
next
  case (DoFlush rng)
  have "within same_history (store_Flush rng)"
    unfolding store_Flush_def [abs_def] by (intro frame_seq history_frames)
  with DoFlush show ?thesis by (simp add: extends_frame)
next
  case (DoCompact rng io)
  with Compact_frame show ?thesis by (simp add: extends_same)
qed (auto simp: extends_def BeginSnapshot_def ReleaseSnapshot_def versions_of_def)

lemma extends_calls:
  "unat (seq s) + sum_list (map call_writes cs) < 2 ^ 64 \<Longrightarrow>
     extends (sum_list (map call_writes cs)) s (exec_calls cs s)"
proof (induction cs arbitrary: s)
  case (Cons c cs)
  let ?s1 = "fst (exec_call c s)"
  have 1: "extends (call_writes c) s ?s1" using Cons.prems by (intro extends_call) simp
  have "extends (sum_list (map call_writes cs)) ?s1 (exec_calls cs ?s1)"
    using extends_seq_bound [OF 1] Cons.prems by (intro Cons.IH) simp
  with extends_trans [OF 1] show ?case by simp
qed simp

section \<open>Properties of snapshots\<close>

lemma visible_newer: "(\<forall>w \<in> set ws. snapshot < v_seq w) \<Longrightarrow> visible snapshot (vs @ ws) = visible snapshot vs"
proof (induction ws rule: rev_induct)
  case (snoc w ws)
  then have "visible snapshot (vs @ ws @ [w]) = visible snapshot (vs @ ws)"
    by (auto simp: visible_def not_le)
  with snoc show ?case by simp
qed simp

lemma extends_visible:
  assumes "extends n s s'" and "snapshot \<le> seq s"
  shows "visible snapshot (versions_of key s') = visible snapshot (versions_of key s)"
proof -
  from assms(1) obtain ws where ws: "versions_of key s' = versions_of key s @ ws" "\<forall>w \<in> set ws. seq s < v_seq w"
    unfolding extends_def by metis
  with assms(2) have "\<forall>w \<in> set ws. snapshot < v_seq w" by (auto intro: le_less_trans)
  with ws(1) show ?thesis by (simp add: visible_newer)
qed

text \<open>C6: A snapshot is immutable: whatever puts, deletes, batches, flushes and compactions follow,
  and whichever of them fail on the way, reading a key at the snapshot gives the same answer as
  when the snapshot was taken, and the same keys are live at it, as long as the 64-bit sequence
  number does not run out.\<close>

theorem snapshot_isolation:
  assumes "unat (seq s) + sum_list (map call_writes cs) < 2 ^ 64" and "snapshot \<le> seq s"
  shows "store_GetAt snapshot key (exec_calls cs s) = store_GetAt snapshot key s \<and>
    KeysAt ord snapshot (exec_calls cs s) = KeysAt ord snapshot s"
  using extends_visible [OF extends_calls [OF assms(1)] assms(2)]
  by (simp add: store_GetAt_def KeysAt_def)

theorem snapshot_isolation_witness:
  "store_GetAt 0 [1] (exec_calls [DoPut [1] [2], DoDelete [1]]
      (fresh_store \<lparr>dbfile = file_of [], numPages = 0, pool = NewBufferPool 64\<rparr>
        \<lparr>dbf = file_of [], walf = file_of [], idxf = \<lparr>idx_data = NoIndex, idx_faults = []\<rparr>\<rparr>)) = None"
  using snapshot_isolation [of "fresh_store \<lparr>dbfile = file_of [], numPages = 0, pool = NewBufferPool 64\<rparr>
        \<lparr>dbf = file_of [], walf = file_of [], idxf = \<lparr>idx_data = NoIndex, idx_faults = []\<rparr>\<rparr>"
      "[DoPut [1] [2], DoDelete [1]]" 0 "[1]" "[]"]
  by (simp add: fresh_store_def store_GetAt_def visible_def versions_of_def)

end
