(* ===== verification/Store_Correct.thy ===== *)
theory Store_Correct
  imports Store_Snapshots
begin

text \<open>
  Correctness of the store while no I/O call fails. The chain of pages holds a log of records
  (\<open>store_chain\<close>), each write appends one record to it, and the index is the map the log
  describes. From this follow the behaviour of \<open>Put\<close>, \<open>Get\<close>, \<open>Delete\<close> and batches as a map,
  the agreement of snapshot reads with it, and the success of \<open>CheckInvariants\<close>.
\<close>

section \<open>The page chain\<close>

type_synonym chain = "(u32 \<times> log_rec list) list"

definition page_at :: "(u32 \<rightharpoonup> Page) \<Rightarrow> u32 \<Rightarrow> log_rec list \<Rightarrow> u32 \<Rightarrow> bool" where
  "page_at V i rs nx \<longleftrightarrow> (\<exists>p. V i = Some p \<and> page_has p rs \<and> ID p = i \<and> NextPageID p = nx)"

fun chain_from :: "(u32 \<rightharpoonup> Page) \<Rightarrow> chain \<Rightarrow> bool" where
  "chain_from V [] = True"
| "chain_from V [(i, rs)] = page_at V i rs NoPage"
| "chain_from V ((i, rs) # (j, qs) # c) = (page_at V i rs j \<and> chain_from V ((j, qs) # c))"

definition chain_log :: "chain \<Rightarrow> log_rec list" where
  "chain_log c = concat (map snd c)"

definition store_chain :: "Store \<Rightarrow> chain \<Rightarrow> bool" where
  "store_chain s c \<longleftrightarrow>
     (if hasPages s
      then c \<noteq> [] \<and> fst (hd c) = firstPage s \<and> chain_from (pager_view (pager s)) c \<and> distinct (map fst c)
      else c = [])"

text \<open>Every page of the file is one \<open>validatePages\<close> accepts.\<close>

definition pages_valid :: "Pager \<Rightarrow> bool" where
  "pages_valid p \<longleftrightarrow>
     (\<forall>i < numPages p. \<exists>q rs. pager_view p i = Some q \<and> page_has q rs \<and> ID q = i \<and>
        (NextPageID q = NoPage \<or> NextPageID q < numPages p))"

definition core :: "Store \<Rightarrow> chain \<Rightarrow> bool" where
  "core s c \<longleftrightarrow>
     pager_fine (pager s) \<and> pages_valid (pager s) \<and> btree_ok (index s) \<and> idx_faults (idx s) = [] \<and>
     faults (wal s) = [] \<and> store_chain s c"

definition same_view :: "Pager \<Rightarrow> Pager \<Rightarrow> bool" where
  "same_view p p' \<longleftrightarrow> pager_fine p' \<and> pager_view p' = pager_view p \<and> numPages p' = numPages p"

lemma same_view_trans: "same_view p q \<Longrightarrow> same_view q r \<Longrightarrow> same_view p r"
  by (simp add: same_view_def)

lemma core_same_view: "core s c \<Longrightarrow> same_view (pager s) p \<Longrightarrow> core (s\<lparr>pager := p\<rparr>) c"
  by (simp add: core_def same_view_def pages_valid_def store_chain_def)

lemma view_bound: "pager_view p i = Some q \<Longrightarrow> i < numPages p"
  by (simp add: pager_view_def split: if_splits)

lemma not_NoPage: "i < (n :: u32) \<Longrightarrow> i \<noteq> NoPage"
  using word_less_nat_alt [of NoPage n] unat_NoPage unat_bound [of n] by auto

lemma chain_bound: "chain_from (pager_view p) c \<Longrightarrow> i \<in> fst ` set c \<Longrightarrow> i < numPages p"
  by (induction "pager_view p" c rule: chain_from.induct) (auto simp: page_at_def dest: view_bound)

lemma chain_length:
  assumes "chain_from (pager_view p) c" and "distinct (map fst c)"
  shows "length c \<le> unat (numPages p)"
proof -
  have "unat ` fst ` set c \<subseteq> {..<unat (numPages p)}"
    using chain_bound [OF assms(1)] unfolding word_less_nat_alt by blast
  then have "card (unat ` fst ` set c) \<le> unat (numPages p)"
    using card_mono [of "{..<unat (numPages p)}"] by fastforce
  moreover have "card (unat ` fst ` set c) = length c"
    using assms(2) distinct_card [of "map fst c"] card_image [of unat "fst ` set c"]
    by (auto simp: inj_on_def word_unat_eq_iff)
  ultimately show ?thesis by simp
qed

lemma chain_cong:
  "\<forall>i \<in> fst ` set c. W i = V i \<Longrightarrow> chain_from V c \<Longrightarrow> chain_from W c"
  by (induction V c rule: chain_from.induct) (auto simp: page_at_def)

text \<open>Only the last page of the chain is ever rewritten, with a record or a link behind it.\<close>

lemma chain_update_last:
  "chain_from V (c @ [(i, rs)]) \<Longrightarrow> i \<notin> fst ` set c \<Longrightarrow> page_at W i qs NoPage \<Longrightarrow>
     \<forall>j \<in> fst ` set c. W j = V j \<Longrightarrow> chain_from W (c @ [(i, qs)])"
proof (induction c rule: induct_list012)
  case (2 x)
  then show ?case by (cases x) (auto simp: page_at_def)
next
  case (3 x y c)
  then show ?case by (cases x; cases y) (auto simp: page_at_def)
qed auto

lemma chain_extend:
  "chain_from V (c @ [(i, rs0)]) \<Longrightarrow> i \<notin> fst ` set c \<Longrightarrow> page_at W i rs k \<Longrightarrow> page_at W k qs NoPage \<Longrightarrow>
     \<forall>j \<in> fst ` set c. W j = V j \<Longrightarrow> chain_from W (c @ [(i, rs), (k, qs)])"
proof (induction c rule: induct_list012)
  case (2 x)
  then show ?case by (cases x) (auto simp: page_at_def)
next
  case (3 x y c)
  then show ?case by (cases x; cases y) (auto simp: page_at_def)
qed auto

lemma chain_last: "chain_from V (c @ [(i, rs)]) \<Longrightarrow> page_at V i rs NoPage"
  by (induction c rule: induct_list012) auto

text \<open>The first page of the file starts the chain, or there is none yet.\<close>

definition from_zero :: "Pager \<Rightarrow> chain \<Rightarrow> bool" where
  "from_zero p c \<longleftrightarrow> (if c = [] then numPages p = 0 else fst (hd c) = 0)"

text \<open>The pages outside the chain are left alone.\<close>

definition kept :: "chain \<Rightarrow> Pager \<Rightarrow> chain \<Rightarrow> Pager \<Rightarrow> bool" where
  "kept c p c' p' \<longleftrightarrow>
     (\<forall>i q. i \<notin> fst ` set c \<longrightarrow> pager_view p i = Some q \<longrightarrow> i \<notin> fst ` set c' \<and> pager_view p' i = Some q)"

lemma keptD:
  "kept c p c' p' \<Longrightarrow> i \<notin> fst ` set c \<Longrightarrow> pager_view p i = Some q \<Longrightarrow> i \<notin> fst ` set c'"
  "kept c p c' p' \<Longrightarrow> i \<notin> fst ` set c \<Longrightarrow> pager_view p i = Some q \<Longrightarrow> pager_view p' i = Some q"
  unfolding kept_def by (elim allE impE conjE; assumption)+

lemma keptI:
  "(\<And>i q. i \<notin> fst ` set c \<Longrightarrow> pager_view p i = Some q \<Longrightarrow> i \<notin> fst ` set c' \<and> pager_view p' i = Some q) \<Longrightarrow>
     kept c p c' p'"
  unfolding kept_def by (intro allI impI)

lemma kept_trans: "kept c p c1 p1 \<Longrightarrow> kept c1 p1 c2 p2 \<Longrightarrow> kept c p c2 p2"
  by (rule keptI) (iprover dest: keptD)

lemma kept_same_view: "same_view p p' \<Longrightarrow> kept c p c p'"
  by (simp add: kept_def same_view_def)

lemma view_fresh: "pager_view p (numPages p) = None"
  by (simp add: pager_view_def)

lemma kept_update:
  assumes "i \<in> fst ` set c" and "fst ` set c' \<subseteq> insert n (fst ` set c)" and "pager_view p n = None \<or> n \<in> fst ` set c"
    and "\<And>j. j \<noteq> i \<Longrightarrow> j \<noteq> n \<Longrightarrow> pager_view p' j = pager_view p j"
  shows "kept c p c' p'"
proof (rule keptI)
  fix j q assume j: "j \<notin> fst ` set c" "pager_view p j = Some q"
  have ji: "j \<noteq> i" using j(1) assms(1) by (cases "j = i") simp_all
  have jn: "j \<noteq> n" using j assms(3) by (cases "j = n") simp_all
  then have "j \<notin> insert n (fst ` set c)" using j(1) by simp
  with assms(2) have "j \<notin> fst ` set c'" by (rule contra_subsetD)
  with assms(4) [OF ji jn] j(2) show "j \<notin> fst ` set c' \<and> pager_view p' j = Some q" by simp
qed

lemma kept_first:
  assumes "pager_view p' = (pager_view p)(numPages p \<mapsto> q)"
  shows "kept [] p [(numPages p, [])] p'"
proof (rule keptI)
  fix j q' assume "pager_view p j = Some q'"
  moreover from this have "j \<noteq> numPages p" by (auto simp: view_fresh)
  ultimately show "j \<notin> fst ` set [(numPages p, [])] \<and> pager_view p' j = Some q'" by (simp add: assms)
qed

section \<open>Steps on the pager\<close>

lemma on_pager_Read:
  assumes "pager_fine (pager s)" and "pager_view (pager s) i = Some q"
  shows "\<exists>p. on_pager (ReadPage i) s = (s\<lparr>pager := p\<rparr>, Inr q) \<and> same_view (pager s) p"
  using ReadPage_fine [OF assms] by (auto simp: on_pager_def same_view_def)

lemma on_pager_Allocate:
  assumes "pager_fine (pager s)" and "numPages (pager s) < NoPage"
  shows "\<exists>p. on_pager AllocatePage s = (s\<lparr>pager := p\<rparr>, Inr (NewPage (numPages (pager s)))) \<and> pager_fine p \<and>
    pager_view p = (pager_view (pager s))(numPages (pager s) \<mapsto> NewPage (numPages (pager s))) \<and>
    numPages p = numPages (pager s) + 1"
  using AllocatePage_fine [OF assms] by (auto simp: on_pager_def)

lemma write_page_fine:
  assumes "pager_fine (pager s)" and "wf_page q" and "ID q < numPages (pager s)"
  shows "\<exists>p. write_page q s = (s\<lparr>pager := p\<rparr>, Inr ()) \<and> pager_fine p \<and>
    pager_view p = (pager_view (pager s))(ID q \<mapsto> q) \<and> numPages p = numPages (pager s)"
  using WritePage_fine [OF assms] by (auto simp: on_pager_def write_page_def)

lemma pages_valid_allocate:
  assumes "pages_valid p" and "numPages p < NoPage" and "numPages p' = numPages p + 1"
    and "pager_view p' = (pager_view p)(numPages p \<mapsto> NewPage (numPages p))"
  shows "pages_valid p'"
  unfolding pages_valid_def
proof (intro allI impI)
  fix i assume "i < numPages p'"
  then consider "i = numPages p" | "i < numPages p" using less_next_page [OF assms(2)] assms(3) by auto
  then show "\<exists>q rs. pager_view p' i = Some q \<and> page_has q rs \<and> ID q = i \<and>
      (NextPageID q = NoPage \<or> NextPageID q < numPages p')"
  proof cases
    case 1
    then show ?thesis by (auto simp: assms(4) intro: exI [of _ "[]"])
  next
    case 2
    with assms(1) obtain q rs where q: "pager_view p i = Some q" "page_has q rs" "ID q = i"
      "NextPageID q = NoPage \<or> NextPageID q < numPages p" unfolding pages_valid_def by blast
    then have "NextPageID q = NoPage \<or> NextPageID q < numPages p'"
      using less_next_page [OF assms(2)] assms(3) by auto
    with q 2 show ?thesis by (auto simp: assms(4))
  qed
qed

lemma pages_valid_write:
  assumes "pages_valid p" and "numPages p' = numPages p" and "pager_view p' = (pager_view p)(ID q \<mapsto> q)"
    and "page_has q rs" and "NextPageID q = NoPage \<or> NextPageID q < numPages p"
  shows "pages_valid p'"
  using assms unfolding pages_valid_def by auto

lemma last_from_fine:
  "pager_fine (pager s) \<Longrightarrow> chain_from (pager_view (pager s)) ((i, rs) # c) \<Longrightarrow>
   pager_view (pager s) i = Some q \<Longrightarrow> length c \<le> n \<Longrightarrow>
   \<exists>p q'. last_from n q s = (s\<lparr>pager := p\<rparr>, Inr q') \<and> same_view (pager s) p \<and>
     pager_view (pager s) (fst (last ((i, rs) # c))) = Some q'"
proof (induction c arbitrary: n s i rs q)
  case Nil
  then have "NextPageID q = NoPage" by (simp add: page_at_def)
  with Nil show ?case
    by (intro exI [of _ "pager s"] exI [of _ q]) (simp add: last_from.simps same_view_def)
next
  case (Cons d c)
  obtain j qs where d: "d = (j, qs)" by (cases d)
  obtain m where n: "n = Suc m" "length c \<le> m" using Cons.prems(4) by (cases n) auto
  from Cons.prems d have nx: "NextPageID q = j" and ch: "chain_from (pager_view (pager s)) ((j, qs) # c)"
    by (auto simp: page_at_def)
  then obtain q1 where q1: "pager_view (pager s) j = Some q1" by (cases c) (auto simp: page_at_def)
  from on_pager_Read [OF Cons.prems(1) q1] obtain p1 where
    p1: "on_pager (ReadPage j) s = (s\<lparr>pager := p1\<rparr>, Inr q1)" "same_view (pager s) p1" by auto
  then have v1: "pager_fine p1" "pager_view p1 = pager_view (pager s)" by (simp_all add: same_view_def)
  from Cons.IH [of "s\<lparr>pager := p1\<rparr>" j qs q1 m] ch q1 v1 n(2) obtain p q' where
    "last_from m q1 (s\<lparr>pager := p1\<rparr>) = (s\<lparr>pager := p\<rparr>, Inr q')" "same_view p1 p"
    "pager_view (pager s) (fst (last ((j, qs) # c))) = Some q'" by auto
  moreover have "NextPageID q \<noteq> NoPage" using not_NoPage [OF view_bound [OF q1]] nx by simp
  ultimately show ?case
    using p1 nx d n(1) by (auto simp: last_from.simps [of "Suc m" q s] intro: same_view_trans)
qed

text \<open>What \<open>lastPage\<close> returns: the last page of the chain, which it starts if there is none.\<close>

lemma lastPage_fine:
  assumes core: "core s c" and room: "numPages (pager s) < NoPage"
  shows "\<exists>p f q c0 i rs. lastPage s = (s\<lparr>pager := p, firstPage := f, hasPages := True\<rparr>, Inr q) \<and>
    core (s\<lparr>pager := p, firstPage := f, hasPages := True\<rparr>) (c0 @ [(i, rs)]) \<and>
    chain_log (c0 @ [(i, rs)]) = chain_log c \<and> pager_view p i = Some q \<and>
    kept c (pager s) (c0 @ [(i, rs)]) p \<and>
    (if c = [] then q = NewPage (numPages (pager s)) \<and> numPages p = numPages (pager s) + 1 \<and> c0 = [] \<and> i = numPages (pager s)
     else numPages p = numPages (pager s) \<and> c0 @ [(i, rs)] = c)"
proof (cases "hasPages s")
  case False
  with core have c: "c = []" by (simp add: core_def store_chain_def)
  let ?n = "numPages (pager s)"
  from on_pager_Allocate [of s] core room obtain p where
    p: "on_pager AllocatePage s = (s\<lparr>pager := p\<rparr>, Inr (NewPage ?n))" "pager_fine p"
    "pager_view p = (pager_view (pager s))(?n \<mapsto> NewPage ?n)" "numPages p = ?n + 1"
    by (auto simp: core_def)
  let ?s' = "s\<lparr>pager := p, firstPage := ?n, hasPages := True\<rparr>"
  have "pages_valid p" using pages_valid_allocate [OF _ room p(4,3)] core by (simp add: core_def)
  moreover have "page_at (pager_view p) ?n [] NoPage" by (auto simp: page_at_def p(3))
  ultimately have "core ?s' [(?n, [])]"
    using core p(2) by (simp add: core_def store_chain_def)
  moreover have "lastPage s = (?s', Inr (NewPage ?n))" using False p(1) by (simp add: lastPage_def)
  moreover have "kept c (pager s) [(?n, [])] p" using kept_first [OF p(3)] c by simp
  moreover have "pager_view p ?n = Some (NewPage ?n)" by (simp add: p(3))
  ultimately show ?thesis
    using c p(4)
    by (intro exI [of _ p] exI [of _ ?n] exI [of _ "NewPage ?n"] exI [of _ "[]"] exI [of _ ?n] exI [of _ "[]"])
      (simp add: chain_log_def)
next
  case True
  with core have ch: "c \<noteq> []" "fst (hd c) = firstPage s" "chain_from (pager_view (pager s)) c" "distinct (map fst c)"
    and fine: "pager_fine (pager s)" by (auto simp: core_def store_chain_def)
  then obtain rs0 c1 where c: "c = (firstPage s, rs0) # c1" by (cases c) auto
  then obtain q0 where q0: "pager_view (pager s) (firstPage s) = Some q0"
    using ch(3) by (cases c1) (auto simp: page_at_def)
  from on_pager_Read [OF fine q0] obtain p1 where
    p1: "on_pager (ReadPage (firstPage s)) s = (s\<lparr>pager := p1\<rparr>, Inr q0)" "same_view (pager s) p1" by auto
  have "length c1 \<le> unat (numPages p1)"
    using chain_length [OF ch(3,4)] c p1(2) by (simp add: same_view_def)
  with last_from_fine [of "s\<lparr>pager := p1\<rparr>" "firstPage s" rs0 c1 q0 "unat (numPages p1)"] p1(2) ch(3) c q0
  obtain p q where p: "last_from (unat (numPages p1)) q0 (s\<lparr>pager := p1\<rparr>) = (s\<lparr>pager := p\<rparr>, Inr q)"
    "same_view p1 p" "pager_view (pager s) (fst (last c)) = Some q" by (auto simp: same_view_def)
  obtain c0 i rs where last: "c = c0 @ [(i, rs)]" using ch(1) by (metis append_butlast_last_id surj_pair)
  have sv: "same_view (pager s) p" using same_view_trans p1(2) p(2) by blast
  have s': "s\<lparr>pager := p, firstPage := firstPage s, hasPages := True\<rparr> = s\<lparr>pager := p\<rparr>" using True by simp
  have "lastPage s = (s\<lparr>pager := p\<rparr>, Inr q)" using True p1(1) p(1) by (simp add: lastPage_def)
  moreover have "pager_view p i = Some q" using p(3) sv by (simp add: last same_view_def)
  ultimately show ?thesis
    using core_same_view [OF core sv] sv ch(1) last s' kept_same_view [OF sv, of c]
    by (intro exI [of _ p] exI [of _ "firstPage s"] exI [of _ q] exI [of _ c0] exI [of _ i] exI [of _ rs])
      (auto simp: same_view_def)
qed

section \<open>Steps on the index\<close>

lemma index_put_fine:
  "btree_ok (index s) \<Longrightarrow> \<exists>t. index_put key v s = (s\<lparr>index := t\<rparr>, Inr ()) \<and> btree_ok t \<and>
     tree_entries t = put_sorted key v (tree_entries (index s))"
  using btree_put_ok [of "index s" key v] by (auto simp: index_put_def)

lemma index_delete_fine:
  "btree_ok (index s) \<Longrightarrow> \<exists>t. index_delete key s = (s\<lparr>index := t\<rparr>, Inr ()) \<and> btree_ok t \<and>
     tree_entries t = filter (\<lambda>e. fst e \<noteq> key) (tree_entries (index s))"
  using btree_delete_ok [of "index s" key] by (auto simp: index_delete_def)

lemma saveIndex_fine:
  "btree_ok (index s) \<Longrightarrow> idx_faults (idx s) = [] \<Longrightarrow>
     saveIndex s = (s\<lparr>idx := \<lparr>idx_data = IndexEntries (tree_entries (index s)), idx_faults = []\<rparr>\<rparr>, Inr ())"
  by (simp add: saveIndex_def btree_entries_correct on_idx_def idx_call_def)

section \<open>Appending a record\<close>

lemma core_hasPages: "core s (c @ [x]) \<Longrightarrow> hasPages s"
  by (auto simp: core_def store_chain_def split: if_splits)

lemma append_in_page:
  assumes core: "core s (c0 @ [(i, rs)])" and q: "pager_view (pager s) i = Some q"
    and fits: "unat (FreeOffset q) + rec_len (flag, key, v) \<le> PageSize"
  shows "\<exists>q' p. writeRecord key v flag q = Inr q' \<and> write_page q' s = (s\<lparr>pager := p\<rparr>, Inr ()) \<and>
    core (s\<lparr>pager := p\<rparr>) (c0 @ [(i, rs @ [(flag, key, v)])]) \<and> numPages p = numPages (pager s) \<and>
    kept (c0 @ [(i, rs)]) (pager s) (c0 @ [(i, rs @ [(flag, key, v)])]) p"
proof -
  from core have ch: "fst (hd (c0 @ [(i, rs)])) = firstPage s" "chain_from (pager_view (pager s)) (c0 @ [(i, rs)])"
    "distinct (map fst (c0 @ [(i, rs)]))" and fine: "pager_fine (pager s)" and has: "hasPages s"
    using core_hasPages [OF core] by (auto simp: core_def store_chain_def)
  from chain_last [OF ch(2)] q have pq: "page_has q rs" "ID q = i" "NextPageID q = NoPage" by (auto simp: page_at_def)
  from writeRecord_ok [OF pq(1) fits refl] pq obtain q' where
    q': "writeRecord key v flag q = Inr q'" "page_has q' (rs @ [(flag, key, v)])" "ID q' = i" "NextPageID q' = NoPage" by auto
  have "wf_page q'" using q'(2) by (simp add: page_has_def)
  with write_page_fine [OF fine] view_bound [OF q] q'(3) obtain p where
    p: "write_page q' s = (s\<lparr>pager := p\<rparr>, Inr ())" "pager_fine p"
    "pager_view p = (pager_view (pager s))(i \<mapsto> q')" "numPages p = numPages (pager s)" by auto
  have "chain_from (pager_view p) (c0 @ [(i, rs @ [(flag, key, v)])])"
  proof (rule chain_update_last [OF ch(2)])
    show notin: "i \<notin> fst ` set c0" using ch(3) by simp
    show "page_at (pager_view p) i (rs @ [(flag, key, v)]) NoPage" using q'(2-4) by (auto simp: p(3) page_at_def)
    show "\<forall>j \<in> fst ` set c0. pager_view p j = pager_view (pager s) j"
      using notin by (intro ballI) (simp add: p(3), blast)
  qed
  moreover have "pages_valid p"
    using pages_valid_write [of "pager s" p q'] core p q' by (simp add: core_def)
  moreover have "fst (hd (c0 @ [(i, rs @ [(flag, key, v)])])) = firstPage s" using ch(1) by (cases c0) auto
  ultimately have "core (s\<lparr>pager := p\<rparr>) (c0 @ [(i, rs @ [(flag, key, v)])])"
    using core p(2) ch(3) has by (simp add: core_def store_chain_def)
  moreover have "kept (c0 @ [(i, rs)]) (pager s) (c0 @ [(i, rs @ [(flag, key, v)])]) p"
    by (rule kept_update [of i _ _ i]) (simp_all add: p(3))
  ultimately show ?thesis using q'(1) p(1,4) by blast
qed

lemma append_new_page:
  assumes core: "core s (c0 @ [(i, rs)])" and q: "pager_view (pager s) i = Some q"
    and small: "rec_len (flag, key, v) \<le> PageSize - HeaderSize" and room: "numPages (pager s) < NoPage"
  defines "n \<equiv> numPages (pager s)"
  shows "\<exists>p1 new' p2 p3. on_pager AllocatePage s = (s\<lparr>pager := p1\<rparr>, Inr (NewPage n)) \<and>
    writeRecord key v flag (NewPage n) = Inr new' \<and> ID new' = n \<and>
    write_page (SetNextPageID n q) (s\<lparr>pager := p1\<rparr>) = (s\<lparr>pager := p2\<rparr>, Inr ()) \<and>
    write_page new' (s\<lparr>pager := p2\<rparr>) = (s\<lparr>pager := p3\<rparr>, Inr ()) \<and>
    core (s\<lparr>pager := p3\<rparr>) (c0 @ [(i, rs), (n, [(flag, key, v)])]) \<and> numPages p3 = n + 1 \<and>
    kept (c0 @ [(i, rs)]) (pager s) (c0 @ [(i, rs), (n, [(flag, key, v)])]) p3"
proof -
  from core have ch: "fst (hd (c0 @ [(i, rs)])) = firstPage s" "chain_from (pager_view (pager s)) (c0 @ [(i, rs)])"
    "distinct (map fst (c0 @ [(i, rs)]))" and fine: "pager_fine (pager s)" and has: "hasPages s"
    and valid: "pages_valid (pager s)" using core_hasPages [OF core] by (auto simp: core_def store_chain_def)
  from chain_last [OF ch(2)] q have pq: "page_has q rs" "ID q = i" by (auto simp: page_at_def)
  have less: "j < n + 1 \<longleftrightarrow> j = n \<or> j < n" for j using less_next_page [OF room] by (simp add: n_def)
  from on_pager_Allocate [OF fine room] obtain p1 where
    p1: "on_pager AllocatePage s = (s\<lparr>pager := p1\<rparr>, Inr (NewPage n))" "pager_fine p1"
    "pager_view p1 = (pager_view (pager s))(n \<mapsto> NewPage n)" "numPages p1 = n + 1" by (auto simp: n_def)
  have v1: "pages_valid p1" using pages_valid_allocate [OF valid room] p1 by (simp add: n_def)
  have i: "i < n" using view_bound [OF q] by (simp add: n_def)
  let ?q = "SetNextPageID n q"
  have hq: "page_has ?q rs" "wf_page ?q" "ID ?q = i" "NextPageID ?q = n"
    using pq by (auto simp: page_has_def)
  from write_page_fine [of "s\<lparr>pager := p1\<rparr>" ?q] p1 hq i obtain p2 where
    p2: "write_page ?q (s\<lparr>pager := p1\<rparr>) = (s\<lparr>pager := p2\<rparr>, Inr ())" "pager_fine p2"
    "pager_view p2 = (pager_view p1)(i \<mapsto> ?q)" "numPages p2 = n + 1" by (auto simp: less)
  have v2: "pages_valid p2" using pages_valid_write [OF v1, of p2 ?q rs] p1(4) p2 hq by (simp add: less)
  from writeRecord_ok [OF page_has_NewPage, of n "(flag, key, v)"] small obtain new' where
    new': "writeRecord key v flag (NewPage n) = Inr new'" "page_has new' [(flag, key, v)]" "ID new' = n"
    "NextPageID new' = NoPage" by (auto simp: page_consts)
  have "wf_page new'" using new'(2) by (simp add: page_has_def)
  with write_page_fine [of "s\<lparr>pager := p2\<rparr>" new'] p2 new'(3) obtain p3 where
    p3: "write_page new' (s\<lparr>pager := p2\<rparr>) = (s\<lparr>pager := p3\<rparr>, Inr ())" "pager_fine p3"
    "pager_view p3 = (pager_view p2)(n \<mapsto> new')" "numPages p3 = n + 1" by (auto simp: less)
  have v3: "pages_valid p3" using pages_valid_write [OF v2, of p3 new'] p2(4) p3 new' by simp
  have fresh: "n \<notin> fst ` set (c0 @ [(i, rs)])" using chain_bound [OF ch(2), of n] unfolding n_def by blast
  have "chain_from (pager_view p3) (c0 @ [(i, rs), (n, [(flag, key, v)])])"
  proof (rule chain_extend [OF ch(2)])
    show "page_at (pager_view p3) i rs n" using hq fresh by (auto simp: page_at_def p3(3) p2(3))
    show "page_at (pager_view p3) n [(flag, key, v)] NoPage" using new' by (auto simp: page_at_def p3(3))
    show notin: "i \<notin> fst ` set c0" using ch(3) by simp
    show "\<forall>j \<in> fst ` set c0. pager_view p3 j = pager_view (pager s) j"
    proof
      fix j assume "j \<in> fst ` set c0"
      with notin fresh have "j \<noteq> i" "j \<noteq> n" by (auto simp del: image_iff)
      then show "pager_view p3 j = pager_view (pager s) j" by (simp add: p3(3) p2(3) p1(3))
    qed
  qed
  moreover have "fst (hd (c0 @ [(i, rs), (n, [(flag, key, v)])])) = firstPage s" using ch(1) by (cases c0) auto
  ultimately have "core (s\<lparr>pager := p3\<rparr>) (c0 @ [(i, rs), (n, [(flag, key, v)])])"
    using core p3(2) v3 ch(3) fresh has by (auto simp: core_def store_chain_def simp del: image_iff)
  moreover have "kept (c0 @ [(i, rs)]) (pager s) (c0 @ [(i, rs), (n, [(flag, key, v)])]) p3"
    by (rule kept_update [of i _ _ n]) (simp_all add: p3(3) p2(3) p1(3) n_def view_fresh insert_commute)
  ultimately show ?thesis using p1(1) new'(1,3) p2(1) p3(1,4) by blast
qed

text \<open>
  The index after a record was appended. A tombstone removes the key only where the record
  opened a new page; \<open>Delete\<close> and \<open>ApplyBatch\<close> remove it themselves afterwards.
\<close>

definition indexed :: "u8 \<Rightarrow> bytes \<Rightarrow> bytes \<Rightarrow> entry list \<Rightarrow> entry list \<Rightarrow> bool" where
  "indexed flag key v es es' \<longleftrightarrow>
     (if flag = flagLive then es' = put_sorted key v es
      else es' = es \<or> es' = filter (\<lambda>e. fst e \<noteq> key) es)"

definition appended :: "u8 \<Rightarrow> bytes \<Rightarrow> bytes \<Rightarrow> Store \<Rightarrow> chain \<Rightarrow> Store \<Rightarrow> chain \<Rightarrow> bool" where
  "appended flag key v s c s' c' \<longleftrightarrow>
     core s' c' \<and> chain_log c' = chain_log c @ [(flag, key, v)] \<and> wal s' = wal s \<and>
     idx_data (idx s') = IndexEntries (tree_entries (index s')) \<and>
     indexed flag key v (tree_entries (index s)) (tree_entries (index s')) \<and>
     unat (numPages (pager s')) \<le> Suc (unat (numPages (pager s))) \<and> kept c (pager s) c' (pager s') \<and>
     (from_zero (pager s) c \<longrightarrow> from_zero (pager s') c')"

lemma core_index: "core s c \<Longrightarrow> btree_ok t \<Longrightarrow> core (s\<lparr>index := t\<rparr>) c"
  by (simp add: core_def store_chain_def)

lemma core_idx: "core s c \<Longrightarrow> idx_faults i = [] \<Longrightarrow> core (s\<lparr>idx := i\<rparr>) c"
  by (simp add: core_def store_chain_def)

lemma core_btree: "core s c \<Longrightarrow> btree_ok (index s)" "core s c \<Longrightarrow> idx_faults (idx s) = []"
  by (simp_all add: core_def)

text \<open>The index step and the saving of the index that end both branches of \<open>append\<close>.\<close>

lemma finish_append:
  assumes core: "core s1 c'" and log: "chain_log c' = chain_log c @ [(flag, key, v)]"
    and frame: "wal s1 = wal s" "index s1 = index s" "unat (numPages (pager s1)) \<le> Suc (unat (numPages (pager s)))"
      "kept c (pager s) c' (pager s1)" "from_zero (pager s) c \<longrightarrow> from_zero (pager s1) c'"
    and other: "other = index_delete key \<or> other = (\<lambda>s. (s, Inr ()))"
  shows "\<exists>s'. seqR (if flag = flagLive then index_put key v s1 else other s1) (\<lambda>s u. saveIndex s) = (s', Inr ()) \<and>
    appended flag key v s c s' c'"
proof -
  have "\<exists>t. (if flag = flagLive then index_put key v s1 else other s1) = (s1\<lparr>index := t\<rparr>, Inr ()) \<and> btree_ok t \<and>
      indexed flag key v (tree_entries (index s)) (tree_entries t)"
  proof (cases "flag = flagLive")
    case True
    with index_put_fine [of s1 key v] core_btree(1) [OF core] frame(2) show ?thesis by (auto simp: indexed_def)
  next
    case False
    from other show ?thesis
    proof
      assume "other = index_delete key"
      with False index_delete_fine [of s1 key] core_btree(1) [OF core] frame(2) show ?thesis
        by (auto simp: indexed_def)
    next
      assume "other = (\<lambda>s. (s, Inr ()))"
      with False core_btree(1) [OF core] frame(2) show ?thesis
        by (intro exI [of _ "index s1"]) (simp add: indexed_def)
    qed
  qed
  then obtain t where t: "(if flag = flagLive then index_put key v s1 else other s1) = (s1\<lparr>index := t\<rparr>, Inr ())"
    "btree_ok t" "indexed flag key v (tree_entries (index s)) (tree_entries t)" by blast
  have "core (s1\<lparr>index := t\<rparr>) c'" using core_index [OF core t(2)] .
  from saveIndex_fine [OF core_btree [OF this]] core_idx [OF this] t log frame show ?thesis
    by (auto simp: appended_def)
qed

lemma append_record_fine:
  assumes core: "core s c" and small: "rec_len (flag, key, v) \<le> PageSize - HeaderSize"
    and room: "numPages (pager s) < NoPage"
  shows "\<exists>s' c'. append_record key v flag s = (s', Inr ()) \<and> appended flag key v s c s' c'"
proof -
  from lastPage_fine [OF core room] obtain p f q c0 i rs where
    lp: "lastPage s = (s\<lparr>pager := p, firstPage := f, hasPages := True\<rparr>, Inr q)"
    and core1: "core (s\<lparr>pager := p, firstPage := f, hasPages := True\<rparr>) (c0 @ [(i, rs)])"
    and log: "chain_log (c0 @ [(i, rs)]) = chain_log c" and q: "pager_view p i = Some q"
    and k: "kept c (pager s) (c0 @ [(i, rs)]) p"
    and n: "if c = [] then q = NewPage (numPages (pager s)) \<and> numPages p = numPages (pager s) + 1 \<and> c0 = [] \<and> i = numPages (pager s)
      else numPages p = numPages (pager s) \<and> c0 @ [(i, rs)] = c" by blast
  let ?s1 = "s\<lparr>pager := p, firstPage := f, hasPages := True\<rparr>"
  have zero: "from_zero (pager s) c \<Longrightarrow> fst (hd (c0 @ (i, qs) # c1)) = 0" for qs c1
    using n by (cases c0) (auto simp: from_zero_def split: if_splits)
  note succ = unat_next_page [OF room]
  have np: "unat (numPages p) \<le> Suc (unat (numPages (pager s)))" using n succ by (auto split: if_splits)
  show ?thesis
  proof (cases "unat (FreeOffset q) + rec_len (flag, key, v) \<le> PageSize")
    case True
    from append_in_page [OF core1 _ True] q obtain q' p2 where
      w: "writeRecord key v flag q = Inr q'" "write_page q' ?s1 = (?s1\<lparr>pager := p2\<rparr>, Inr ())"
      "core (?s1\<lparr>pager := p2\<rparr>) (c0 @ [(i, rs @ [(flag, key, v)])])" "numPages p2 = numPages p"
      "kept (c0 @ [(i, rs)]) p (c0 @ [(i, rs @ [(flag, key, v)])]) p2" by auto
    have "chain_log (c0 @ [(i, rs @ [(flag, key, v)])]) = chain_log c @ [(flag, key, v)]"
      using log by (simp add: chain_log_def)
    from finish_append [OF w(3) this, of s "\<lambda>s. (s, Inr ())"] np w(4) kept_trans [OF k w(5)] zero [of "rs @ [(flag, key, v)]" "[]"] obtain s' where
      "seqR (if flag = flagLive then index_put key v (?s1\<lparr>pager := p2\<rparr>) else (?s1\<lparr>pager := p2\<rparr>, Inr ())) (\<lambda>s u. saveIndex s) = (s', Inr ())"
      "appended flag key v s c s' (c0 @ [(i, rs @ [(flag, key, v)])])" by (auto simp: from_zero_def)
    with w(1,2) show ?thesis
      by (intro exI [of _ s'] exI [of _ "c0 @ [(i, rs @ [(flag, key, v)])]"])
        (cases "flag = flagLive"; simp add: append_record_def lp)
  next
    case False
    have c: "c \<noteq> []"
    proof
      assume "c = []"
      with n have "FreeOffset q = 16" by simp
      with False small show False by (simp add: page_consts)
    qed
    with n have np2: "numPages p = numPages (pager s)" by simp
    with append_new_page [OF core1 _ small] q room obtain p1 new' p2 p3 where
      w: "on_pager AllocatePage ?s1 = (?s1\<lparr>pager := p1\<rparr>, Inr (NewPage (numPages p)))"
      "writeRecord key v flag (NewPage (numPages p)) = Inr new'" "ID new' = numPages p"
      "write_page (SetNextPageID (numPages p) q) (?s1\<lparr>pager := p1\<rparr>) = (?s1\<lparr>pager := p2\<rparr>, Inr ())"
      "write_page new' (?s1\<lparr>pager := p2\<rparr>) = (?s1\<lparr>pager := p3\<rparr>, Inr ())"
      "core (?s1\<lparr>pager := p3\<rparr>) (c0 @ [(i, rs), (numPages p, [(flag, key, v)])])" "numPages p3 = numPages p + 1"
      "kept (c0 @ [(i, rs)]) p (c0 @ [(i, rs), (numPages p, [(flag, key, v)])]) p3" by auto
    have "writeRecord key v flag q = Inl ErrPageFull" using False by (intro writeRecord_full) simp
    moreover have "chain_log (c0 @ [(i, rs), (numPages p, [(flag, key, v)])]) = chain_log c @ [(flag, key, v)]"
      using log by (simp add: chain_log_def)
    from finish_append [OF w(6) this, of s "index_delete key"] np2 succ w(7) kept_trans [OF k w(8)] zero [of rs "[(numPages p, [(flag, key, v)])]"] obtain s' where
      "seqR (if flag = flagLive then index_put key v (?s1\<lparr>pager := p3\<rparr>) else index_delete key (?s1\<lparr>pager := p3\<rparr>)) (\<lambda>s u. saveIndex s) = (s', Inr ())"
      "appended flag key v s c s' (c0 @ [(i, rs), (numPages p, [(flag, key, v)])])" by (auto simp: from_zero_def)
    ultimately show ?thesis using w(1-5)
      by (intro exI [of _ s'] exI [of _ "c0 @ [(i, rs), (numPages p, [(flag, key, v)])]"])
        (cases "flag = flagLive"; simp add: append_record_def lp)
  qed
qed

end
