(* ===== verification/Store_Log.thy ===== *)
theory Store_Log
  imports Store_Correct
begin

text \<open>
  The store as a log of writes. The abstract state is the list of all writes so far: reading
  gives the last write of a key, reading at a snapshot the last write among the first ones, and
  the sequence number is the length of the list. While no I/O call fails, every operation of
  the store implements its abstract step, and the pages, the index and the versions stay in
  agreement with the list.
\<close>

section \<open>The specification\<close>

definition log_step :: "log_rec \<Rightarrow> (bytes \<rightharpoonup> bytes) \<Rightarrow> (bytes \<rightharpoonup> bytes)" where
  "log_step r m = (case r of (flag, key, v) \<Rightarrow> m(key := (if flag = flagLive then Some v else None)))"

definition log_map :: "log_rec list \<Rightarrow> (bytes \<rightharpoonup> bytes)" where
  "log_map h = fold log_step h Map.empty"

lemma log_map_Nil [simp]: "log_map [] = Map.empty"
  by (simp add: log_map_def)

lemma log_map_snoc [simp]: "log_map (h @ [r]) = log_step r (log_map h)"
  by (simp add: log_map_def)

definition rec_written :: "log_rec \<Rightarrow> bytes" where
  "rec_written r = fst (snd r)"

lemma log_step_other: "rec_written r \<noteq> key \<Longrightarrow> log_step r m key = m key"
  by (cases r) (simp add: log_step_def rec_written_def)

section \<open>Versions\<close>

definition log_version :: "nat \<Rightarrow> log_rec \<Rightarrow> version" where
  "log_version n r = \<lparr>v_seq = word_of_nat (Suc n), v_value = snd (snd r), v_found = (fst r = flagLive)\<rparr>"

definition log_versions :: "log_rec list \<Rightarrow> bytes \<Rightarrow> version list" where
  "log_versions h key =
     map (\<lambda>(n, r). log_version n r) (filter (\<lambda>(n, r). rec_written r = key) (enumerate 0 h))"

lemma log_versions_Nil [simp]: "log_versions [] key = []"
  by (simp add: log_versions_def)

lemma log_versions_snoc [simp]:
  "log_versions (h @ [r]) key =
     log_versions h key @ (if rec_written r = key then [log_version (length h) r] else [])"
  by (simp add: log_versions_def enumerate_append_eq)

definition history :: "Store \<Rightarrow> log_rec list \<Rightarrow> bool" where
  "history s h \<longleftrightarrow>
     length h < 2 ^ 64 \<and> seq s = word_of_nat (length h) \<and> (\<forall>key. versions_of key s = log_versions h key)"

lemma history_same: "same_history s s' \<Longrightarrow> history s h \<Longrightarrow> history s' h"
  by (simp add: history_def same_history_def versions_of_def)

lemma history_add:
  assumes "history s h" and "Suc (length h) < 2 ^ 64"
  shows "history (add_version key v (flag = flagLive) s) (h @ [(flag, key, v)])"
proof -
  have "seq (add_version key v (flag = flagLive) s) = word_of_nat (length (h @ [(flag, key, v)]))"
    using assms(1) by (simp add: history_def add_version_def)
  with assms show ?thesis
    by (auto simp: history_def versions_of_add log_version_def rec_written_def)
qed

lemma unat_seq: "n < 2 ^ 64 \<Longrightarrow> unat (word_of_nat n :: u64) = n"
  by (simp add: unat_of_nat)

lemma word_of_nat_le64: "m < 2 ^ 64 \<Longrightarrow> n < 2 ^ 64 \<Longrightarrow> (word_of_nat m :: u64) \<le> word_of_nat n \<longleftrightarrow> m \<le> n"
  by (simp add: word_le_nat_alt unat_seq)

lemma log_versions_seq:
  "length h < 2 ^ 64 \<Longrightarrow> v \<in> set (log_versions h key) \<Longrightarrow> v_seq v \<le> word_of_nat (length h)"
proof (induction h rule: rev_induct)
  case (snoc r h)
  have "word_of_nat (length h) \<le> (word_of_nat (Suc (length h)) :: u64)"
    using snoc.prems(1) word_of_nat_le64 [of "length h" "Suc (length h)"] by simp
  with snoc show ?case by (auto simp: log_version_def split: if_splits)
qed simp

lemma visible_all:
  assumes "\<And>v. v \<in> set vs \<Longrightarrow> v_seq v \<le> n"
  shows "visible n vs = (if vs = [] then None else Some (last vs))"
  using assms by (cases vs rule: rev_cases) (simp_all add: visible_def)

definition version_value :: "version option \<Rightarrow> bytes option" where
  "version_value w = (case w of None \<Rightarrow> None | Some v \<Rightarrow> if v_found v then Some (v_value v) else None)"

lemma GetAt_version: "store_GetAt n key s = version_value (visible n (versions_of key s))"
  by (simp add: store_GetAt_def version_value_def)

lemma visible_log:
  "length h < 2 ^ 64 \<Longrightarrow> n \<le> length h \<Longrightarrow>
     version_value (visible (word_of_nat n) (log_versions h key)) = log_map (take n h) key"
proof (induction h arbitrary: n rule: rev_induct)
  case Nil
  then show ?case by (simp add: visible_def version_value_def)
next
  case (snoc r h)
  show ?case
  proof (cases "n \<le> length h")
    case True
    have "word_of_nat n < (word_of_nat (Suc (length h)) :: u64)"
      using True snoc.prems word_of_nat_le64 [of "Suc (length h)" n] by (simp add: not_le [symmetric])
    then have "visible (word_of_nat n) (log_versions (h @ [r]) key) = visible (word_of_nat n) (log_versions h key)"
      by (simp add: visible_newer log_version_def)
    with snoc True show ?thesis by simp
  next
    case False
    with snoc.prems have n: "n = Suc (length h)" by simp
    have old: "visible (word_of_nat k) (log_versions h key) =
        (if log_versions h key = [] then None else Some (last (log_versions h key)))"
      if "length h \<le> k" "k < 2 ^ 64" for k
      using log_versions_seq [of h _ key] that snoc.prems(1) word_of_nat_le64 [of "length h" k]
      by (intro visible_all) (auto intro: order_trans)
    show ?thesis
    proof (cases "rec_written r = key")
      case True
      then have "visible (word_of_nat n) (log_versions (h @ [r]) key) = Some (log_version (length h) r)"
        by (simp add: visible_def log_version_def n)
      with n True show ?thesis
        by (cases r) (simp add: version_value_def log_version_def log_step_def rec_written_def)
    next
      case False
      with old [of n] old [of "length h"] n snoc.prems(1) snoc.IH [of "length h"] show ?thesis
        by (simp add: log_step_other del: of_nat_Suc)
    qed
  qed
qed

lemma GetAt_log:
  "history s h \<Longrightarrow> n \<le> length h \<Longrightarrow> store_GetAt (word_of_nat n) key s = log_map (take n h) key"
  by (simp add: GetAt_version history_def visible_log)

lemma KeysAt_log:
  "history s h \<Longrightarrow> n \<le> length h \<Longrightarrow>
     KeysAt ord (word_of_nat n) s = filter (\<lambda>key. log_map (take n h) key \<noteq> None) ord"
  unfolding KeysAt_def GetAt_log [symmetric] GetAt_version
  by (rule filter_cong) (auto simp: version_value_def split: option.splits if_splits)

lemma changed_log:
  "length h < 2 ^ 64 \<Longrightarrow> n \<le> length h \<Longrightarrow>
     (log_versions h key \<noteq> [] \<and> word_of_nat n < v_seq (last (log_versions h key))) \<longleftrightarrow>
     key \<in> rec_written ` set (drop n h)"
proof (induction h rule: rev_induct)
  case (snoc r h)
  show ?case
  proof (cases "n \<le> length h")
    case True
    have "word_of_nat n < (word_of_nat (Suc (length h)) :: u64)"
      using True snoc.prems word_of_nat_le64 [of "Suc (length h)" n] by (simp add: not_le [symmetric])
    with snoc True show ?thesis by (auto simp: log_version_def)
  next
    case False
    with snoc.prems have n: "n = length (h @ [r])" by simp
    then have "log_versions (h @ [r]) key \<noteq> [] \<Longrightarrow> v_seq (last (log_versions (h @ [r]) key)) \<le> word_of_nat n"
      using log_versions_seq [OF snoc.prems(1)] last_in_set by metis
    with n show ?thesis by (auto simp: not_less [symmetric])
  qed
qed simp

lemma ChangedSince_log:
  "history s h \<Longrightarrow> n \<le> length h \<Longrightarrow>
     ChangedSince (word_of_nat n) key s \<longleftrightarrow> key \<in> rec_written ` set (drop n h)"
  using changed_log [of h n key] by (simp add: ChangedSince_def history_def)

section \<open>Writes\<close>

text \<open>
  The store represents the writes \<open>h\<close> of its versions and the map \<open>m\<close> of its index, and \<open>c\<close> is
  the chain of pages it appends to.
\<close>

definition rep :: "Store \<Rightarrow> chain \<Rightarrow> log_rec list \<Rightarrow> (bytes \<rightharpoonup> bytes) \<Rightarrow> bool" where
  "rep s c h m \<longleftrightarrow> core s c \<and> history s h \<and> map_of (tree_entries (index s)) = m"

definition saved :: "Store \<Rightarrow> bool" where
  "saved s \<longleftrightarrow> idx_data (idx s) = IndexEntries (tree_entries (index s))"

definition small :: "log_rec \<Rightarrow> bool" where
  "small r \<longleftrightarrow> rec_len r \<le> PageSize - HeaderSize"

text \<open>What a run of writes \<open>rs\<close> does: it appends them to the chain, to the history and to the map.\<close>

definition wrote :: "log_rec list \<Rightarrow> Store \<Rightarrow> chain \<Rightarrow> log_rec list \<Rightarrow> (bytes \<rightharpoonup> bytes) \<Rightarrow> Store \<Rightarrow> chain \<Rightarrow> bool" where
  "wrote rs s c h m s' c' \<longleftrightarrow>
     rep s' c' (h @ rs) (fold log_step rs m) \<and> chain_log c' = chain_log c @ rs \<and>
     wal s' = wal s \<and> activeSnapshots s' = activeSnapshots s \<and>
     unat (numPages (pager s')) \<le> unat (numPages (pager s)) + length rs \<and> kept c (pager s) c' (pager s') \<and>
     (from_zero (pager s) c \<longrightarrow> from_zero (pager s') c')"

lemma wrote_Nil: "rep s c h m \<Longrightarrow> wrote [] s c h m s c"
  by (auto simp: wrote_def intro: kept_same_view simp: same_view_def rep_def core_def)

lemma wrote_append:
  "wrote rs s c h m s1 c1 \<Longrightarrow> wrote qs s1 c1 (h @ rs) (fold log_step rs m) s' c' \<Longrightarrow> wrote (rs @ qs) s c h m s' c'"
  by (auto simp: wrote_def intro: kept_trans)

lemma rep_room:
  "unat (numPages p) < 2 ^ 32 - 1 \<Longrightarrow> numPages p < NoPage"
  by (simp add: word_less_nat_alt unat_NoPage)

lemma add_version_core: "core (add_version key v b s) c = core s c"
  by (simp add: add_version_def core_def store_chain_def)

lemma add_version_frame:
  "wal (add_version key v b s) = wal s" "index (add_version key v b s) = index s"
  "pager (add_version key v b s) = pager s" "activeSnapshots (add_version key v b s) = activeSnapshots s"
  by (simp_all add: add_version_def)

text \<open>\<open>append\<close>, whose index step is still missing when a tombstone went to the current page.\<close>

lemma store_append_fine:
  assumes "rep s c h m" and "small (flag, key, v)" and "unat (numPages (pager s)) < 2 ^ 32 - 1"
    and "Suc (length h) < 2 ^ 64"
  shows "\<exists>s' c'. store_append key v flag s = (s', Inr ()) \<and> appended flag key v s c s' c' \<and>
    history s' (h @ [(flag, key, v)]) \<and> activeSnapshots s' = activeSnapshots s"
proof -
  let ?s = "add_version key v (flag = flagLive) s"
  from assms(1) have "core ?s c" and h: "history ?s (h @ [(flag, key, v)])"
    using history_add [OF _ assms(4)] by (auto simp: rep_def add_version_core)
  from append_record_fine [OF this(1), of flag key v] assms(2,3) obtain s' c' where
    a: "append_record key v flag ?s = (s', Inr ())" "appended flag key v ?s c s' c'"
    by (auto simp: small_def add_version_frame rep_room)
  have same: "same_history ?s s'" using withinD [OF append_record_frame a(1)] .
  have "history s' (h @ [(flag, key, v)])" using history_same [OF same h] .
  moreover have "activeSnapshots s' = activeSnapshots s" using same by (simp add: same_history_def add_version_frame)
  moreover have "appended flag key v s c s' c'" using a(2) by (simp add: appended_def add_version_frame)
  ultimately show ?thesis using a(1) by (auto simp: store_append_def)
qed

lemma map_of_without: "map_of (filter (\<lambda>e. fst e \<noteq> key) es) = (map_of es)(key := None)"
  using map_of_filter_key [of "\<lambda>j. j \<noteq> key" es] by (simp add: fun_eq_iff del: filter_filter)

lemma indexed_map:
  "indexed flagLive key v es es' \<Longrightarrow> map_of es' = log_step (flagLive, key, v) (map_of es)"
  "indexed flag key v es es' \<Longrightarrow> flag \<noteq> flagLive \<Longrightarrow>
     map_of (filter (\<lambda>e. fst e \<noteq> key) es') = log_step (flag, key, v) (map_of es)"
  by (auto simp: indexed_def log_step_def map_of_put_sorted map_of_without)

lemma live_write:
  assumes "rep s c h m" and "small (flagLive, key, v)" and "unat (numPages (pager s)) < 2 ^ 32 - 1"
    and "Suc (length h) < 2 ^ 64"
  shows "\<exists>s' c'. store_append key v flagLive s = (s', Inr ()) \<and> wrote [(flagLive, key, v)] s c h m s' c' \<and> saved s'"
  using store_append_fine [OF assms] assms(1) indexed_map(1)
  by (fastforce simp: wrote_def rep_def saved_def appended_def)

lemma tomb_write:
  assumes "rep s c h m" and "small (flagTombstone, key, v)" and "unat (numPages (pager s)) < 2 ^ 32 - 1"
    and "Suc (length h) < 2 ^ 64"
  shows "\<exists>s1 s' c'. store_append key v flagTombstone s = (s1, Inr ()) \<and> index_delete key s1 = (s', Inr ()) \<and>
    wrote [(flagTombstone, key, v)] s c h m s' c'"
proof -
  from store_append_fine [OF assms] obtain s1 c' where
    s1: "store_append key v flagTombstone s = (s1, Inr ())" "appended flagTombstone key v s c s1 c'"
    "history s1 (h @ [(flagTombstone, key, v)])" "activeSnapshots s1 = activeSnapshots s" by blast
  then have core: "core s1 c'" by (simp add: appended_def)
  from index_delete_fine [OF core_btree(1) [OF core]] obtain t where
    t: "index_delete key s1 = (s1\<lparr>index := t\<rparr>, Inr ())" "btree_ok t"
    "tree_entries t = filter (\<lambda>e. fst e \<noteq> key) (tree_entries (index s1))" by blast
  have "flagTombstone \<noteq> flagLive" by (simp add: flagTombstone_def flagLive_def)
  with s1(2) assms(1) have m: "map_of (tree_entries t) = log_step (flagTombstone, key, v) m"
    using indexed_map(2) [of flagTombstone key v "tree_entries (index s)" "tree_entries (index s1)"]
    by (simp add: appended_def rep_def t(3))
  have "history (s1\<lparr>index := t\<rparr>) (h @ [(flagTombstone, key, v)])"
    using s1(3) by (rule history_same [rotated]) (simp add: same_history_def)
  with core_index [OF core t(2)] m s1 t(1) show ?thesis
    by (intro exI [of _ s1] exI [of _ "s1\<lparr>index := t\<rparr>"] exI [of _ c'])
      (simp add: wrote_def rep_def appended_def)
qed

section \<open>Calls that write\<close>

definition op_log :: "BatchOp \<Rightarrow> log_rec" where
  "op_log op = (if Delete op then flagTombstone else flagLive, Key op, Value op)"

fun call_log :: "store_call \<Rightarrow> log_rec list" where
  "call_log (DoPut key v) = [(flagLive, key, v)]"
| "call_log (DoDelete key) = [(flagTombstone, key, [])]"
| "call_log (DoBatch tid ops) = map op_log ops"
| "call_log c = []"

fun logged :: "store_call \<Rightarrow> wal_call list" where
  "logged (DoPut key v) = [CallPut key v]"
| "logged (DoDelete key) = [CallDelete key]"
| "logged (DoBatch tid ops) = [CallTransaction tid ops]"
| "logged c = []"

text \<open>Room for \<open>n\<close> more writes: for each of them a page and a sequence number.\<close>

definition room :: "nat \<Rightarrow> Store \<Rightarrow> log_rec list \<Rightarrow> bool" where
  "room n s h \<longleftrightarrow> unat (numPages (pager s)) + n < 2 ^ 32 \<and> length h + n < 2 ^ 64"

lemma room_wrote: "room (length rs + n) s h \<Longrightarrow> wrote rs s c h m s' c' \<Longrightarrow> room n s' (h @ rs)"
  by (auto simp: room_def wrote_def)

lemma roomD: "room (Suc n) s h \<Longrightarrow> unat (numPages (pager s)) < 2 ^ 32 - 1" "room (Suc n) s h \<Longrightarrow> Suc (length h) < 2 ^ 64"
  by (auto simp: room_def)

lemma batch_write:
  "rep s c h m \<Longrightarrow> \<forall>op \<in> set ops. small (op_log op) \<Longrightarrow> room (length ops) s h \<Longrightarrow>
     \<exists>s' c'. batch_appends ops s = (s', Inr ()) \<and> wrote (map op_log ops) s c h m s' c'"
proof (induction ops arbitrary: s c h m)
  case Nil
  then show ?case using wrote_Nil [OF Nil(1)] by auto
next
  case (Cons op ops)
  have r: "room (Suc (length ops)) s h" using Cons.prems(3) by simp
  have "\<exists>s1 s2 c2. store_append (Key op) (Value op) (if Delete op then flagTombstone else flagLive) s = (s1, Inr ()) \<and>
      (if Delete op then index_delete (Key op) s1 else (s1, Inr ())) = (s2, Inr ()) \<and> wrote [op_log op] s c h m s2 c2"
    using live_write [OF Cons.prems(1) _ roomD [OF r], of "Key op" "Value op"]
      tomb_write [OF Cons.prems(1) _ roomD [OF r], of "Key op" "Value op"] Cons.prems(2)
    by (cases "Delete op") (auto simp: op_log_def)
  then obtain s1 s2 c2 where s2: "store_append (Key op) (Value op) (if Delete op then flagTombstone else flagLive) s = (s1, Inr ())"
    "(if Delete op then index_delete (Key op) s1 else (s1, Inr ())) = (s2, Inr ())" "wrote [op_log op] s c h m s2 c2" by blast
  have "rep s2 c2 (h @ [op_log op]) (fold log_step [op_log op] m)" using s2(3) by (simp add: wrote_def)
  from Cons.IH [OF this] Cons.prems(2) room_wrote [OF _ s2(3), of "length ops"] r obtain s' c' where
    "batch_appends ops s2 = (s', Inr ())" "wrote (map op_log ops) s2 c2 (h @ [op_log op]) (fold log_step [op_log op] m) s' c'"
    by auto
  with s2 wrote_append [OF s2(3)] show ?case by fastforce
qed

lemma rep_saveIndex:
  assumes "rep s c h m"
  shows "\<exists>i. saveIndex s = (s\<lparr>idx := i\<rparr>, Inr ()) \<and> rep (s\<lparr>idx := i\<rparr>) c h m \<and> saved (s\<lparr>idx := i\<rparr>)"
  using assms saveIndex_fine core_btree core_idx
  by (auto simp: rep_def saved_def history_def versions_of_def)

lemma wrote_idx: "wrote rs s c h m s1 c1 \<Longrightarrow> rep (s1\<lparr>idx := i\<rparr>) c1 (h @ rs) (fold log_step rs m) \<Longrightarrow> wrote rs s c h m (s1\<lparr>idx := i\<rparr>) c1"
  by (simp add: wrote_def)

lemma wrote_saveIndex:
  assumes "wrote rs s c h m s1 c1"
  shows "\<exists>s'. saveIndex s1 = (s', Inr ()) \<and> wrote rs s c h m s' c1 \<and> saved s'"
  using assms rep_saveIndex [of s1 c1 "h @ rs" "fold log_step rs m"] wrote_idx by (auto simp: wrote_def)

text \<open>The log file takes the record of a call before anything else happens.\<close>

lemma run_call_fine:
  assumes "faults w = []" and "\<forall>q \<in> set (call_records c). rec_fits q"
  shows "run_call c w = (w\<lparr>fdata := fdata w @ wal_encode (call_records c)\<rparr>, Inr ())"
proof (cases c)
  case (CallTransaction tid ops)
  have ops: "\<forall>op \<in> set ops. rec_fits (op_rec tid op) \<Longrightarrow> faults v = [] \<Longrightarrow>
      append_ops tid ops v = (v\<lparr>fdata := fdata v @ wal_encode (map (op_rec tid) ops)\<rparr>, Inr ())" for v
    by (induction ops arbitrary: v) (auto simp: op_rec_def wal_append_fine encode_rec_def)
  from CallTransaction assms show ?thesis
    by (simp add: appendTransaction_def tx_records_def ops wal_append_fine encode_rec_def)
qed (use assms in \<open>simp_all add: wal_append_fine encode_rec_def\<close>)

lemma run_call_eqs:
  "run_call (CallPut key v) = wal_append walPut key v" "run_call (CallDelete key) = wal_append walDelete key []"
  "run_call (CallTransaction tid ops) = appendTransaction tid ops"
  by (simp_all add: fun_eq_iff)

lemma small_fits:
  assumes "\<forall>r \<in> set (call_log c). small r" and "w \<in> set (logged c)" and "q \<in> set (call_records w)"
  shows "rec_fits q"
  using assms by (cases c)
    (auto simp: small_def rec_len_def rec_fits_def tx_records_def op_rec_def op_log_def page_consts recordHeaderSize_def split: if_splits)

lemma rep_wal: "rep s c h m \<Longrightarrow> faults w = [] \<Longrightarrow> rep (s\<lparr>wal := w\<rparr>) c h m"
  by (simp add: rep_def core_def store_chain_def history_def versions_of_def)

lemma exec_write:
  assumes "rep s c h m" and "\<forall>r \<in> set (call_log cl). small r" and "room (length (call_log cl)) s h"
    and "logged cl = [w]"
  defines "w1 \<equiv> (wal s)\<lparr>fdata := fdata (wal s) @ wal_encode (call_records w)\<rparr>"
  shows "\<exists>s' c'. exec_call cl s = (s', Inr ()) \<and> wrote (call_log cl) (s\<lparr>wal := w1\<rparr>) c h m s' c' \<and> saved s'"
proof -
  have f: "faults (wal s) = []" using assms(1) by (simp add: rep_def core_def)
  have run: "on_wal (run_call w) s = (s\<lparr>wal := w1\<rparr>, Inr ())"
    using run_call_fine [OF f] small_fits [OF assms(2), of w] assms(4) by (simp add: on_wal_def w1_def)
  have r1: "rep (s\<lparr>wal := w1\<rparr>) c h m" using assms(1) f by (simp add: rep_wal w1_def)
  have room1: "room n (s\<lparr>wal := w1\<rparr>) h = room n s h" for n by (simp add: room_def)
  show ?thesis
  proof (cases cl)
    case (DoPut key v)
    with assms(2,3,4) run live_write [OF r1, of key v] roomD [of 0 s h] show ?thesis
      by (auto simp: store_Put_def run_call_eqs)
  next
    case (DoDelete key)
    with assms(2,3) tomb_write [OF r1, of key "[]"] roomD [of 0 s h] obtain s1 s2 c' where
      "store_append key [] flagTombstone (s\<lparr>wal := w1\<rparr>) = (s1, Inr ())" "index_delete key s1 = (s2, Inr ())"
      and w: "wrote [(flagTombstone, key, [])] (s\<lparr>wal := w1\<rparr>) c h m s2 c'" by auto
    with wrote_saveIndex [OF w] run DoDelete assms(4) show ?thesis by (auto simp: store_Delete_def run_call_eqs)
  next
    case (DoBatch tid ops)
    with assms(2,3) batch_write [OF r1, of ops] obtain s2 c' where
      "batch_appends ops (s\<lparr>wal := w1\<rparr>) = (s2, Inr ())"
      and w: "wrote (map op_log ops) (s\<lparr>wal := w1\<rparr>) c h m s2 c'" by (auto simp: room1)
    with wrote_saveIndex [OF w] run DoBatch assms(4) show ?thesis by (auto simp: ApplyBatch_def run_call_eqs)
  qed (use assms(4) in simp_all)
qed

section \<open>Flushing and closing\<close>

definition range_ok :: "range_order \<Rightarrow> bool" where
  "range_ok rng \<longleftrightarrow> (\<forall>b. set (rng b) = fst ` set (items b))"

lemma rep_pager: "rep s c h m \<Longrightarrow> same_view (pager s) p \<Longrightarrow> rep (s\<lparr>pager := p\<rparr>) c h m"
  using core_same_view by (auto simp: rep_def history_def versions_of_def)

lemma pager_Sync_fine: "pager_fine p \<Longrightarrow> pager_Sync p = (p, None)"
  by (simp add: pager_fine_def pager_Sync_def os_Sync_def)

lemma flush_pager_fine:
  assumes "pager_fine (pager s)"
  shows "\<exists>p. flush_pager rng s = (s\<lparr>pager := p\<rparr>, Inr ()) \<and> sync_pager (s\<lparr>pager := p\<rparr>) = (s\<lparr>pager := p\<rparr>, Inr ()) \<and>
    same_view (pager s) p \<and> pager_Flush (rng (pool (pager s))) (pager s) = (p, None)"
  using pager_Flush_fine [OF assms, of "rng (pool (pager s))"]
  by (auto simp: flush_pager_def sync_pager_def on_pager_def pager_Sync_fine same_view_def)

lemma wal_clear_fine: "faults w = [] \<Longrightarrow> wal_clear w = (w\<lparr>fdata := []\<rparr>, Inr ())"
  by (simp add: wal_clear_def os_Truncate_def os_Sync_def)

lemma store_Flush_fine:
  assumes "rep s c h m"
  shows "\<exists>s'. store_Flush rng s = (s', Inr ()) \<and> rep s' c h m \<and> saved s' \<and> same_view (pager s) (pager s') \<and>
    wal s' = (wal s)\<lparr>fdata := []\<rparr> \<and> activeSnapshots s' = activeSnapshots s"
proof -
  from flush_pager_fine [of s rng] assms obtain p where
    p: "flush_pager rng s = (s\<lparr>pager := p\<rparr>, Inr ())" "sync_pager (s\<lparr>pager := p\<rparr>) = (s\<lparr>pager := p\<rparr>, Inr ())"
    "same_view (pager s) p" by (auto simp: rep_def core_def)
  from rep_saveIndex [OF rep_pager [OF assms p(3)]] obtain i where
    i: "saveIndex (s\<lparr>pager := p\<rparr>) = (s\<lparr>pager := p, idx := i\<rparr>, Inr ())" "rep (s\<lparr>pager := p, idx := i\<rparr>) c h m"
    "saved (s\<lparr>pager := p, idx := i\<rparr>)" by auto
  have f: "faults (wal s) = []" using assms by (simp add: rep_def core_def)
  let ?s' = "s\<lparr>pager := p, idx := i, wal := (wal s)\<lparr>fdata := []\<rparr>\<rparr>"
  have "store_Flush rng s = (?s', Inr ())"
    using p i f by (simp add: store_Flush_def on_wal_def wal_clear_fine)
  moreover have "rep ?s' c h m" using rep_wal [OF i(2), of "(wal s)\<lparr>fdata := []\<rparr>"] f by simp
  ultimately show ?thesis using p(3) i(3) by (auto simp: saved_def)
qed

end
