(* ===== verification/Store_Compact.thy ===== *)
theory Store_Compact
  imports Store_Log
begin

text \<open>
  Compaction. The entries of the index are written, in key order, to a new page file that
  replaces the old one: the new chain holds one live record for each key and nothing else, and
  the map, the versions and the sequence number are those of before.
\<close>

section \<open>Writing the new file\<close>

text \<open>
  The state of the loop: the pages \<open>c0\<close> are complete, the page \<open>q\<close> with the records \<open>rs\<close> is
  still being filled and stands in the pager as it was allocated, empty.
\<close>

definition compacting :: "Pager \<Rightarrow> Page \<Rightarrow> chain \<Rightarrow> u32 \<Rightarrow> log_rec list \<Rightarrow> bool" where
  "compacting p q c0 i rs \<longleftrightarrow>
     pager_fine p \<and> pages_valid p \<and> chain_from (pager_view p) (c0 @ [(i, [])]) \<and>
     distinct (map fst (c0 @ [(i, [])])) \<and> fst (hd (c0 @ [(i, [])])) = 0 \<and>
     page_has q rs \<and> ID q = i \<and> NextPageID q = NoPage \<and> unat (numPages p) = Suc (length c0)"

definition live :: "entry \<Rightarrow> log_rec" where
  "live e = (flagLive, fst e, snd e)"

text \<open>The effect of the loop so far: the records \<open>rs\<close> are written, on at most \<open>n\<close> pages.\<close>

fun progress :: "Pager \<times> Page option \<Rightarrow> log_rec list \<Rightarrow> bool" where
  "progress (p, None) rs \<longleftrightarrow> pager_fine p \<and> pages_valid p \<and> numPages p = 0 \<and> rs = []"
| "progress (p, Some q) rs \<longleftrightarrow>
     (\<exists>c0 i qs. compacting p q c0 i qs \<and> rs = chain_log c0 @ qs \<and> length c0 < length rs)"

lemma compact_first:
  assumes "pager_fine p" and "pages_valid p" and "numPages p = 0"
  shows "\<exists>p'. AllocatePage p = (p', Inr (NewPage 0)) \<and> compacting p' (NewPage 0) [] 0 []"
proof -
  have room: "numPages p < NoPage" using assms(3) by (simp add: word_less_nat_alt unat_NoPage)
  from AllocatePage_fine [OF assms(1) room] assms(3) obtain p' where
    p': "AllocatePage p = (p', Inr (NewPage 0))" "pager_fine p'" "pager_view p' = (pager_view p)(0 \<mapsto> NewPage 0)"
    "numPages p' = 1" by auto
  have "pages_valid p'" using pages_valid_allocate [OF assms(2) room, of p'] p' assms(3) by simp
  with p' show ?thesis by (auto simp: compacting_def page_at_def)
qed

lemma compact_next:
  assumes c: "compacting p q c0 i rs" and room: "numPages p < NoPage"
  defines "n \<equiv> numPages p"
  shows "\<exists>p1 p2. AllocatePage p = (p1, Inr (NewPage n)) \<and>
    check [] (WritePage (SetNextPageID n q) p1) = (p2, Inr ()) \<and>
    compacting p2 (NewPage n) (c0 @ [(i, rs)]) n []"
proof -
  from c have fine: "pager_fine p" and valid: "pages_valid p" and ch: "chain_from (pager_view p) (c0 @ [(i, [])])"
    and d: "distinct (map fst (c0 @ [(i, [])]))" and hd0: "fst (hd (c0 @ [(i, [])])) = 0"
    and q: "page_has q rs" "ID q = i" and len: "unat n = Suc (length c0)" by (auto simp: compacting_def n_def)
  have less: "j < n + 1 \<longleftrightarrow> j = n \<or> j < n" for j using less_next_page [OF room] by (simp add: n_def)
  from AllocatePage_fine [OF fine room] obtain p1 where
    p1: "AllocatePage p = (p1, Inr (NewPage n))" "pager_fine p1" "pager_view p1 = (pager_view p)(n \<mapsto> NewPage n)"
    "numPages p1 = n + 1" by (auto simp: n_def)
  have v1: "pages_valid p1" using pages_valid_allocate [OF valid room] p1 by (simp add: n_def)
  have i: "i < n" using chain_last [OF ch] view_bound by (auto simp: page_at_def n_def)
  let ?q = "SetNextPageID n q"
  have hq: "page_has ?q rs" "wf_page ?q" "ID ?q = i" "NextPageID ?q = n" using q by (auto simp: page_has_def)
  from WritePage_fine [OF p1(2) hq(2)] hq i p1(4) obtain p2 where
    p2: "WritePage ?q p1 = (p2, None)" "pager_fine p2" "pager_view p2 = (pager_view p1)(i \<mapsto> ?q)" "numPages p2 = n + 1"
    by (auto simp: less)
  have v2: "pages_valid p2" using pages_valid_write [OF v1, of p2 ?q rs] p1(4) p2 hq by (simp add: less)
  have fresh: "n \<notin> fst ` set (c0 @ [(i, [])])" using chain_bound [OF ch, of n] unfolding n_def by (metis less_irrefl)
  have "chain_from (pager_view p2) (c0 @ [(i, rs), (n, [])])"
  proof (rule chain_extend [OF ch])
    show notin: "i \<notin> fst ` set c0" using d by simp
    show "page_at (pager_view p2) i rs n" using hq fresh by (auto simp: page_at_def p2(3))
    show "page_at (pager_view p2) n [] NoPage" using i by (auto simp: page_at_def p2(3) p1(3))
    show "\<forall>j \<in> fst ` set c0. pager_view p2 j = pager_view p j"
    proof
      fix j assume "j \<in> fst ` set c0"
      with notin fresh have "j \<noteq> i" "j \<noteq> n" by (auto simp del: image_iff)
      then show "pager_view p2 j = pager_view p j" by (simp add: p2(3) p1(3) n_def)
    qed
  qed
  moreover have "fst (hd (c0 @ [(i, rs), (n, [])])) = 0" using hd0 by (cases c0) auto
  ultimately have "compacting p2 (NewPage n) (c0 @ [(i, rs)]) n []"
    using p2(2,4) v2 d fresh len unat_next_page [OF room] by (auto simp: compacting_def n_def simp del: image_iff)
  with p1(1) p2(1) show ?thesis by auto
qed

lemma compact_entry_fine:
  assumes "progress st rs" and "small (live e)" and "length rs < 2 ^ 32 - 2"
  shows "\<exists>st'. compact_entry e st = (st', Inr ()) \<and> progress st' (rs @ [live e]) \<and> snd st' \<noteq> None"
proof -
  obtain key v where e: "e = (key, v)" by fastforce
  have fill: "\<exists>q'. writeRecord key v flagLive q = Inr q' \<and> compacting p q' c0 i (qs @ [live e])"
    if "compacting p q c0 i qs" "unat (FreeOffset q) + rec_len (live e) \<le> PageSize" for p q c0 i qs
    using writeRecord_ok [of q qs "live e"] that by (auto simp: compacting_def live_def e)
  have new: "\<exists>q'. writeRecord key v flagLive (NewPage n) = Inr q' \<and> compacting p q' c0 n [live e]"
    if "compacting p (NewPage n) c0 n []" for p c0 n
    using fill [OF that] assms(2) by (simp add: small_def page_consts)
  obtain p oq where st: "st = (p, oq)" by fastforce
  show ?thesis
  proof (cases oq)
    case None
    with assms(1) st have p: "pager_fine p" "pages_valid p" "numPages p = 0" "rs = []" by auto
    from compact_first [OF p(1-3)] obtain p' where
      p': "AllocatePage p = (p', Inr (NewPage 0))" "compacting p' (NewPage 0) [] 0 []" by blast
    from new [OF p'(2)] obtain q' where "writeRecord key v flagLive (NewPage 0) = Inr q'" "compacting p' q' [] 0 [live e]" by blast
    with p'(1) p(4) show ?thesis
      by (intro exI [of _ "(p', Some q')"]) (auto simp: compact_entry_def e st None chain_log_def intro!: exI [of _ "[]"])
  next
    case (Some q)
    with assms(1) st obtain c0 i qs where
      q: "compacting p q c0 i qs" "rs = chain_log c0 @ qs" "length c0 < length rs" by auto
    show ?thesis
    proof (cases "unat (FreeOffset q) + rec_len (live e) \<le> PageSize")
      case True
      from fill [OF q(1) True] obtain q' where q': "writeRecord key v flagLive q = Inr q'" "compacting p q' c0 i (qs @ [live e])" by blast
      then show ?thesis using q(2,3)
        by (intro exI [of _ "(p, Some q')"]) (auto simp: compact_entry_def e st Some intro!: exI [of _ c0])
    next
      case False
      then have full: "writeRecord key v flagLive q = Inl ErrPageFull" by (intro writeRecord_full) (simp add: live_def e)
      have "unat (numPages p) = Suc (length c0)" using q(1) by (simp add: compacting_def)
      with q(3) assms(3) have "numPages p < NoPage" by (simp add: word_less_nat_alt unat_NoPage)
      from compact_next [OF q(1) this] obtain p1 p2 where
        p2: "AllocatePage p = (p1, Inr (NewPage (numPages p)))"
        "check [] (WritePage (SetNextPageID (numPages p) q) p1) = (p2, Inr ())"
        "compacting p2 (NewPage (numPages p)) (c0 @ [(i, qs)]) (numPages p) []" by blast
      from new [OF p2(3)] obtain q' where
        q': "writeRecord key v flagLive (NewPage (numPages p)) = Inr q'"
        "compacting p2 q' (c0 @ [(i, qs)]) (numPages p) [live e]" by blast
      show ?thesis using q(2,3) q' p2 full
        by (intro exI [of _ "(p2, Some q')"])
          (auto simp: compact_entry_def e st Some chain_log_def intro!: exI [of _ "c0 @ [(i, qs)]"])
    qed
  qed
qed

lemma compact_entries_fine:
  "progress st rs \<Longrightarrow> \<forall>e \<in> set es. small (live e) \<Longrightarrow> length rs + length es < 2 ^ 32 - 1 \<Longrightarrow>
     \<exists>st'. compact_entries es st = (st', Inr ()) \<and> progress st' (rs @ map live es) \<and>
       (snd st' = None \<longleftrightarrow> snd st = None \<and> es = [])"
proof (induction es arbitrary: st rs)
  case (Cons e es)
  from compact_entry_fine [OF Cons.prems(1), of e] Cons.prems(2,3) obtain st1 where
    st1: "compact_entry e st = (st1, Inr ())" "progress st1 (rs @ [live e])" "snd st1 \<noteq> None" by auto
  from Cons.IH [OF st1(2)] Cons.prems(2,3) st1(1,3) show ?case by auto
qed auto

section \<open>Replacing the old file\<close>

lemma pager_Close_fine:
  assumes fine: "pager_fine p" and ord: "set ord = fst ` set (items (pool p))"
  shows "\<exists>p' p''. pager_Close ord p = (p', None) \<and> pager_Open (dbfile p') = Inr p'' \<and> same_view p p''"
proof -
  from pager_Flush_fine [OF fine, of ord] obtain p' where
    p': "pager_Flush ord p = (p', None)" "pager_fine p'" by blast
  then have close: "pager_Close ord p = (p', None)" by (simp add: pager_Close_def pager_Sync_fine)
  from fine have "pager_ok p" by (simp add: pager_fine_def)
  from pager_Close_durable [OF this close ord refl] p'(2) close show ?thesis
    by (auto simp: same_view_def pager_fine_def)
qed

lemma same_view_valid: "same_view p p' \<Longrightarrow> pages_valid p \<Longrightarrow> pages_valid p'"
  by (simp add: same_view_def pages_valid_def)

text \<open>What is on disk once the new file is closed.\<close>

definition new_chain :: "Pager \<Rightarrow> bool \<Rightarrow> chain \<Rightarrow> bool" where
  "new_chain p b c \<longleftrightarrow>
     pager_fine p \<and> pages_valid p \<and> unat (numPages p) = length c \<and>
     (if b then c \<noteq> [] \<and> fst (hd c) = 0 \<and> chain_from (pager_view p) c \<and> distinct (map fst c) else c = [])"

lemma new_chain_view: "new_chain p b c \<Longrightarrow> same_view p p' \<Longrightarrow> new_chain p' b c"
  using same_view_valid by (auto simp: new_chain_def same_view_def)

lemma finish_last:
  assumes "compacting p q c0 i qs"
  shows "\<exists>p'. WritePage q p = (p', None) \<and> new_chain p' True (c0 @ [(i, qs)])"
proof -
  from assms have fine: "pager_fine p" and valid: "pages_valid p" and ch: "chain_from (pager_view p) (c0 @ [(i, [])])"
    and d: "distinct (map fst (c0 @ [(i, [])]))" and hd0: "fst (hd (c0 @ [(i, [])])) = 0"
    and q: "page_has q qs" "ID q = i" "NextPageID q = NoPage" and len: "unat (numPages p) = Suc (length c0)"
    by (auto simp: compacting_def)
  have i: "i < numPages p" using chain_last [OF ch] view_bound by (auto simp: page_at_def)
  have "wf_page q" using q(1) by (simp add: page_has_def)
  from WritePage_fine [OF fine this] q i obtain p' where
    p': "WritePage q p = (p', None)" "pager_fine p'" "pager_view p' = (pager_view p)(i \<mapsto> q)" "numPages p' = numPages p" by auto
  have "pages_valid p'" using pages_valid_write [OF valid, of p' q qs] p' q by simp
  moreover have "chain_from (pager_view p') (c0 @ [(i, qs)])"
  proof (rule chain_update_last [OF ch])
    show notin: "i \<notin> fst ` set c0" using d by simp
    show "page_at (pager_view p') i qs NoPage" using q by (auto simp: page_at_def p'(3))
    show "\<forall>j \<in> fst ` set c0. pager_view p' j = pager_view p j"
      using notin by (intro ballI) (simp add: p'(3), blast)
  qed
  moreover have "fst (hd (c0 @ [(i, qs)])) = 0" using hd0 by (cases c0) auto
  ultimately show ?thesis using p' d len by (auto simp: new_chain_def simp del: image_iff)
qed

lemma compact_finish_fine:
  assumes "progress (p, lp) rs" and "range_ok rng"
  shows "\<exists>p' p'' c. compact_finish rng lp p = (p', Inr ()) \<and> pager_Open (dbfile p') = Inr p'' \<and>
    new_chain p'' (lp \<noteq> None) c \<and> chain_log c = rs \<and> length c \<le> length rs"
proof -
  have "\<exists>p1 c. (case lp of None \<Rightarrow> (p, Inr ()) | Some page \<Rightarrow> check [] (WritePage page p)) = (p1, Inr ()) \<and>
      new_chain p1 (lp \<noteq> None) c \<and> chain_log c = rs \<and> length c \<le> length rs"
  proof (cases lp)
    case None
    with assms(1) show ?thesis by (auto simp: new_chain_def chain_log_def)
  next
    case (Some q)
    with assms(1) obtain c0 i qs where
      q: "compacting p q c0 i qs" "rs = chain_log c0 @ qs" "length c0 < length rs" by auto
    from finish_last [OF q(1)] obtain p' where "WritePage q p = (p', None)" "new_chain p' True (c0 @ [(i, qs)])" by blast
    with q(2,3) Some show ?thesis
      by (intro exI [of _ p'] exI [of _ "c0 @ [(i, qs)]"]) (simp add: chain_log_def)
  qed
  then obtain p1 c where
    p1: "(case lp of None \<Rightarrow> (p, Inr ()) | Some page \<Rightarrow> check [] (WritePage page p)) = (p1, Inr ())"
    "new_chain p1 (lp \<noteq> None) c" "chain_log c = rs" "length c \<le> length rs" by blast
  have f1: "pager_fine p1" using p1(2) by (simp add: new_chain_def)
  from pager_Flush_fine [OF f1, of "rng (pool p1)"] obtain p2 where
    p2: "pager_Flush (rng (pool p1)) p1 = (p2, None)" "pager_fine p2" "same_view p1 p2" by (auto simp: same_view_def)
  from pager_Close_fine [OF p2(2), of "rng (pool p2)"] assms(2) obtain p3 p4 where
    p3: "pager_Close (rng (pool p2)) p2 = (p3, None)" "pager_Open (dbfile p3) = Inr p4" "same_view p2 p4"
    by (auto simp: range_ok_def)
  have "compact_finish rng lp p = (p3, Inr ())"
    using p1(1) p2 p3(1) by (simp add: compact_finish_def pager_Sync_fine)
  moreover have "new_chain p4 (lp \<noteq> None) c"
    using new_chain_view [OF p1(2)] same_view_trans p2(3) p3(3) by blast
  ultimately show ?thesis using p3(2) p1(3,4) by blast
qed

definition quiet_io :: compact_io where
  "quiet_io = \<lparr>remove_fails = False, rename_fails = False, tmp_faults = []\<rparr>"

lemma open_empty:
  "pager_Open \<lparr>fdata = [], faults = []\<rparr> = Inr \<lparr>dbfile = file_of [], numPages = 0, pool = NewBufferPool 64\<rparr>"
  "progress (\<lparr>dbfile = file_of [], numPages = 0, pool = NewBufferPool 64\<rparr>, None) []"
proof -
  let ?p = "\<lparr>dbfile = file_of [], numPages = 0, pool = NewBufferPool 64\<rparr>"
  show o: "pager_Open \<lparr>fdata = [], faults = []\<rparr> = Inr ?p" by (simp add: pager_Open_def file_of_def)
  then have "pager_ok ?p" using pager_Open_pages(1) [of "\<lparr>fdata = [], faults = []\<rparr>" ?p] by simp
  then show "progress (?p, None) []" by (simp add: pager_fine_def file_of_def pages_valid_def)
qed

lemma Compact_fine:
  assumes r: "rep s c h m" and rng: "range_ok rng" and snap: "activeSnapshots s = 0"
    and small: "\<forall>e \<in> set (tree_entries (index s)). small (live e)"
    and few: "length (tree_entries (index s)) < 2 ^ 32 - 1"
  shows "\<exists>s' c'. Compact rng quiet_io s = (s', Inr ()) \<and> rep s' c' h m \<and>
    chain_log c' = map live (tree_entries (index s)) \<and> index s' = index s \<and> idx s' = idx s \<and>
    wal s' = (wal s)\<lparr>fdata := []\<rparr> \<and> activeSnapshots s' = 0 \<and> (hasPages s' \<longrightarrow> firstPage s' = 0) \<and>
    unat (numPages (pager s')) = length c' \<and> length c' \<le> length (tree_entries (index s))"
proof -
  let ?es = "tree_entries (index s)" and ?p0 = "\<lparr>dbfile = file_of [], numPages = 0, pool = NewBufferPool 64\<rparr>"
  from r have ok: "btree_ok (index s)" and fine: "pager_fine (pager s)" and f: "faults (wal s) = []"
    by (auto simp: rep_def core_def)
  from compact_entries_fine [OF open_empty(2) small] few obtain np lp where
    ce: "compact_entries ?es (?p0, None) = ((np, lp), Inr ())" "progress (np, lp) (map live ?es)" by auto
  from compact_finish_fine [OF ce(2) rng] obtain np' p'' c' where
    cf: "compact_finish rng lp np = (np', Inr ())" "pager_Open (dbfile np') = Inr p''"
    "new_chain p'' (lp \<noteq> None) c'" "chain_log c' = map live ?es" "length c' \<le> length ?es" by auto
  from pager_Close_fine [OF fine, of "rng (pool (pager s))"] rng obtain p1 where
    cl: "pager_Close (rng (pool (pager s))) (pager s) = (p1, None)" by (auto simp: range_ok_def)
  let ?s' = "s\<lparr>pager := p'', firstPage := 0, hasPages := (lp \<noteq> None), wal := (wal s)\<lparr>fdata := []\<rparr>\<rparr>"
  have "Compact rng quiet_io s = (?s', Inr ())"
    using ce cf cl f snap
    by (simp add: Compact_def quiet_io_def open_empty(1) btree_entries_correct [OF ok] on_pager_def on_wal_def wal_clear_fine)
  moreover have "rep ?s' c' h m"
    using r cf(3) by (auto simp: rep_def core_def store_chain_def new_chain_def history_def versions_of_def)
  ultimately show ?thesis using cf(3-5) by (auto simp: new_chain_def snap)
qed

end
