(* ===== verification/Store_Session.thy ===== *)
theory Store_Session
  imports Store_Compact
begin

text \<open>
  A session of the store, from opening an empty database on: the calls of a client, the checks of
  \<open>CheckInvariants\<close>, closing the store and opening it again.
\<close>

section \<open>The invariant of a session\<close>

definition flags_ok :: "log_rec list \<Rightarrow> bool" where
  "flags_ok h \<longleftrightarrow> (\<forall>r \<in> set h. fst r = flagLive \<or> fst r = flagTombstone)"

text \<open>
  \<open>h\<close> is the list of all writes; the chain of pages starts with the first page of the file and
  holds a log of the same map, which is all of \<open>h\<close> before the first compaction.
\<close>

definition session :: "Store \<Rightarrow> chain \<Rightarrow> log_rec list \<Rightarrow> bool" where
  "session s c h \<longleftrightarrow>
     rep s c h (log_map h) \<and> saved s \<and> (\<forall>r \<in> set h. small r) \<and> log_map (chain_log c) = log_map h \<and>
     flags_ok (chain_log c) \<and> (\<forall>r \<in> set (chain_log c). small r) \<and> from_zero (pager s) c \<and>
     unat (numPages (pager s)) \<le> length h \<and> length (chain_log c) \<le> length h"

text \<open>Calls whose records fit on a page, made while no I/O call fails.\<close>

fun good_call :: "store_call \<Rightarrow> bool" where
  "good_call (DoCompact rng io) \<longleftrightarrow> range_ok rng \<and> io = quiet_io"
| "good_call c \<longleftrightarrow> (\<forall>r \<in> set (call_log c). small r)"

lemma log_map_append: "log_map (h @ rs) = fold log_step rs (log_map h)"
  by (simp add: log_map_def)

lemma flags_call: "flags_ok (call_log cl)"
  by (cases cl) (auto simp: flags_ok_def op_log_def)

lemma log_map_Some: "log_map h key = Some v \<Longrightarrow> (flagLive, key, v) \<in> set h"
proof (induction h rule: rev_induct)
  case (snoc r h)
  then show ?case by (cases r) (auto simp: log_step_def split: if_splits)
qed simp

lemma entries_map: "btree_ok t \<Longrightarrow> e \<in> set (tree_entries t) \<Longrightarrow> map_of (tree_entries t) (fst e) = Some (snd e)"
  using tree_entries_sorted [of t] strict_sorted_iff [of "map fst (tree_entries t)"]
  by (cases e) (auto intro: map_of_is_SomeI)

lemma sessionD:
  assumes "session s c h"
  shows "rep s c h (log_map h)" "core s c" "btree_ok (index s)" "map_of (tree_entries (index s)) = log_map h"
    "history s h" "pager_fine (pager s)"
  using assms by (auto simp: session_def rep_def core_def)

lemma session_entries:
  assumes "session s c h" and "e \<in> set (tree_entries (index s))"
  shows "live e \<in> set h"
  using entries_map [OF sessionD(3) [OF assms(1)] assms(2)] log_map_Some [of h "fst e" "snd e"] sessionD(4) [OF assms(1)]
  by (simp add: live_def)

lemma entries_length:
  assumes "session s c h"
  shows "length (tree_entries (index s)) \<le> length h"
proof -
  let ?es = "tree_entries (index s)"
  have "distinct (map fst ?es)"
    using tree_entries_sorted [OF sessionD(3) [OF assms]] strict_sorted_iff by blast
  then have "distinct ?es" by (simp add: distinct_map)
  then have "length ?es = card (set ?es)" by (simp add: distinct_card)
  also have "\<dots> = card (live ` set ?es)"
    by (rule card_image [symmetric]) (auto simp: inj_on_def live_def prod_eq_iff)
  also have "\<dots> \<le> card (set h)" using session_entries [OF assms] by (intro card_mono) auto
  also have "\<dots> \<le> length h" by (rule card_length)
  finally show ?thesis .
qed

lemma log_map_live:
  assumes "distinct (map fst es)"
  shows "log_map (map live es) = map_of es"
proof -
  have "fold log_step (map live es) m = m ++ map_of es" if "distinct (map fst es)" for m
    using that
  proof (induction es arbitrary: m)
    case (Cons e es)
    then have "map_of es (fst e) = None" by (simp add: map_of_eq_None_iff)
    with Cons show ?case
      by (cases e) (auto simp: live_def log_step_def map_add_def fun_eq_iff split: option.splits)
  qed simp
  from this [OF assms, of Map.empty] show ?thesis by (simp add: log_map_def)
qed

lemma session_Compact:
  assumes s: "session s c h" and "range_ok rng" and "activeSnapshots s = 0" and "length h < 2 ^ 32 - 1"
  shows "\<exists>s' c'. Compact rng quiet_io s = (s', Inr ()) \<and> session s' c' h \<and>
    chain_log c' = map live (tree_entries (index s)) \<and> activeSnapshots s' = 0"
proof -
  let ?es = "tree_entries (index s)"
  have sm: "\<forall>e \<in> set ?es. small (live e)"
    using session_entries [OF s] s by (auto simp: session_def)
  have "length ?es < 2 ^ 32 - 1" using entries_length [OF s] assms(4) by simp
  from Compact_fine [OF sessionD(1) [OF s] assms(2,3) sm this] obtain s' c' where
    s': "Compact rng quiet_io s = (s', Inr ())" "rep s' c' h (log_map h)" "chain_log c' = map live ?es"
    "index s' = index s" "idx s' = idx s" "activeSnapshots s' = 0" "hasPages s' \<longrightarrow> firstPage s' = 0"
    "unat (numPages (pager s')) = length c'" "length c' \<le> length ?es" by auto
  have "distinct (map fst ?es)"
    using tree_entries_sorted [OF sessionD(3) [OF s]] strict_sorted_iff by blast
  then have "log_map (chain_log c') = log_map h" using sessionD(4) [OF s] by (simp add: s'(3) log_map_live)
  moreover have "from_zero (pager s') c'"
    using s'(2,7,8) by (auto simp: from_zero_def rep_def core_def store_chain_def unat_eq_0 split: if_splits)
  moreover have "flags_ok (chain_log c')" by (auto simp: s'(3) flags_ok_def live_def)
  moreover have "unat (numPages (pager s')) \<le> length h" using s'(8,9) entries_length [OF s] by simp
  moreover have "saved s'" using s s'(4,5) by (simp add: session_def saved_def)
  moreover have "length (chain_log c') \<le> length h" using s'(3) entries_length [OF s] by simp
  ultimately have "session s' c' h" using s s'(2,3) sm by (auto simp: session_def)
  with s'(1,3,6) show ?thesis by blast
qed

text \<open>One call: it succeeds, but for a compaction while a snapshot is active, and keeps the invariant.\<close>

lemma session_call:
  assumes s: "session s c h" and good: "good_call cl" and few: "length h + length (call_log cl) < 2 ^ 32 - 1"
  shows "\<exists>s' c' r. exec_call cl s = (s', r) \<and> session s' c' (h @ call_log cl) \<and>
    (r = Inr () \<or> r = Inl ErrSnapshotsActive \<and> s' = s \<and> activeSnapshots s > 0 \<and> (\<exists>rng io. cl = DoCompact rng io))"
proof -
  have writes: ?thesis if w: "logged cl = [w]" and sm: "\<forall>r \<in> set (call_log cl). small r" for w
  proof -
    have room: "room (length (call_log cl)) s h" using s few by (auto simp: room_def session_def)
    let ?w = "(wal s)\<lparr>fdata := fdata (wal s) @ wal_encode (call_records w)\<rparr>"
    from exec_write [OF sessionD(1) [OF s] sm room w] obtain s' c' where
      e: "exec_call cl s = (s', Inr ())" "wrote (call_log cl) (s\<lparr>wal := ?w\<rparr>) c h (log_map h) s' c'" "saved s'" by auto
    have "log_map (chain_log c') = log_map (h @ call_log cl)"
      using e(2) s by (simp add: wrote_def session_def log_map_append)
    moreover have "flags_ok (chain_log c')"
      using e(2) s flags_call [of cl] by (auto simp: wrote_def session_def flags_ok_def)
    ultimately have "session s' c' (h @ call_log cl)"
      using e(2,3) s sm by (auto simp: session_def wrote_def log_map_append)
    with e(1) show ?thesis by blast
  qed
  have reads: ?thesis if "exec_call cl s = (s', Inr ())" "session s' c h" "call_log cl = []" for s'
    using that by auto
  show ?thesis
  proof (cases cl)
    case DoBegin
    have "session (fst (BeginSnapshot s)) c h"
      using s by (simp add: session_def rep_def core_def store_chain_def history_def versions_of_def saved_def BeginSnapshot_def)
    with DoBegin show ?thesis by (intro reads) auto
  next
    case (DoRelease n)
    have "session (ReleaseSnapshot n s) c h"
      using s by (simp add: session_def rep_def core_def store_chain_def history_def versions_of_def saved_def ReleaseSnapshot_def)
    with DoRelease show ?thesis by (intro reads) auto
  next
    case (DoFlush rng)
    from store_Flush_fine [OF sessionD(1) [OF s], of rng] s DoFlush obtain s' where
      "exec_call cl s = (s', Inr ())" "session s' c h"
      by (auto simp: session_def same_view_def from_zero_def)
    with DoFlush show ?thesis by (intro reads) auto
  next
    case (DoCompact rng io)
    show ?thesis
    proof (cases "activeSnapshots s = 0")
      case True
      with session_Compact [OF s _ True, of rng] good few DoCompact show ?thesis by auto
    next
      case False
      then have "exec_call cl s = (s, Inl ErrSnapshotsActive)" by (simp add: DoCompact Compact_def word_neq_0_conv)
      with s False DoCompact show ?thesis by (auto simp: word_neq_0_conv)
    qed
  qed (use good writes in auto)
qed

lemma session_calls:
  "session s c h \<Longrightarrow> \<forall>cl \<in> set cs. good_call cl \<Longrightarrow> length h + length (concat (map call_log cs)) < 2 ^ 32 - 1 \<Longrightarrow>
     \<exists>c'. session (exec_calls cs s) c' (h @ concat (map call_log cs))"
proof (induction cs arbitrary: s c h)
  case (Cons cl cs)
  from session_call [OF Cons.prems(1), of cl] Cons.prems(2,3) obtain s' c' r where
    "exec_call cl s = (s', r)" "session s' c' (h @ call_log cl)" by auto
  with Cons.IH [of s' c' "h @ call_log cl"] Cons.prems(2,3) show ?case by auto
qed auto

section \<open>Scanning the pages\<close>

lemma run_records_skip: "run_records (\<lambda>r s. (s, Inr ())) rs s = (s, Inr ())"
  by (induction rs) auto

lemma validatePage_fine:
  assumes "pager_fine (pager s)" and "pages_valid (pager s)" and "i < numPages (pager s)"
  shows "\<exists>p. validatePage i s = (s\<lparr>pager := p\<rparr>, Inr ()) \<and> same_view (pager s) p"
proof -
  from assms(2,3) obtain q rs where q: "pager_view (pager s) i = Some q" "page_has q rs" "ID q = i"
    "NextPageID q = NoPage \<or> NextPageID q < numPages (pager s)" unfolding pages_valid_def by blast
  from on_pager_Read [OF assms(1) q(1)] obtain p where
    p: "on_pager (ReadPage i) s = (s\<lparr>pager := p\<rparr>, Inr q)" "same_view (pager s) p" by blast
  have "validatePage i s = (s\<lparr>pager := p\<rparr>, Inr ())"
    using p q by (auto simp: validatePage_def page_has_def same_view_def NumPages_def Let_def ctx_def
        for_records_page [OF q(2)] run_records_skip)
  with p(2) show ?thesis by blast
qed

lemma validate_ids_fine:
  "pager_fine (pager s) \<Longrightarrow> pages_valid (pager s) \<Longrightarrow> \<forall>i \<in> set is. i < numPages (pager s) \<Longrightarrow>
     \<exists>p. validate_ids is s = (s\<lparr>pager := p\<rparr>, Inr ()) \<and> same_view (pager s) p"
proof (induction "is" arbitrary: s)
  case Nil
  then show ?case by (intro exI [of _ "pager s"]) (simp add: same_view_def)
next
  case (Cons i "is")
  from validatePage_fine [of s i] Cons.prems obtain p1 where
    p1: "validatePage i s = (s\<lparr>pager := p1\<rparr>, Inr ())" "same_view (pager s) p1" by auto
  with Cons.IH [of "s\<lparr>pager := p1\<rparr>"] Cons.prems same_view_valid [OF p1(2)] obtain p where
    "validate_ids is (s\<lparr>pager := p1\<rparr>) = (s\<lparr>pager := p\<rparr>, Inr ())" "same_view p1 p" by (auto simp: same_view_def)
  with p1 same_view_trans show ?case by auto
qed

lemma validatePages_fine:
  assumes "pager_fine (pager s)" and "pages_valid (pager s)"
  shows "\<exists>p. validatePages s = (s\<lparr>pager := p\<rparr>, Inr ()) \<and> same_view (pager s) p"
proof -
  have "\<forall>i \<in> set (map word_of_nat [0..<unat (numPages (pager s))]). i < numPages (pager s)"
    by (auto simp: word_less_nat_alt unat_of_nat)
  with validate_ids_fine [OF assms] show ?thesis by (simp add: validatePages_def NumPages_def)
qed

lemma check_entries_fine:
  "btree_ok (index s) \<Longrightarrow> set es \<subseteq> set (tree_entries (index s)) \<Longrightarrow> check_entries es s = (s, Inr ())"
proof (induction es)
  case (Cons e es)
  then show ?case using entries_map [of "index s" e]
    by (cases e) (auto simp: store_Get_def btree_get_correct)
qed simp

lemma CheckInvariants_fine:
  assumes "pager_fine (pager s)" and "pages_valid (pager s)" and "btree_ok (index s)"
  shows "\<exists>p. CheckInvariants s = (s\<lparr>pager := p\<rparr>, Inr ()) \<and> same_view (pager s) p"
  using validatePages_fine [OF assms(1,2)] assms(3)
  by (auto simp: CheckInvariants_def btree_entries_correct check_entries_fine)

text \<open>
  The loops over the chain hand each record of the log, in order, to a body that leaves the
  pages alone and keeps \<open>P\<close>, a property of the state and the records seen so far.
\<close>

lemma run_records_fine:
  assumes step: "\<And>s h r. P s h \<Longrightarrow> r \<in> set rs \<Longrightarrow> length h < N \<Longrightarrow>
    \<exists>s'. body (record_of r) s = (s', Inr ()) \<and> P s' (h @ [r]) \<and> pager s' = pager s"
  shows "P s h \<Longrightarrow> length h + length rs \<le> N \<Longrightarrow>
    \<exists>s'. run_records body rs s = (s', Inr ()) \<and> P s' (h @ rs) \<and> pager s' = pager s"
  using step
proof (induction rs arbitrary: s h)
  case (Cons r rs)
  from Cons.prems(3) [OF Cons.prems(1), of r] Cons.prems(2) obtain s1 where
    "body (record_of r) s = (s1, Inr ())" "P s1 (h @ [r])" "pager s1 = pager s" by auto
  with Cons.IH [of s1 "h @ [r]"] Cons.prems(2,3) show ?case by fastforce
qed simp

text \<open>The body of the loops: scanning a page.\<close>

abbreviation scan :: "(kv_record \<Rightarrow> unit store_op) \<Rightarrow> Page \<Rightarrow> unit store_op" where
  "scan body p \<equiv> for_records body (Data p) (FreeOffset p) (word_of_nat HeaderSize)"

lemma for_chain_fine:
  assumes view: "\<And>s h p. P s h \<Longrightarrow> same_view (pager s) p \<Longrightarrow> P (s\<lparr>pager := p\<rparr>) h"
    and fine: "\<And>s h. P s h \<Longrightarrow> pager_fine (pager s) \<and> pager_view (pager s) = V"
    and step: "\<And>s h r. P s h \<Longrightarrow> r \<in> set (chain_log ((i, rs) # c)) \<Longrightarrow> length h < N \<Longrightarrow>
      \<exists>s'. body (record_of r) s = (s', Inr ()) \<and> P s' (h @ [r]) \<and> pager s' = pager s"
  shows "P s h \<Longrightarrow> chain_from V ((i, rs) # c) \<Longrightarrow> length c < n \<Longrightarrow> length h + length (chain_log ((i, rs) # c)) \<le> N \<Longrightarrow>
    \<exists>s'. for_chain n (scan body) i s = (s', Inr ()) \<and> P s' (h @ chain_log ((i, rs) # c)) \<and> same_view (pager s) (pager s')"
  using step
proof (induction c arbitrary: n s h i rs)
  case Nil
  then obtain q where q: "V i = Some q" "page_has q rs" "NextPageID q = NoPage" by (auto simp: page_at_def)
  obtain m where n: "n = Suc m" using Nil.prems(3) by (cases n) auto
  from on_pager_Read [of s i q] fine [OF Nil.prems(1)] q(1) obtain p where
    p: "on_pager (ReadPage i) s = (s\<lparr>pager := p\<rparr>, Inr q)" "same_view (pager s) p" by auto
  from run_records_fine [of P rs N body, OF Nil.prems(5) view [OF Nil.prems(1) p(2)]] Nil.prems(4) obtain s' where
    "run_records body rs (s\<lparr>pager := p\<rparr>) = (s', Inr ())" "P s' (h @ rs)" "pager s' = p" by (auto simp: chain_log_def)
  with p q(3) n show ?case by (auto simp: for_records_page [OF q(2)] chain_log_def)
next
  case (Cons d c)
  obtain j qs where d: "d = (j, qs)" by (cases d)
  from Cons.prems(2) d obtain q where q: "V i = Some q" "page_has q rs" "NextPageID q = j" and ch: "chain_from V ((j, qs) # c)"
    by (auto simp: page_at_def)
  obtain m where n: "n = Suc m" "length c < m" using Cons.prems(3) by (cases n) auto
  from on_pager_Read [of s i q] fine [OF Cons.prems(1)] q(1) obtain p where
    p: "on_pager (ReadPage i) s = (s\<lparr>pager := p\<rparr>, Inr q)" "same_view (pager s) p" by auto
  have "\<exists>s'. run_records body rs (s\<lparr>pager := p\<rparr>) = (s', Inr ()) \<and> P s' (h @ rs) \<and> pager s' = pager (s\<lparr>pager := p\<rparr>)"
    by (rule run_records_fine [of P rs N body, OF Cons.prems(5) view [OF Cons.prems(1) p(2)]])
      (use Cons.prems(4) in \<open>simp_all add: chain_log_def\<close>)
  then obtain s1 where
    s1: "run_records body rs (s\<lparr>pager := p\<rparr>) = (s1, Inr ())" "P s1 (h @ rs)" "pager s1 = p" by auto
  have "j \<in> fst ` set ((j, qs) # c)" by simp
  then have "j < numPages p" using chain_bound [of p] ch fine [OF s1(2)] s1(3) by blast
  then have nx: "NextPageID q \<noteq> NoPage" using q(3) not_NoPage by simp
  from Cons.IH [OF s1(2) ch n(2)] Cons.prems(4,5) d obtain s' where
    "for_chain m (scan body) j s1 = (s', Inr ())"
    "P s' ((h @ rs) @ chain_log ((j, qs) # c))" "same_view (pager s1) (pager s')" by (auto simp: chain_log_def)
  with p s1 n(1) q(3) nx d same_view_trans show ?case
    by (auto simp: for_records_page [OF q(2)] chain_log_def)
qed

section \<open>Rebuilding\<close>

text \<open>The chain that starts at the first page of the store.\<close>

definition rooted :: "Store \<Rightarrow> chain \<Rightarrow> bool" where
  "rooted s c \<longleftrightarrow>
     c \<noteq> [] \<and> fst (hd c) = firstPage s \<and> chain_from (pager_view (pager s)) c \<and> distinct (map fst c)"

lemma rooted_length: "rooted s c \<Longrightarrow> length c \<le> unat (numPages (pager s))"
  using chain_length by (auto simp: rooted_def)

text \<open>The state but for the pages read and what the rebuilding changes.\<close>

definition versions_only :: "Store \<Rightarrow> Store \<Rightarrow> bool" where
  "versions_only s s' \<longleftrightarrow> s'\<lparr>pager := pager s, seq := seq s, versions := versions s\<rparr> = s \<and> same_view (pager s) (pager s')"

definition index_only :: "Store \<Rightarrow> Store \<Rightarrow> bool" where
  "index_only s s' \<longleftrightarrow> versions_only s (s'\<lparr>index := index s\<rparr>)"

lemma versions_onlyD:
  assumes "versions_only s s'"
  shows "index s' = index s" "wal s' = wal s" "idx s' = idx s" "firstPage s' = firstPage s" "hasPages s' = hasPages s"
    "activeSnapshots s' = activeSnapshots s" "same_view (pager s) (pager s')"
  using assms by (cases s; cases s'; simp add: versions_only_def)+

lemma versions_only_updates:
  "versions_only s s' \<Longrightarrow> same_view (pager s') p \<Longrightarrow> versions_only s (s'\<lparr>pager := p\<rparr>)"
  "versions_only s s' \<Longrightarrow> versions_only s (s'\<lparr>seq := n, versions := vs\<rparr>)"
  by (auto simp: versions_only_def same_view_def)

lemma history_pager: "history (s\<lparr>pager := p\<rparr>) h = history s h" "history (s\<lparr>index := t\<rparr>) h = history s h"
  "history (s\<lparr>wal := w\<rparr>) h = history s h" "history (s\<lparr>idx := x\<rparr>) h = history s h"
  by (simp_all add: history_def versions_of_def)

lemma rebuildVersions_fine:
  assumes fine: "pager_fine (pager s)" and hist: "history s h0" and c: "rooted s c"
    and len: "length h0 + length (chain_log c) < 2 ^ 64"
  shows "\<exists>s'. rebuildVersions s = (s', Inr ()) \<and> versions_only s s' \<and> history s' (h0 @ chain_log c)"
proof -
  define P where "P s' h \<longleftrightarrow> versions_only s s' \<and> history s' h" for s' h
  obtain rs c1 where c1: "c = (firstPage s, rs) # c1" using c by (cases c) (auto simp: rooted_def)
  have "\<exists>s'. for_chain (Suc (unat (numPages (pager s)))) (scan version_record) (firstPage s) s = (s', Inr ()) \<and>
      P s' (h0 @ chain_log ((firstPage s, rs) # c1)) \<and> same_view (pager s) (pager s')"
  proof (rule for_chain_fine [where V = "pager_view (pager s)" and N = "2 ^ 64 - 1"])
    show "P (s'\<lparr>pager := p\<rparr>) h" if "P s' h" "same_view (pager s') p" for s' h p
      using that by (simp add: P_def versions_only_updates history_pager)
    show "pager_fine (pager s') \<and> pager_view (pager s') = pager_view (pager s)" if "P s' h" for s' h
      using that versions_onlyD(7) by (auto simp: P_def same_view_def)
    show "\<exists>s1. version_record (record_of r) s' = (s1, Inr ()) \<and> P s1 (h @ [r]) \<and> pager s1 = pager s'"
      if "P s' h" "length h < 2 ^ 64 - 1" for s' h r
    proof -
      obtain f k v where r: "r = (f, k, v)" by (cases r)
      from that(1) have "history s' h" by (simp add: P_def)
      from history_add [OF this, of k v f] that show ?thesis
        by (simp add: P_def r version_record_def record_of_def add_version_def versions_only_updates)
    qed
    show "P s h0" using hist fine by (simp add: P_def versions_only_def same_view_def)
    show "chain_from (pager_view (pager s)) ((firstPage s, rs) # c1)" using c c1 by (simp add: rooted_def)
    show "length c1 < Suc (unat (numPages (pager s)))" using rooted_length [OF c] c1 by simp
    show "length h0 + length (chain_log ((firstPage s, rs) # c1)) \<le> 2 ^ 64 - 1" using len c1 by simp
  qed
  then show ?thesis by (auto simp: rebuildVersions_def P_def c1)
qed

lemma rebuildIndex_fine:
  assumes fine: "pager_fine (pager s)" and hist: "history s []" and c: "rooted s c" and len: "length (chain_log c) < 2 ^ 64"
    and ok: "btree_ok (index s)" "tree_entries (index s) = []" and flags: "flags_ok (chain_log c)"
  shows "\<exists>s'. rebuildIndex s = (s', Inr ()) \<and> index_only s s' \<and> history s' (chain_log c) \<and>
    btree_ok (index s') \<and> map_of (tree_entries (index s')) = log_map (chain_log c)"
proof -
  define P where "P s' h \<longleftrightarrow> index_only s s' \<and> history s' h \<and> btree_ok (index s') \<and>
    map_of (tree_entries (index s')) = log_map h" for s' h
  obtain rs c1 where c1: "c = (firstPage s, rs) # c1" using c by (cases c) (auto simp: rooted_def)
  have "\<exists>s'. for_chain (Suc (unat (numPages (pager s)))) (scan index_record) (firstPage s) s = (s', Inr ()) \<and>
      P s' ([] @ chain_log ((firstPage s, rs) # c1)) \<and> same_view (pager s) (pager s')"
  proof (rule for_chain_fine [where V = "pager_view (pager s)" and N = "2 ^ 64 - 1"])
    show "P (s'\<lparr>pager := p\<rparr>) h" if "P s' h" "same_view (pager s') p" for s' h p
      using that by (auto simp: P_def index_only_def versions_only_def same_view_def history_pager)
    show "pager_fine (pager s') \<and> pager_view (pager s') = pager_view (pager s)" if "P s' h" for s' h
      using that versions_onlyD(7) by (fastforce simp: P_def index_only_def same_view_def)
    show "\<exists>s1. index_record (record_of r) s' = (s1, Inr ()) \<and> P s1 (h @ [r]) \<and> pager s1 = pager s'"
      if P: "P s' h" "r \<in> set (chain_log ((firstPage s, rs) # c1))" "length h < 2 ^ 64 - 1" for s' h r
    proof -
      obtain f k v where r: "r = (f, k, v)" by (cases r)
      have f: "f = flagLive \<or> f = flagTombstone" using flags P(2) c1 by (auto simp: flags_ok_def r)
      have "btree_ok (index s')" "map_of (tree_entries (index s')) = log_map h" using P(1) by (auto simp: P_def)
      with index_put_fine [of s' k v] index_delete_fine [of s' k] f obtain t where
        t: "(if f = flagTombstone then index_delete k s' else index_put k v s') = (s'\<lparr>index := t\<rparr>, Inr ())" "btree_ok t"
        "map_of (tree_entries t) = log_step r (log_map h)"
        by (auto simp: log_step_def r map_of_put_sorted map_of_without flagLive_def flagTombstone_def)
      let ?s1 = "add_version k v (f = flagLive) (s'\<lparr>index := t\<rparr>)"
      have "history (s'\<lparr>index := t\<rparr>) h" using P(1) by (simp add: P_def history_pager)
      from history_add [OF this, of k v f] P(3) have "history ?s1 (h @ [r])" by (simp add: r)
      moreover have "index_only s ?s1"
        using P(1) by (auto simp: P_def index_only_def versions_only_def add_version_def)
      moreover have "index_record (record_of r) s' = (?s1, Inr ())"
        using t(1) by (auto simp: r index_record_def version_record_def record_of_def split: if_splits)
      ultimately show ?thesis using t(2,3) by (auto simp: P_def add_version_frame)
    qed
    show "P s []" using hist fine ok by (simp add: P_def index_only_def versions_only_def same_view_def)
    show "chain_from (pager_view (pager s)) ((firstPage s, rs) # c1)" using c c1 by (simp add: rooted_def)
    show "length c1 < Suc (unat (numPages (pager s)))" using rooted_length [OF c] c1 by simp
    show "length [] + length (chain_log ((firstPage s, rs) # c1)) \<le> 2 ^ 64 - 1" using len c1 by simp
  qed
  then show ?thesis by (auto simp: rebuildIndex_def P_def c1)
qed

section \<open>Opening and closing\<close>

lemma fresh_store_simps [simp]:
  "pager (fresh_store p d) = p" "firstPage (fresh_store p d) = 0" "\<not> hasPages (fresh_store p d)"
  "index (fresh_store p d) = empty_btree" "wal (fresh_store p d) = walf d" "idx (fresh_store p d) = idxf d"
  "activeSnapshots (fresh_store p d) = 0" "history (fresh_store p d) []"
  by (simp_all add: fresh_store_def history_def versions_of_def)

lemma empty_btree_ok [simp]: "btree_ok empty_btree" "tree_entries empty_btree = []"
  by (simp_all add: btree_ok_def tree_entries_def empty_btree_def)

lemma replay_empty: "fdata w = [] \<Longrightarrow> replay act w s = (s, Inr ())"
  by (simp add: replay_def replay_loop.simps walHeader_def)

text \<open>A disk without faults, with a closed page file, no log to replay and an index file or none.\<close>

definition calm :: "disk \<Rightarrow> Pager \<Rightarrow> bool" where
  "calm d p \<longleftrightarrow> pager_Open (dbf d) = Inr p \<and> pager_fine p \<and> pages_valid p \<and>
     walf d = file_of [] \<and> idx_faults (idxf d) = []"

definition empty_disk :: disk where
  "empty_disk = \<lparr>dbf = file_of [], walf = file_of [], idxf = \<lparr>idx_data = NoIndex, idx_faults = []\<rparr>\<rparr>"

text \<open>Opening with the index file: the index is loaded and the versions are read off the chain.\<close>

lemma open_loaded:
  assumes calm: "calm d p" and es: "idx_data (idxf d) = IndexEntries es" "sorted_keys es"
    and c: "numPages p > 0 \<Longrightarrow> c \<noteq> [] \<and> fst (hd c) = 0 \<and> chain_from (pager_view p) c \<and> distinct (map fst c)"
    and c0: "numPages p = 0 \<Longrightarrow> c = []" and len: "length (chain_log c) < 2 ^ 64"
  shows "\<exists>d' s'. store_Open rng d = (d', Inr s') \<and> rep s' [] (chain_log c) (map_of es) \<and> saved s' \<and>
    \<not> hasPages s' \<and> same_view p (pager s') \<and> wal s' = file_of [] \<and> activeSnapshots s' = 0"
proof -
  from calm have p: "pager_Open (dbf d) = Inr p" "pager_fine p" "pages_valid p" and w: "walf d = file_of []"
    and f: "idx_faults (idxf d) = []" by (auto simp: calm_def)
  let ?s0 = "fresh_store p d"
  from validatePages_fine [of ?s0] p obtain p1 where
    p1: "validatePages ?s0 = (?s0\<lparr>pager := p1\<rparr>, Inr ())" "same_view p p1" by auto
  from builder.load_sorted [of empty_btree es] es(2) obtain t where
    t: "put_all es empty_btree = Some t" "btree_ok t" "tree_entries t = es" by auto
  let ?s1 = "?s0\<lparr>pager := p1, index := t\<rparr>"
  have li: "loadIndex (?s0\<lparr>pager := p1\<rparr>) = (?s1, Inr True)" using es(1) t(1) by (simp add: loadIndex_def)
  have rp: "replay replay_apply (wal ?s1) ?s1 = (?s1, Inr ())" using w by (intro replay_empty) (simp add: file_of_def)
  have core1: "core s' []" if "versions_only ?s1 s'" for s'
    using versions_onlyD [OF that] t(2) p p1(2) w f same_view_valid [of p "pager s'"]
    by (auto simp: core_def store_chain_def same_view_def file_of_def)
  have hist: "history ?s1 []" by (simp add: history_pager)
  have "\<exists>s'. (if numPages p1 > 0 then rebuildVersions ?s1 else (?s1, Inr ())) = (s', Inr ()) \<and>
      versions_only ?s1 s' \<and> history s' (chain_log c)"
  proof (cases "numPages p1 > 0")
    case True
    with c p1(2) have "rooted ?s1 c" by (auto simp: rooted_def same_view_def)
    from rebuildVersions_fine [OF _ hist this] len p1(2) True show ?thesis by (auto simp: same_view_def)
  next
    case False
    with c0 p1(2) hist show ?thesis
      by (auto simp: same_view_def versions_only_def word_neq_0_conv [symmetric] chain_log_def)
  qed
  then obtain s' where s': "(if numPages p1 > 0 then rebuildVersions ?s1 else (?s1, Inr ())) = (s', Inr ())"
    "versions_only ?s1 s'" "history s' (chain_log c)" by blast
  have "open_steps ?s0 = (s', Inr ())"
    using p1 li rp s'(1) by (simp add: open_steps_def ctx_def NumPages_def)
  then have "store_Open rng d = (disk_of s', Inr s')" using p(1) by (simp add: store_Open_def)
  moreover have "rep s' [] (chain_log c) (map_of es)"
    using core1 [OF s'(2)] s'(3) versions_onlyD [OF s'(2)] t(3) by (simp add: rep_def)
  ultimately show ?thesis
    using versions_onlyD [OF s'(2)] t(3) es(1) p1(2) same_view_trans w by (auto simp: saved_def)
qed

text \<open>Opening without the index file: index and versions are rebuilt from the chain.\<close>

lemma open_rebuilt:
  assumes calm: "calm d p" and no: "idx_data (idxf d) = NoIndex"
    and c: "numPages p > 0 \<Longrightarrow> c \<noteq> [] \<and> fst (hd c) = 0 \<and> chain_from (pager_view p) c \<and> distinct (map fst c)"
    and c0: "numPages p = 0 \<Longrightarrow> c = []" and len: "length (chain_log c) < 2 ^ 64" and flags: "flags_ok (chain_log c)"
  shows "\<exists>d' s'. store_Open rng d = (d', Inr s') \<and> rep s' c (chain_log c) (log_map (chain_log c)) \<and> saved s' \<and>
    same_view p (pager s') \<and> wal s' = file_of [] \<and> activeSnapshots s' = 0"
proof -
  from calm have p: "pager_Open (dbf d) = Inr p" "pager_fine p" "pages_valid p" and w: "walf d = file_of []"
    and f: "idx_faults (idxf d) = []" by (auto simp: calm_def)
  let ?s0 = "fresh_store p d"
  from validatePages_fine [of ?s0] p obtain p1 where
    p1: "validatePages ?s0 = (?s0\<lparr>pager := p1\<rparr>, Inr ())" "same_view p p1" by auto
  let ?s1 = "?s0\<lparr>pager := p1\<rparr>" and ?s2 = "?s0\<lparr>pager := p1, firstPage := 0, hasPages := True\<rparr>"
  have li: "loadIndex ?s1 = (?s1, Inr False)" using no by (simp add: loadIndex_def)
  have rp: "replay replay_apply (wal ?s1) ?s1 = (?s1, Inr ())" using w by (intro replay_empty) (simp add: file_of_def)
  have "\<exists>s'. (if numPages p1 > 0 then rebuildIndex ?s2 else (?s1, Inr ())) = (s', Inr ()) \<and>
      rep s' c (chain_log c) (log_map (chain_log c)) \<and> same_view p (pager s') \<and> wal s' = file_of [] \<and> activeSnapshots s' = 0"
  proof (cases "numPages p1 > 0")
    case True
    with c p1(2) have rt: "rooted ?s2 c" by (auto simp: rooted_def same_view_def)
    have "history ?s2 []" by (simp add: history_def fresh_store_def versions_of_def)
    from rebuildIndex_fine [OF _ this rt len _ _ flags] p1(2) obtain s' where
      s': "rebuildIndex ?s2 = (s', Inr ())" "index_only ?s2 s'" "history s' (chain_log c)"
      "btree_ok (index s')" "map_of (tree_entries (index s')) = log_map (chain_log c)" by (auto simp: same_view_def)
    have e: "same_view p1 (pager s')" "wal s' = walf d" "idx s' = idxf d" "firstPage s' = 0" "hasPages s'" "activeSnapshots s' = 0"
      using versions_onlyD [of ?s2 "s'\<lparr>index := index ?s2\<rparr>"] s'(2) by (simp_all add: index_only_def)
    have sv: "same_view p (pager s')" using same_view_trans [OF p1(2) e(1)] .
    then have "core s' c"
      using e s'(4) p w f rt same_view_valid [OF sv]
      by (auto simp: core_def store_chain_def rooted_def same_view_def file_of_def)
    with s' e sv True w show ?thesis by (auto simp: rep_def)
  next
    case False
    then have "numPages p1 = 0" by (simp add: word_neq_0_conv [symmetric])
    with c0 p1(2) have "c = []" by (simp add: same_view_def)
    moreover have "core ?s1 []"
      using p p1(2) w f same_view_valid [OF p1(2)] by (simp add: core_def store_chain_def same_view_def file_of_def)
    ultimately show ?thesis using False p1(2) w by (simp add: rep_def history_pager chain_log_def)
  qed
  then obtain s' where s': "(if numPages p1 > 0 then rebuildIndex ?s2 else (?s1, Inr ())) = (s', Inr ())"
    "rep s' c (chain_log c) (log_map (chain_log c))" "same_view p (pager s')" "wal s' = file_of []" "activeSnapshots s' = 0" by blast
  from rep_saveIndex [OF s'(2)] obtain i where
    i: "saveIndex s' = (s'\<lparr>idx := i\<rparr>, Inr ())" "rep (s'\<lparr>idx := i\<rparr>) c (chain_log c) (log_map (chain_log c))" "saved (s'\<lparr>idx := i\<rparr>)" by blast
  have "open_steps ?s0 = (s'\<lparr>idx := i\<rparr>, Inr ())"
    using p1 li rp s'(1) i(1) by (simp add: open_steps_def ctx_def NumPages_def)
  then have "store_Open rng d = (disk_of (s'\<lparr>idx := i\<rparr>), Inr (s'\<lparr>idx := i\<rparr>))" using p(1) by (simp add: store_Open_def)
  with i s' show ?thesis by auto
qed

end
