(* ===== verification/Store_Recovery.thy ===== *)
theory Store_Recovery
  imports Store_Session
begin

text \<open>
  The properties of the store across its life: a session behaves as a log of writes, closing and
  reopening keeps the data, with and without the index file, puts survive a crash; and the cases in
  which the code loses or resurrects data.
\<close>

section \<open>Closing and opening again\<close>

lemma store_Close_fine:
  assumes r: "rep s c h m" and rng: "range_ok rng"
  shows "\<exists>s' p. store_Close rng s = (s', Inr ()) \<and> calm (disk_of s') p \<and> same_view (pager s) p \<and>
    idx_data (idxf (disk_of s')) = IndexEntries (tree_entries (index s))"
proof -
  from r have ok: "btree_ok (index s)" "idx_faults (idx s) = []" and fine: "pager_fine (pager s)"
    and f: "faults (wal s) = []" and v: "pages_valid (pager s)" by (auto simp: rep_def core_def)
  from flush_pager_fine [OF fine, of rng] obtain p1 where
    p1: "flush_pager rng s = (s\<lparr>pager := p1\<rparr>, Inr ())" "sync_pager (s\<lparr>pager := p1\<rparr>) = (s\<lparr>pager := p1\<rparr>, Inr ())"
    "same_view (pager s) p1" by blast
  let ?i = "\<lparr>idx_data = IndexEntries (tree_entries (index s)), idx_faults = []\<rparr>"
  have si: "saveIndex (s\<lparr>pager := p1\<rparr>) = (s\<lparr>pager := p1, idx := ?i\<rparr>, Inr ())"
    using saveIndex_fine [of "s\<lparr>pager := p1\<rparr>"] ok by simp
  have "pager_fine p1" using p1(3) by (simp add: same_view_def)
  from pager_Close_fine [OF this, of "rng (pool p1)"] rng obtain p2 p3 where
    p2: "pager_Close (rng (pool p1)) p1 = (p2, None)" "pager_Open (dbfile p2) = Inr p3" "same_view p1 p3"
    by (auto simp: range_ok_def)
  let ?s' = "s\<lparr>pager := p2, idx := ?i, wal := (wal s)\<lparr>fdata := []\<rparr>\<rparr>"
  have "store_Close rng s = (?s', Inr ())"
    using p1 p2(1) si f by (simp add: store_Close_def on_wal_def on_pager_def wal_clear_fine)
  moreover have sv: "same_view (pager s) p3" using same_view_trans [OF p1(3) p2(3)] .
  moreover have "calm (disk_of ?s') p3"
    using p2(2) sv same_view_valid [OF sv v] f by (cases "wal s") (simp add: calm_def disk_of_def same_view_def file_of_def)
  ultimately show ?thesis by (intro exI [of _ ?s'] exI [of _ p3]) (simp add: disk_of_def)
qed

definition reopen :: "range_order \<Rightarrow> Store \<Rightarrow> Store result" where
  "reopen rng s =
     (case store_Close rng s of
        (s', Inl err) \<Rightarrow> Inl err
      | (s', Inr u) \<Rightarrow> snd (store_Open rng (disk_of s')))"

definition reopen_without_index :: "range_order \<Rightarrow> Store \<Rightarrow> Store result" where
  "reopen_without_index rng s =
     (case store_Close rng s of
        (s', Inl err) \<Rightarrow> Inl err
      | (s', Inr u) \<Rightarrow> snd (store_Open rng ((disk_of s')\<lparr>idxf := \<lparr>idx_data = NoIndex, idx_faults = []\<rparr>\<rparr>)))"

text \<open>The chain from the first page of the file, as the opening code walks it.\<close>

definition page_chain :: "Pager \<Rightarrow> chain \<Rightarrow> bool" where
  "page_chain p c \<longleftrightarrow>
     (if numPages p = 0 then c = []
      else c \<noteq> [] \<and> fst (hd c) = 0 \<and> chain_from (pager_view p) c \<and> distinct (map fst c))"

lemma page_chain_view: "page_chain p c \<Longrightarrow> same_view p p' \<Longrightarrow> page_chain p' c"
  by (simp add: page_chain_def same_view_def)

lemma session_page_chain: "session s c h \<Longrightarrow> page_chain (pager s) c"
  using chain_length [of "pager s" c]
  by (auto simp: session_def rep_def core_def store_chain_def from_zero_def page_chain_def split: if_splits)

lemma reopen_fine:
  assumes r: "rep s c0 h m" and rng: "range_ok rng" and c: "page_chain (pager s) c" and len: "length (chain_log c) < 2 ^ 64"
  shows "\<exists>s'. reopen rng s = Inr s' \<and> rep s' [] (chain_log c) m \<and> saved s' \<and> \<not> hasPages s' \<and>
    same_view (pager s) (pager s') \<and> wal s' = file_of []"
proof -
  from store_Close_fine [OF r rng] obtain s1 p where
    s1: "store_Close rng s = (s1, Inr ())" "calm (disk_of s1) p" "same_view (pager s) p"
    "idx_data (idxf (disk_of s1)) = IndexEntries (tree_entries (index s))" by blast
  have sorted: "sorted_keys (tree_entries (index s))" using r tree_entries_sorted by (auto simp: rep_def core_def)
  have "numPages p > 0 \<Longrightarrow> c \<noteq> [] \<and> fst (hd c) = 0 \<and> chain_from (pager_view p) c \<and> distinct (map fst c)"
    "numPages p = 0 \<Longrightarrow> c = []"
    using page_chain_view [OF c s1(3)] by (auto simp: page_chain_def)
  from open_loaded [OF s1(2,4) sorted this len, of rng] obtain d' s' where
    "store_Open rng (disk_of s1) = (d', Inr s')" "rep s' [] (chain_log c) (map_of (tree_entries (index s)))"
    "saved s'" "\<not> hasPages s'" "same_view p (pager s')" "wal s' = file_of []" by blast
  with s1 r same_view_trans [OF s1(3)] show ?thesis by (auto simp: reopen_def rep_def)
qed

lemma reopen_without_index_fine:
  assumes r: "rep s c0 h m" and rng: "range_ok rng" and c: "page_chain (pager s) c" and len: "length (chain_log c) < 2 ^ 64"
    and flags: "flags_ok (chain_log c)"
  shows "\<exists>s'. reopen_without_index rng s = Inr s' \<and> rep s' c (chain_log c) (log_map (chain_log c)) \<and> saved s' \<and>
    same_view (pager s) (pager s') \<and> wal s' = file_of []"
proof -
  from store_Close_fine [OF r rng] obtain s1 p where
    s1: "store_Close rng s = (s1, Inr ())" "calm (disk_of s1) p" "same_view (pager s) p" by blast
  let ?d = "(disk_of s1)\<lparr>idxf := \<lparr>idx_data = NoIndex, idx_faults = []\<rparr>\<rparr>"
  have calm: "calm ?d p" using s1(2) by (simp add: calm_def)
  have no: "idx_data (idxf ?d) = NoIndex" by simp
  have "numPages p > 0 \<Longrightarrow> c \<noteq> [] \<and> fst (hd c) = 0 \<and> chain_from (pager_view p) c \<and> distinct (map fst c)"
    "numPages p = 0 \<Longrightarrow> c = []"
    using page_chain_view [OF c s1(3)] by (auto simp: page_chain_def)
  from open_rebuilt [OF calm no this len flags, of rng] obtain d' s' where
    "store_Open rng ?d = (d', Inr s')" "rep s' c (chain_log c) (log_map (chain_log c))"
    "saved s'" "same_view p (pager s')" "wal s' = file_of []" by blast
  with s1 same_view_trans [OF s1(3)] show ?thesis by (auto simp: reopen_without_index_def)
qed

text \<open>A new database, and what a client's calls make of it.\<close>

lemma open_empty_disk: "\<exists>d s. store_Open rng empty_disk = (d, Inr s) \<and> session s [] [] \<and> activeSnapshots s = 0 \<and> wal s = file_of []"
proof -
  let ?p = "\<lparr>dbfile = file_of [], numPages = 0, pool = NewBufferPool 64\<rparr>"
  have "calm empty_disk ?p"
    using open_empty by (simp add: calm_def empty_disk_def file_of_def)
  moreover have "idx_data (idxf empty_disk) = NoIndex" by (simp add: empty_disk_def)
  ultimately obtain d s where "store_Open rng empty_disk = (d, Inr s)"
    "rep s [] (chain_log []) (log_map (chain_log []))" "saved s" "same_view ?p (pager s)" "activeSnapshots s = 0" "wal s = file_of []"
    using open_rebuilt [of empty_disk ?p "[]" rng] by (auto simp: chain_log_def flags_ok_def)
  then show ?thesis by (auto simp: session_def flags_ok_def chain_log_def from_zero_def same_view_def)
qed

definition run_client :: "range_order \<Rightarrow> store_call list \<Rightarrow> Store option" where
  "run_client rng cs =
     (case store_Open rng empty_disk of
        (d, Inl err) \<Rightarrow> None
      | (d, Inr s) \<Rightarrow> Some (exec_calls cs s))"

definition writes :: "store_call list \<Rightarrow> log_rec list" where
  "writes cs = concat (map call_log cs)"

lemma run_client_session:
  assumes "\<forall>cl \<in> set cs. good_call cl" and "length (writes cs) < 2 ^ 32 - 1"
  shows "\<exists>s c. run_client rng cs = Some s \<and> session s c (writes cs)"
  using open_empty_disk [of rng] session_calls [of _ "[]" "[]" cs] assms by (auto simp: run_client_def writes_def)

lemma run_client_snoc: "run_client rng cs = Some s \<Longrightarrow> run_client rng (cs @ [cl]) = Some (fst (exec_call cl s))"
proof -
  have "exec_calls (cs @ [cl]) s0 = fst (exec_call cl (exec_calls cs s0))" for s0 by (induction cs arbitrary: s0) auto
  then show "run_client rng cs = Some s \<Longrightarrow> run_client rng (cs @ [cl]) = Some (fst (exec_call cl s))"
    by (auto simp: run_client_def split: prod.splits sum.splits)
qed

lemma rep_Get: "rep s c h m \<Longrightarrow> store_Get key s = Inr (m key)"
  by (auto simp: rep_def store_Get_def btree_get_correct core_def)

lemma rep_GetAt_now: "rep s c h m \<Longrightarrow> store_GetAt (seq s) key s = log_map h key"
  using GetAt_log [of s h "length h"] by (auto simp: rep_def history_def)

section \<open>Properties of a session\<close>

text \<open>C2: The store is a map. Opening a new database and running any puts, deletes, batches, snapshots, flushes and compactions, on a disk
  without I/O failures, with records that fit on a page and fewer than \<open>2 ^ 32 - 1\<close> writes, keeps its state sound: \<open>Get\<close>
  returns the last value written for a key, or nothing if the last write was a delete, and \<open>CheckInvariants\<close> finds nothing wrong.\<close>

theorem store_implements_map:
  assumes "\<forall>cl \<in> set cs. good_call cl" and "length (writes cs) < 2 ^ 32 - 1"
  shows "\<exists>s. run_client rng cs = Some s \<and> seq s = word_of_nat (length (writes cs)) \<and>
    (\<forall>key. store_Get key s = Inr (log_map (writes cs) key)) \<and> snd (CheckInvariants s) = Inr ()"
proof -
  from run_client_session [OF assms] obtain s c where s: "run_client rng cs = Some s" "session s c (writes cs)" by blast
  have "snd (CheckInvariants s) = Inr ()"
    using CheckInvariants_fine [of s] sessionD(2,3,6) [OF s(2)] by (auto simp: core_def)
  with s rep_Get [OF sessionD(1) [OF s(2)]] sessionD(5) [OF s(2)] show ?thesis by (auto simp: history_def)
qed

lemmas log_simps = log_map_def log_step_def flagLive_def flagTombstone_def writes_def
lemmas small_simps = small_def rec_len_def recordHeaderSize_def page_consts

theorem store_implements_map_witness:
  "\<exists>s. run_client (\<lambda>b. map fst (items b)) [DoPut [1] [2], DoPut [3] [4], DoDelete [1]] = Some s \<and>
     store_Get [1] s = Inr None \<and> store_Get [3] s = Inr (Some [4])"
  using store_implements_map [of "[DoPut [1] [2], DoPut [3] [4], DoDelete [1]]" "\<lambda>b. map fst (items b)"]
  by (auto simp: log_simps small_simps)

text \<open>C11: Snapshots read the past. In the first session of a new database on a disk without I/O failures, with records that fit on a page and
  fewer than \<open>2 ^ 32 - 1\<close> writes: at any sequence number up to the current one, \<open>GetAt\<close> and \<open>KeysAt\<close> see
  exactly the state after that many writes, and \<open>ChangedSince\<close> tells whether the key was written later.\<close>

theorem store_reads_past:
  assumes "\<forall>cl \<in> set cs. good_call cl" and "length (writes cs) < 2 ^ 32 - 1" and "run_client rng cs = Some s"
    and "n \<le> length (writes cs)"
  shows "store_GetAt (word_of_nat n) key s = log_map (take n (writes cs)) key \<and>
    KeysAt ord (word_of_nat n) s = filter (\<lambda>k. log_map (take n (writes cs)) k \<noteq> None) ord \<and>
    (ChangedSince (word_of_nat n) key s \<longleftrightarrow> key \<in> rec_written ` set (drop n (writes cs)))"
proof -
  from run_client_session [OF assms(1,2), of rng] assms(3) obtain c where "session s c (writes cs)" by auto
  from sessionD(5) [OF this] show ?thesis
    using assms(4) by (simp add: GetAt_log KeysAt_log ChangedSince_log)
qed

theorem store_reads_past_witness:
  "\<exists>s. run_client (\<lambda>b. map fst (items b)) [DoPut [1] [2], DoPut [1] [3]] = Some s \<and>
     store_GetAt 1 [1] s = Some [2] \<and> ChangedSince 1 [1] s"
proof -
  let ?cs = "[DoPut [1] [2], DoPut [1] [3]]"
  have good: "\<forall>cl \<in> set ?cs. good_call cl" "length (writes ?cs) < 2 ^ 32 - 1" by (auto simp: log_simps small_simps)
  from run_client_session [OF good, of "\<lambda>b. map fst (items b)"] obtain s where
    s: "run_client (\<lambda>b. map fst (items b)) ?cs = Some s" by blast
  from store_reads_past [OF good s, of 1 "[1]" "[]"] s show ?thesis by (simp add: log_simps rec_written_def)
qed

text \<open>In such a session every further call succeeds, but for a compaction while a snapshot is active, which is refused and changes nothing.\<close>

theorem store_calls_succeed:
  assumes "\<forall>c \<in> set cs. good_call c" and "good_call cl" and "length (writes (cs @ [cl])) < 2 ^ 32 - 1"
    and "run_client rng cs = Some s"
  shows "if activeSnapshots s > 0 \<and> (\<exists>rng io. cl = DoCompact rng io)
    then exec_call cl s = (s, Inl ErrSnapshotsActive) else snd (exec_call cl s) = Inr ()"
proof -
  have len: "length (writes cs) + length (call_log cl) < 2 ^ 32 - 1" using assms(3) by (simp add: writes_def)
  then have "length (writes cs) < 2 ^ 32 - 1" by simp
  from run_client_session [OF assms(1) this, of rng] assms(4) obtain c where "session s c (writes cs)" by auto
  from session_call [OF this assms(2) len] show ?thesis
    by (auto simp: Compact_def)
qed

theorem store_calls_succeed_witness:
  "\<exists>s. run_client (\<lambda>b. map fst (items b)) [DoPut [1] [2]] = Some s \<and> snd (exec_call (DoDelete [1]) s) = Inr ()"
proof -
  have good: "\<forall>cl \<in> set [DoPut [1] [2]]. good_call cl" "length (writes [DoPut [1] [2]]) < 2 ^ 32 - 1"
    by (auto simp: log_simps small_simps)
  from run_client_session [OF good, of "\<lambda>b. map fst (items b)"] obtain s where
    s: "run_client (\<lambda>b. map fst (items b)) [DoPut [1] [2]] = Some s" by blast
  from store_calls_succeed [OF good(1) _ _ s, of "DoDelete [1]"] s show ?thesis by (simp add: log_simps small_simps)
qed

text \<open>C10: Reopening. In the first session of a new database on a disk without I/O failures, with records that fit on a page and fewer than
  \<open>2 ^ 32 - 1\<close> writes, closing the store and opening it again succeeds and keeps every key: \<open>Get\<close> answers the last value
  written, and so does a read at a snapshot taken then, since the versions are rebuilt from the pages.\<close>

theorem store_reopen:
  assumes "\<forall>cl \<in> set cs. good_call cl" and "length (writes cs) < 2 ^ 32 - 1" and "run_client rng cs = Some s"
    and "range_ok rng"
  shows "\<exists>s'. reopen rng s = Inr s' \<and> store_Get key s' = Inr (log_map (writes cs) key) \<and>
    store_GetAt (seq s') key s' = log_map (writes cs) key"
proof -
  from run_client_session [OF assms(1,2), of rng] assms(3) obtain c where ss: "session s c (writes cs)" by auto
  then have c: "log_map (chain_log c) = log_map (writes cs)" "length (chain_log c) < 2 ^ 64"
    using assms(2) by (auto simp: session_def)
  from reopen_fine [OF sessionD(1) [OF ss] assms(4) session_page_chain [OF ss] c(2)] show ?thesis
    using c(1) rep_Get rep_GetAt_now by fastforce
qed

theorem store_reopen_witness:
  "\<exists>s s'. run_client (\<lambda>b. map fst (items b)) [DoPut [1] [2]] = Some s \<and>
     reopen (\<lambda>b. map fst (items b)) s = Inr s' \<and> store_Get [1] s' = Inr (Some [2])"
proof -
  have good: "\<forall>cl \<in> set [DoPut [1] [2]]. good_call cl" "length (writes [DoPut [1] [2]]) < 2 ^ 32 - 1"
    by (auto simp: log_simps small_simps)
  from run_client_session [OF good, of "\<lambda>b. map fst (items b)"] obtain s where
    s: "run_client (\<lambda>b. map fst (items b)) [DoPut [1] [2]] = Some s" by blast
  from store_reopen [OF good s, of "[1]"] s show ?thesis by (auto simp: log_simps range_ok_def)
qed

text \<open>The index file is redundant after such a session: with it removed, opening rebuilds the same map from the pages, also when the session
  compacted the file.\<close>

theorem store_reopen_rebuilds:
  assumes "\<forall>cl \<in> set cs. good_call cl" and "length (writes cs) < 2 ^ 32 - 1" and "run_client rng cs = Some s"
    and "range_ok rng"
  shows "\<exists>s'. reopen_without_index rng s = Inr s' \<and> store_Get key s' = Inr (log_map (writes cs) key) \<and>
    snd (CheckInvariants s') = Inr ()"
proof -
  from run_client_session [OF assms(1,2), of rng] assms(3) obtain c where ss: "session s c (writes cs)" by auto
  then have c: "log_map (chain_log c) = log_map (writes cs)" "length (chain_log c) < 2 ^ 64" "flags_ok (chain_log c)"
    using assms(2) by (auto simp: session_def)
  from reopen_without_index_fine [OF sessionD(1) [OF ss] assms(4) session_page_chain [OF ss] c(2,3)] obtain s' where
    s': "reopen_without_index rng s = Inr s'" "rep s' c (chain_log c) (log_map (chain_log c))" by blast
  have "snd (CheckInvariants s') = Inr ()"
    using CheckInvariants_fine [of s'] s'(2) by (auto simp: rep_def core_def)
  with s' rep_Get [OF s'(2)] c(1) show ?thesis by simp
qed

theorem store_reopen_rebuilds_witness:
  "\<exists>s s'. run_client (\<lambda>b. map fst (items b)) [DoPut [1] [2], DoDelete [1]] = Some s \<and>
     reopen_without_index (\<lambda>b. map fst (items b)) s = Inr s' \<and> store_Get [1] s' = Inr None"
proof -
  let ?cs = "[DoPut [1] [2], DoDelete [1]]"
  have good: "\<forall>cl \<in> set ?cs. good_call cl" "length (writes ?cs) < 2 ^ 32 - 1" by (auto simp: log_simps small_simps)
  from run_client_session [OF good, of "\<lambda>b. map fst (items b)"] obtain s where
    s: "run_client (\<lambda>b. map fst (items b)) ?cs = Some s" by blast
  from store_reopen_rebuilds [OF good s, of "[1]"] s show ?thesis by (auto simp: log_simps range_ok_def)
qed

lemma same_snapshots_trans: "transp (\<lambda>s s'. activeSnapshots s' = activeSnapshots s)"
  by (simp add: transp_def)

lemma store_append_snapshots: "within (\<lambda>s s'. activeSnapshots s' = activeSnapshots s) (store_append key v flag)"
  using append_record_frame [of key v flag]
  by (simp add: within_def same_history_def store_append_def add_version_frame)

lemma same_history_snapshots: "within same_history f \<Longrightarrow> within (\<lambda>s s'. activeSnapshots s' = activeSnapshots s) f"
  by (simp add: within_def same_history_def)

lemmas snapshot_frames = store_append_snapshots history_frames [THEN same_history_snapshots]

lemma writes_keep_snapshots:
  assumes "logged cl \<noteq> []"
  shows "activeSnapshots (fst (exec_call cl s)) = activeSnapshots s"
proof -
  have batch: "within (\<lambda>s s'. activeSnapshots s' = activeSnapshots s) (batch_appends ops)" for ops
  proof (induction ops)
    case (Cons op ops)
    have "within (\<lambda>s s'. activeSnapshots s' = activeSnapshots s) (\<lambda>s. batch_appends (op # ops) s)"
      unfolding batch_appends.simps by (intro within_seqR [OF same_snapshots_trans] snapshot_frames Cons)
    then show ?case by simp
  qed (simp add: within_def)
  have "within (\<lambda>s s'. activeSnapshots s' = activeSnapshots s) (\<lambda>s. exec_call cl s)"
    using assms by (cases cl)
      (auto simp: store_Put_def store_Delete_def ApplyBatch_def intro!: within_seqR [OF same_snapshots_trans] snapshot_frames batch)
  then show ?thesis by (simp add: within_def)
qed

text \<open>C13: Compaction reclaims space: afterwards the file has at most as many pages as there are live keys,
  the log is empty, and every key reads as before, at every snapshot too.\<close>

theorem Compact_reclaims:
  assumes "\<forall>cl \<in> set cs. good_call cl" and "length (writes cs) < 2 ^ 32 - 1" and "run_client rng cs = Some s"
    and "range_ok rng'" and "activeSnapshots s = 0"
  shows "\<exists>s'. Compact rng' quiet_io s = (s', Inr ()) \<and> store_Get key s' = store_Get key s \<and>
    store_GetAt n key s' = store_GetAt n key s \<and> st_WALSize (store_Stats s') = 0 \<and>
    unat (st_PageCount (store_Stats s')) \<le> card (dom (log_map (writes cs)))"
proof -
  from run_client_session [OF assms(1,2), of rng] assms(3) obtain c where ss: "session s c (writes cs)" by auto
  let ?es = "tree_entries (index s)"
  have d: "distinct (map fst ?es)" using tree_entries_sorted [OF sessionD(3) [OF ss]] strict_sorted_iff by blast
  then have card: "length ?es = card (dom (log_map (writes cs)))"
    using sessionD(4) [OF ss] distinct_card [OF d] by (metis dom_map_of_conv_image_fst length_map list.set_map)
  have sm: "\<forall>e \<in> set ?es. small (live e)" using session_entries [OF ss] ss by (auto simp: session_def)
  have "length ?es < 2 ^ 32 - 1" using entries_length [OF ss] assms(2) by simp
  from Compact_fine [OF sessionD(1) [OF ss] assms(4,5) sm this] obtain s' c' where
    s': "Compact rng' quiet_io s = (s', Inr ())" "rep s' c' (writes cs) (log_map (writes cs))"
    "wal s' = (wal s)\<lparr>fdata := []\<rparr>" "unat (numPages (pager s')) = length c'" "length c' \<le> length ?es" by blast
  have same: "same_history s s'" using Compact_frame [of s rng' quiet_io] s'(1) by simp
  show ?thesis
    using s' card same rep_Get [OF s'(2)] rep_Get [OF sessionD(1) [OF ss]]
    by (simp add: store_Stats_def wal_size_def NumPages_def GetAt_version same_history_def versions_of_def)
qed

theorem Compact_reclaims_witness:
  "\<exists>s s'. run_client (\<lambda>b. map fst (items b)) [DoPut [1] [2], DoDelete [1]] = Some s \<and> activeSnapshots s = 0 \<and>
     Compact (\<lambda>b. map fst (items b)) quiet_io s = (s', Inr ()) \<and> st_PageCount (store_Stats s') = 0"
proof -
  let ?cs = "[DoPut [1] [2], DoDelete [1]]" and ?rng = "\<lambda>b. map fst (items b)"
  have good: "\<forall>cl \<in> set ?cs. good_call cl" "length (writes ?cs) < 2 ^ 32 - 1" by (auto simp: log_simps small_simps)
  from run_client_session [OF good, of ?rng] obtain s where s: "run_client ?rng ?cs = Some s" by blast
  have "activeSnapshots s = 0"
    using s open_empty_disk [of ?rng] by (auto simp: run_client_def exec_calls.simps writes_keep_snapshots simp del: exec_call.simps)
  from Compact_reclaims [OF good s _ this, of ?rng "[1]"] s this show ?thesis
    by (auto simp: log_simps range_ok_def dom_def unat_eq_0)
qed

section \<open>A second session\<close>

lemma chain_kept:
  assumes "chain_from (pager_view p) c" and "kept [] p c' p'"
  shows "chain_from (pager_view p') c"
proof (rule chain_cong [OF _ assms(1)])
  have "\<exists>q. pager_view p i = Some q" if "i \<in> fst ` set c" for i
    using assms(1) that by (induction "pager_view p" c rule: chain_from.induct) (auto simp: page_at_def)
  then show "\<forall>i \<in> fst ` set c. pager_view p' i = pager_view p i"
    using keptD(2) [OF assms(2)] by fastforce
qed

text \<open>C18: What a second session writes is missing from snapshots after the next opening, and lost with the
  index file. Opening an existing file does not set \<open>hasPages\<close>, so the first put starts a new chain
  of pages that nothing links to. After closing and opening once more, \<open>Get\<close> returns the new value, but a read at the
  newest snapshot returns the old one, and so does \<open>Get\<close> if the index file had to be rebuilt.\<close>

theorem second_session_unlinked:
  assumes "\<forall>cl \<in> set cs. good_call cl" and "length (writes cs) < 2 ^ 32 - 2" and "run_client rng cs = Some s"
    and "range_ok rng" and "st_PageCount (store_Stats s) > 0" and "small (flagLive, key, v)"
  shows "\<exists>s1 s2 s3 s4. reopen rng s = Inr s1 \<and> store_Put key v s1 = (s2, Inr ()) \<and>
    store_Get key s2 = Inr (Some v) \<and> reopen rng s2 = Inr s3 \<and> store_Get key s3 = Inr (Some v) \<and>
    store_GetAt (seq s3) key s3 = log_map (writes cs) key \<and>
    reopen_without_index rng s2 = Inr s4 \<and> store_Get key s4 = Inr (log_map (writes cs) key)"
proof -
  let ?m = "log_map (writes cs)"
  from run_client_session [OF assms(1), of rng] assms(2,3) obtain c where ss: "session s c (writes cs)" by auto
  then have c: "log_map (chain_log c) = ?m" "length (chain_log c) < 2 ^ 64" "flags_ok (chain_log c)"
    "length (chain_log c) < 2 ^ 32 - 2" "unat (numPages (pager s)) < 2 ^ 32 - 2" using assms(2) by (auto simp: session_def)
  have pc: "page_chain (pager s) c" using session_page_chain [OF ss] .
  from reopen_fine [OF sessionD(1) [OF ss] assms(4) pc c(2)] obtain s1 where
    s1: "reopen rng s = Inr s1" "rep s1 [] (chain_log c) ?m" "same_view (pager s) (pager s1)" by blast
  have room: "room (length (call_log (DoPut key v))) s1 (chain_log c)"
    using s1(3) c(4,5) by (simp add: room_def same_view_def)
  let ?w = "(wal s1)\<lparr>fdata := fdata (wal s1) @ wal_encode (call_records (CallPut key v))\<rparr>"
  from exec_write [OF s1(2) _ room, of "CallPut key v"] assms(6) obtain s2 c2 where
    s2: "store_Put key v s1 = (s2, Inr ())" "wrote [(flagLive, key, v)] (s1\<lparr>wal := ?w\<rparr>) [] (chain_log c) ?m s2 c2" by auto
  then have r2: "rep s2 c2 (chain_log c @ [(flagLive, key, v)]) (log_step (flagLive, key, v) ?m)" and k: "kept [] (pager s1) c2 (pager s2)"
    by (auto simp: wrote_def)
  have np: "numPages (pager s) \<noteq> 0" using assms(5) by (simp add: store_Stats_def NumPages_def word_neq_0_conv)
  with pc s1(3) have ch: "c \<noteq> []" "fst (hd c) = 0" "distinct (map fst c)" "chain_from (pager_view (pager s1)) c"
    by (auto simp: page_chain_def same_view_def)
  then have ch2: "chain_from (pager_view (pager s2)) c" using chain_kept [OF _ k] by blast
  moreover have "numPages (pager s2) \<noteq> 0" using chain_bound [OF ch2, of "fst (hd c)"] ch(1) by auto
  ultimately have pc2: "page_chain (pager s2) c" using ch by (simp add: page_chain_def)
  from reopen_fine [OF r2 assms(4) pc2 c(2)] obtain s3 where
    s3: "reopen rng s2 = Inr s3" "rep s3 [] (chain_log c) (log_step (flagLive, key, v) ?m)" by blast
  from reopen_without_index_fine [OF r2 assms(4) pc2 c(2,3)] obtain s4 where
    s4: "reopen_without_index rng s2 = Inr s4" "rep s4 c (chain_log c) (log_map (chain_log c))" by blast
  show ?thesis
    using s1(1) s2(1) s3(1) s4(1) rep_Get [OF r2, of key] rep_Get [OF s3(2), of key] rep_GetAt_now [OF s3(2), of key]
      rep_Get [OF s4(2), of key] c(1)
    by (simp add: log_step_def)
qed

theorem second_session_unlinked_witness:
  "\<exists>s s1 s2 s3. run_client (\<lambda>b. map fst (items b)) [DoPut [1] [2]] = Some s \<and>
     reopen (\<lambda>b. map fst (items b)) s = Inr s1 \<and> store_Put [1] [3] s1 = (s2, Inr ()) \<and>
     reopen (\<lambda>b. map fst (items b)) s2 = Inr s3 \<and> store_Get [1] s3 = Inr (Some [3]) \<and>
     store_GetAt (seq s3) [1] s3 = Some [2]"
proof -
  let ?cs = "[DoPut [1] [2]]" and ?rng = "\<lambda>b. map fst (items b)"
  have good: "\<forall>cl \<in> set ?cs. good_call cl" "length (writes ?cs) < 2 ^ 32 - 2" "length (writes ?cs) < 2 ^ 32 - 1"
    by (auto simp: log_simps small_simps)
  from run_client_session [OF good(1,3), of ?rng] obtain s c where
    s: "run_client ?rng ?cs = Some s" "session s c (writes ?cs)" by blast
  have "c \<noteq> []"
  proof
    assume "c = []"
    with s(2) have "log_map (writes ?cs) = Map.empty" by (simp add: session_def chain_log_def)
    then show False by (simp add: log_simps fun_eq_iff split: if_splits)
  qed
  with session_page_chain [OF s(2)] have "st_PageCount (store_Stats s) > 0"
    by (auto simp: page_chain_def store_Stats_def NumPages_def word_neq_0_conv split: if_splits)
  from second_session_unlinked [OF good(1,2) s(1) _ this, of "[1]" "[3]"] s(1) show ?thesis
    by (auto simp: log_simps small_simps range_ok_def)
qed

end
