(* ===== verification/Store_Crash.thy ===== *)
theory Store_Crash
  imports Store_Recovery
begin

text \<open>
  Crashes. The buffer pool is lost, and with it any page that was not written back; the log and the
  index file have every successful call. The theorems allow any page file that opens and
  passes the validation of its pages.
\<close>

section \<open>Replaying the log\<close>



lemma replay_apply_ops:
  "replay_apply walPut key v s = store_append key v flagLive s"
  "replay_apply walDelete key v s = store_append key v flagTombstone s"
  by (simp_all add: replay_apply_def)


text \<open>The disk after a crash: the page file is well-formed, the log and the index are as they were.\<close>

definition crashed :: "disk \<Rightarrow> Pager \<Rightarrow> wal_call list \<Rightarrow> entry list \<Rightarrow> bool" where
  "crashed d p ws es \<longleftrightarrow>
     pager_Open (dbf d) = Inr p \<and> pager_fine p \<and> pages_valid p \<and> faults (walf d) = [] \<and>
     fdata (walf d) = wal_encode (concat (map call_records ws)) \<and>
     (\<forall>q \<in> set (concat (map call_records ws)). rec_fits q) \<and>
     idx_data (idxf d) = IndexEntries es \<and> idx_faults (idxf d) = [] \<and> sorted_keys es"

text \<open>Opening after a crash, up to and including the replay.\<close>

lemma ctx_Inr: "ctx msg (s, Inr a) = (s, Inr a)"
  by (simp add: ctx_def)

lemma open_crashed:
  assumes "crashed d p ws es"
  shows "\<exists>s. rep s [] [] (map_of es) \<and> \<not> hasPages s \<and> numPages (pager s) = numPages p \<and>
    open_steps (fresh_store p d) =
      seqR (ctx ''WAL recovery'' (apply_batch replay_apply (concat (map call_ops ws)) s)) (\<lambda>s u.
        if numPages (pager s) > 0 then rebuildVersions s else (s, Inr ()))"
proof -
  from assms have p: "pager_fine p" "pages_valid p" and w: "fdata (walf d) = wal_encode (concat (map call_records ws))"
    "\<forall>q \<in> set (concat (map call_records ws)). rec_fits q" "faults (walf d) = []"
    and es: "idx_data (idxf d) = IndexEntries es" "sorted_keys es" "idx_faults (idxf d) = []" by (auto simp: crashed_def)
  let ?s0 = "fresh_store p d"
  from validatePages_fine [of ?s0] p obtain p1 where
    p1: "validatePages ?s0 = (?s0\<lparr>pager := p1\<rparr>, Inr ())" "same_view p p1" by auto
  from builder.load_sorted [of empty_btree es] es(2) obtain t where
    t: "put_all es empty_btree = Some t" "btree_ok t" "tree_entries t = es" by auto
  let ?s1 = "?s0\<lparr>pager := p1, index := t\<rparr>"
  have li: "loadIndex (?s0\<lparr>pager := p1\<rparr>) = (?s1, Inr True)" using es(1) t(1) by (simp add: loadIndex_def)
  have rp: "replay replay_apply (walf d) ?s1 = apply_batch replay_apply (concat (map call_ops ws)) ?s1"
    using replay_log [OF w(2,1), of replay_apply ?s1] by (simp add: replay_calls)
  have "core ?s1 []"
    using p t(2) es(3) w(3) p1(2) same_view_valid [OF p1(2)] by (simp add: core_def store_chain_def same_view_def)
  then have "rep ?s1 [] [] (map_of es)" by (simp add: rep_def history_pager t(3))
  moreover have "open_steps ?s0 = seqR (ctx ''WAL recovery'' (apply_batch replay_apply (concat (map call_ops ws)) ?s1)) (\<lambda>s u.
        if numPages (pager s) > 0 then rebuildVersions s else (s, Inr ()))"
    using p1 li rp by (simp add: open_steps_def ctx_Inr NumPages_def cong: if_cong)
  ultimately show ?thesis using p1(2) by (intro exI [of _ ?s1]) (simp add: same_view_def)
qed

section \<open>Puts survive\<close>

lemma rep_rooted: "rep s c h m \<Longrightarrow> c \<noteq> [] \<Longrightarrow> rooted s c \<and> numPages (pager s) > 0"
proof -
  assume r: "rep s c h m" "c \<noteq> []"
  then have "rooted s c" by (auto simp: rep_def core_def store_chain_def rooted_def split: if_splits)
  moreover have "fst (hd c) \<in> fst ` set c" using r(2) by (cases c) auto
  ultimately have "fst (hd c) < numPages (pager s)"
    using chain_bound [of "pager s" c "fst (hd c)"] by (simp add: rooted_def)
  with \<open>rooted s c\<close> show "rooted s c \<and> numPages (pager s) > 0" using le_less_trans [OF word_zero_le] by blast
qed


text \<open>The log after a number of writing calls.\<close>

lemma writes_logged:
  "session s c h \<Longrightarrow> \<forall>cl \<in> set cs. good_call cl \<and> logged cl \<noteq> [] \<Longrightarrow> length h + length (writes cs) < 2 ^ 32 - 1 \<Longrightarrow>
     fdata (wal (exec_calls cs s)) = fdata (wal s) @ wal_encode (concat (map call_records (concat (map logged cs)))) \<and>
     (\<forall>q \<in> set (concat (map call_records (concat (map logged cs)))). rec_fits q)"
proof (induction cs arbitrary: s c h)
  case (Cons cl cs)
  obtain w where w: "logged cl = [w]" using Cons.prems(2) by (cases cl) auto
  then have good: "\<forall>r \<in> set (call_log cl). small r" using Cons.prems(2) by (cases cl) auto
  have room: "room (length (call_log cl)) s h" using Cons.prems(1,3) by (auto simp: room_def session_def writes_def)
  from exec_write [OF sessionD(1) [OF Cons.prems(1)] good room w] obtain s1 c1 where
    s1: "exec_call cl s = (s1, Inr ())" "fdata (wal s1) = fdata (wal s) @ wal_encode (call_records w)" by (auto simp: wrote_def)
  from session_call [OF Cons.prems(1), of cl] Cons.prems(2,3) s1(1) obtain c2 where
    "session s1 c2 (h @ call_log cl)" by (auto simp: writes_def)
  from Cons.IH [OF this] Cons.prems(2,3) have
    "fdata (wal (exec_calls cs s1)) = fdata (wal s1) @ wal_encode (concat (map call_records (concat (map logged cs))))"
    "\<forall>q \<in> set (concat (map call_records (concat (map logged cs)))). rec_fits q" by (auto simp: writes_def)
  with s1 w small_fits [OF good, of w] show ?case by auto
qed simp




section \<open>Deletes do not\<close>

text \<open>A tombstone that fits on the last page leaves the index alone.\<close>

lemma tomb_in_page:
  assumes core: "core s c" and c: "c \<noteq> []" and room: "numPages (pager s) < NoPage"
    and fits: "HeaderSize + sum_list (map rec_len (chain_log c)) + rec_len (flagTombstone, key, v) \<le> PageSize"
  shows "index (fst (append_record key v flagTombstone s)) = index s"
proof -
  from lastPage_fine [OF core room] obtain p f q c0 i rs where
    lp: "lastPage s = (s\<lparr>pager := p, firstPage := f, hasPages := True\<rparr>, Inr q)"
    and core1: "core (s\<lparr>pager := p, firstPage := f, hasPages := True\<rparr>) (c0 @ [(i, rs)])"
    and q: "pager_view p i = Some q"
    and n: "if c = [] then q = NewPage (numPages (pager s)) \<and> numPages p = numPages (pager s) + 1 \<and> c0 = [] \<and> i = numPages (pager s)
      else numPages p = numPages (pager s) \<and> c0 @ [(i, rs)] = c" by blast
  from n c have cc: "c0 @ [(i, rs)] = c" by simp
  let ?s1 = "s\<lparr>pager := p, firstPage := f, hasPages := True\<rparr>"
  have "chain_from (pager_view p) (c0 @ [(i, rs)])"
    using core1 core_hasPages [OF core1] by (simp add: core_def store_chain_def)
  from chain_last [OF this] q have "page_has q rs" by (auto simp: page_at_def)
  from page_has_length [OF this] fits cc [symmetric] have
    "unat (FreeOffset q) + rec_len (flagTombstone, key, v) \<le> PageSize" by (simp add: chain_log_def)
  from append_in_page [OF core1 _ this] q obtain q' p2 where
    w: "writeRecord key v flagTombstone q = Inr q'" "write_page q' ?s1 = (?s1\<lparr>pager := p2\<rparr>, Inr ())"
    "core (?s1\<lparr>pager := p2\<rparr>) (c0 @ [(i, rs @ [(flagTombstone, key, v)])])" by auto
  from saveIndex_fine [OF core_btree [OF w(3)]] w(1,2) lp show ?thesis
    by (simp add: append_record_def flagLive_def flagTombstone_def)
qed

text \<open>C19: A crash after a delete brings the key back. With the index file in place, the log of a put
  and a delete of the same key is replayed as follows: the put enters the key into the index, the tombstone goes
  to the page but, because it fits there, not to the index. The key the client had deleted is there again.\<close>

theorem crash_resurrects_deleted_key:
  assumes "HeaderSize + rec_len (flagLive, key, v) + rec_len (flagTombstone, key, []) \<le> PageSize"
    and "run_client rng [DoPut key v, DoDelete key] = Some s"
    and "pager_Open f = Inr p" and "pager_fine p" and "pages_valid p" and "unat (numPages p) < 2 ^ 32 - 2"
  shows "\<exists>d s'. store_Get key s = Inr None \<and>
    store_Open rng \<lparr>dbf = f, walf = wal s, idxf = idx s\<rparr> = (d, Inr s') \<and> store_Get key s' = Inr (Some v)"
proof -
  let ?cs = "[DoPut key v, DoDelete key]" and ?d = "\<lparr>dbf = f, walf = wal s, idxf = idx s\<rparr>"
  let ?ws = "[CallPut key v, CallDelete key]" and ?r = "(flagLive, key, v)" and ?t = "(flagTombstone, key, [])"
  have good: "\<forall>cl \<in> set ?cs. good_call cl \<and> logged cl \<noteq> []" and sm: "small ?r" "small ?t"
    and len: "length [] + length (writes ?cs) < 2 ^ 32 - 1"
    using assms(1) by (auto simp: small_simps writes_def)
  from open_empty_disk [of rng] obtain d0 s0 where
    s0: "store_Open rng empty_disk = (d0, Inr s0)" "session s0 [] []" "wal s0 = file_of []" by blast
  have s: "s = exec_calls ?cs s0" using assms(2) s0(1) by (simp add: run_client_def)
  from session_calls [OF s0(2), of ?cs] good len obtain c where ss: "session s c [?r, ?t]" by (auto simp: s writes_def)
  have lg: "fdata (wal s) = wal_encode (concat (map call_records ?ws))" "\<forall>q \<in> set (concat (map call_records ?ws)). rec_fits q"
    using writes_logged [OF s0(2) good len] s0(3) by (auto simp: s file_of_def)
  have "idx_data (idx s) = IndexEntries (tree_entries (index s))" "sorted_keys (tree_entries (index s))"
    "faults (wal s) = []" "idx_faults (idx s) = []"
    using ss tree_entries_sorted sessionD(2,3) [OF ss] by (auto simp: session_def saved_def core_def)
  with lg assms(3-5) have cr: "crashed ?d p ?ws (tree_entries (index s))" by (simp add: crashed_def)
  from open_crashed [OF cr] obtain s1 where s1: "rep s1 [] [] (map_of (tree_entries (index s)))" "numPages (pager s1) = numPages p"
    and o: "open_steps (fresh_store p ?d) = seqR (ctx ''WAL recovery'' (apply_batch replay_apply (concat (map call_ops ?ws)) s1)) (\<lambda>s u.
        if numPages (pager s) > 0 then rebuildVersions s else (s, Inr ()))" by blast
  from live_write [OF s1(1) sm(1)] s1(2) assms(6) obtain s2 c2 where
    s2: "store_append key v flagLive s1 = (s2, Inr ())" "wrote [?r] s1 [] [] (map_of (tree_entries (index s))) s2 c2" by auto
  then have r2: "rep s2 c2 [?r] (log_step ?r (map_of (tree_entries (index s))))" and lg2: "chain_log c2 = [?r]"
    and n2: "unat (numPages (pager s2)) < 2 ^ 32 - 1" using s1(2) assms(6) by (auto simp: wrote_def chain_log_def)
  from store_append_fine [OF r2 sm(2) n2] obtain s3 c3 where
    s3: "store_append key [] flagTombstone s2 = (s3, Inr ())" "appended flagTombstone key [] s2 c2 s3 c3" "history s3 ([?r] @ [?t])" by auto
  have c2: "c2 \<noteq> []" using lg2 by (auto simp: chain_log_def)
  have "index s3 = index s2"
    using tomb_in_page [of "add_version key [] (flagTombstone = flagLive) s2" c2 key "[]"] c2 lg2 r2 n2 assms(1) s3(1)
    by (simp add: store_append_def add_version_core add_version_frame rep_def rep_room)
  moreover have "core s3 c3" "chain_log c3 = [?r, ?t]" using s3(2) lg2 by (auto simp: appended_def)
  ultimately have r3: "rep s3 c3 [?r, ?t] (log_step ?r (map_of (tree_entries (index s))))" using s3(3) r2 by (simp add: rep_def)
  have "c3 \<noteq> []" using \<open>chain_log c3 = [?r, ?t]\<close> by (auto simp: chain_log_def)
  with rep_rooted [OF r3] have rt: "rooted s3 c3" "numPages (pager s3) > 0" by auto
  have "pager_fine (pager s3)" "history s3 [?r, ?t]" using r3 by (auto simp: rep_def core_def)
  from rebuildVersions_fine [OF this rt(1)] \<open>chain_log c3 = [?r, ?t]\<close> obtain s' where
    s': "rebuildVersions s3 = (s', Inr ())" "versions_only s3 s'" by auto
  have "store_Open rng ?d = (disk_of s', Inr s')"
    using assms(3) o s2(1) s3(1) rt(2) s'(1) by (simp add: store_Open_def ctx_Inr replay_apply_ops)
  moreover have "store_Get key s' = store_Get key s3" using versions_onlyD(1) [OF s'(2)] by (simp add: store_Get_def)
  moreover have "store_Get key s = Inr None" using rep_Get [OF sessionD(1) [OF ss], of key] by (simp add: log_simps)
  ultimately show ?thesis using rep_Get [OF r3, of key] by (auto simp: log_step_def)
qed

theorem crash_resurrects_deleted_key_witness:
  "\<exists>s d s'. run_client (\<lambda>b. map fst (items b)) [DoPut [1] [2], DoDelete [1]] = Some s \<and> store_Get [1] s = Inr None \<and>
     store_Open (\<lambda>b. map fst (items b)) \<lparr>dbf = file_of [], walf = wal s, idxf = idx s\<rparr> = (d, Inr s') \<and>
     store_Get [1] s' = Inr (Some [2])"
proof -
  let ?rng = "\<lambda>b. map fst (items b)" and ?p = "\<lparr>dbfile = file_of [], numPages = 0, pool = NewBufferPool 64\<rparr>"
  have "\<forall>cl \<in> set [DoPut [1] [2], DoDelete [1]]. good_call cl" "length (writes [DoPut [1] [2], DoDelete [1]]) < 2 ^ 32 - 1"
    by (auto simp: log_simps small_simps)
  from run_client_session [OF this, of ?rng] obtain s where s: "run_client ?rng [DoPut [1] [2], DoDelete [1]] = Some s" by blast
  have p: "pager_Open (file_of []) = Inr ?p" "pager_fine ?p" "pages_valid ?p"
    using open_empty by (simp_all add: file_of_def)
  from crash_resurrects_deleted_key [OF _ s p] s show ?thesis by (auto simp: small_simps)
qed

section \<open>Records that do not fit\<close>

lemma append_too_large:
  assumes core: "core s c" and big: "PageSize - HeaderSize < rec_len (flagLive, key, v)" and few: "unat (numPages (pager s)) < 2 ^ 32 - 2"
  shows "\<exists>p f. append_record key v flagLive s =
    (s\<lparr>pager := p, firstPage := f, hasPages := True\<rparr>, Inl (ErrCtx ''record too large for an empty page'' ErrPageFull))"
proof -
  have room: "numPages (pager s) < NoPage" using few by (simp add: word_less_nat_alt unat_NoPage)
  from lastPage_fine [OF core room] obtain p f q c0 i rs where
    lp: "lastPage s = (s\<lparr>pager := p, firstPage := f, hasPages := True\<rparr>, Inr q)"
    and core1: "core (s\<lparr>pager := p, firstPage := f, hasPages := True\<rparr>) (c0 @ [(i, rs)])" and q: "pager_view p i = Some q"
    and n: "if c = [] then q = NewPage (numPages (pager s)) \<and> numPages p = numPages (pager s) + 1 \<and> c0 = [] \<and> i = numPages (pager s)
      else numPages p = numPages (pager s) \<and> c0 @ [(i, rs)] = c" by blast
  let ?s2 = "s\<lparr>pager := p, firstPage := f, hasPages := True\<rparr>"
  have full: "writeRecord key v flagLive q' = Inl ErrPageFull" if "HeaderSize \<le> unat (FreeOffset q')" for q'
    using that big by (intro writeRecord_full) simp
  have "chain_from (pager_view p) (c0 @ [(i, rs)])"
    using core1 core_hasPages [OF core1] by (simp add: core_def store_chain_def)
  from chain_last [OF this] q have "HeaderSize \<le> unat (FreeOffset q)" by (auto simp: page_at_def page_has_def)
  moreover have np: "numPages p < NoPage"
    using n few unat_next_page [OF room] by (auto simp: word_less_nat_alt unat_NoPage split: if_splits)
  from on_pager_Allocate [of ?s2] np core1 obtain p2 where
    "on_pager AllocatePage ?s2 = (?s2\<lparr>pager := p2\<rparr>, Inr (NewPage (numPages p)))" by (auto simp: core_def)
  ultimately have "append_record key v flagLive s =
      (?s2\<lparr>pager := p2\<rparr>, Inl (ErrCtx ''record too large for an empty page'' ErrPageFull))"
    using lp full [of q] full [of "NewPage (numPages p)"] by (simp add: append_record_def page_consts)
  then show ?thesis by (intro exI [of _ p2] exI [of _ f]) simp
qed

text \<open>C20: A record too large for a page. The put reports the error, but only after it entered the log and the
  versions: \<open>Get\<close> rightly answers as before, yet a read at the newest snapshot returns the
  rejected value, and replaying that log record makes the next opening after a crash fail.\<close>

theorem oversize_put:
  assumes "\<forall>cl \<in> set cs. good_call cl" and "length (writes cs) < 2 ^ 32 - 2" and "run_client rng cs = Some s"
    and "PageSize - HeaderSize < rec_len (flagLive, key, v)" and "length key + length v < 2 ^ 32"
    and "pager_Open f = Inr p" and "pager_fine p" and "pages_valid p" and "unat (numPages p) < 2 ^ 32 - 2"
  shows "\<exists>s'. store_Put key v s = (s', Inl (ErrCtx ''record too large for an empty page'' ErrPageFull)) \<and>
    store_Get key s' = store_Get key s \<and> store_GetAt (seq s') key s' = Some v \<and>
    fdata (wal s') = fdata (wal s) @ wal_record walPut key v \<and>
    snd (store_Open rng \<lparr>dbf = f, walf = file_of (wal_record walPut key v), idxf = idx s\<rparr>) =
      Inl (ErrCtx ''WAL recovery'' (ErrCtx ''record too large for an empty page'' ErrPageFull))"
proof -
  have len: "length (writes cs) < 2 ^ 32 - 1" using assms(2) by simp
  from run_client_session [OF assms(1) len, of rng] assms(3) obtain c where ss: "session s c (writes cs)" by auto
  have fits: "rec_fits (walPut, key, v)" using assms(5) by (simp add: rec_fits_def)
  let ?w = "(wal s)\<lparr>fdata := fdata (wal s) @ wal_record walPut key v\<rparr>"
  let ?s1 = "add_version key v True (s\<lparr>wal := ?w\<rparr>)"
  have core: "core ?s1 c"
    using sessionD(2) [OF ss] by (simp add: add_version_core) (simp add: core_def store_chain_def)
  have "unat (numPages (pager ?s1)) < 2 ^ 32 - 2" using ss assms(2) by (simp add: session_def add_version_frame)
  from append_too_large [OF core assms(4) this] obtain p1 g where app: "append_record key v flagLive ?s1 =
      (?s1\<lparr>pager := p1, firstPage := g, hasPages := True\<rparr>, Inl (ErrCtx ''record too large for an empty page'' ErrPageFull))" by blast
  let ?s2 = "?s1\<lparr>pager := p1, firstPage := g, hasPages := True\<rparr>"
  have "on_wal (wal_append walPut key v) s = (s\<lparr>wal := ?w\<rparr>, Inr ())"
    using sessionD(2) [OF ss] fits by (simp add: on_wal_def wal_append_fine core_def)
  with app have put: "store_Put key v s = (?s2, Inl (ErrCtx ''record too large for an empty page'' ErrPageFull))"
    by (simp add: store_Put_def store_append_def)
  have "history (s\<lparr>wal := ?w\<rparr>) (writes cs)" using sessionD(5) [OF ss] by (simp add: history_pager)
  from history_add [OF this, of key v flagLive] assms(2) have "history ?s1 (writes cs @ [(flagLive, key, v)])" by simp
  then have h: "history ?s2 (writes cs @ [(flagLive, key, v)])" by (simp add: history_def versions_of_def)
  from GetAt_log [OF h, of "length (writes cs @ [(flagLive, key, v)])" key] h have
    "store_GetAt (seq ?s2) key ?s2 = Some v" by (simp add: history_def log_step_def)
  moreover have "store_Get key ?s2 = store_Get key s" by (simp add: store_Get_def add_version_frame)
  moreover have "snd (store_Open rng \<lparr>dbf = f, walf = file_of (wal_record walPut key v), idxf = idx s\<rparr>) =
      Inl (ErrCtx ''WAL recovery'' (ErrCtx ''record too large for an empty page'' ErrPageFull))"
  proof -
    let ?d = "\<lparr>dbf = f, walf = file_of (wal_record walPut key v), idxf = idx s\<rparr>"
    have "crashed ?d p [CallPut key v] (tree_entries (index s))"
      using ss sessionD(2) [OF ss] tree_entries_sorted [OF sessionD(3) [OF ss]] assms(6-8) fits
      by (simp add: crashed_def session_def saved_def core_def file_of_def encode_rec_def)
    from open_crashed [OF this] obtain s3 where s3: "rep s3 [] [] (map_of (tree_entries (index s)))" "numPages (pager s3) = numPages p"
      and o: "open_steps (fresh_store p ?d) = seqR (ctx ''WAL recovery'' (apply_batch replay_apply (concat (map call_ops [CallPut key v])) s3)) (\<lambda>s u.
        if numPages (pager s) > 0 then rebuildVersions s else (s, Inr ()))" by blast
    have "core (add_version key v True s3) []" using s3(1) by (simp add: add_version_core rep_def)
    from append_too_large [OF this assms(4)] s3(2) assms(9) o show ?thesis
      using assms(6) by (auto simp: store_Open_def ctx_def replay_apply_ops store_append_def add_version_frame)
  qed
  ultimately show ?thesis using put by (auto simp: add_version_frame)
qed

theorem oversize_put_witness:
  "\<exists>s s'. run_client (\<lambda>b. map fst (items b)) [] = Some s \<and>
     store_Put [1] (replicate 5000 0) s = (s', Inl (ErrCtx ''record too large for an empty page'' ErrPageFull)) \<and>
     store_GetAt (seq s') [1] s' = Some (replicate 5000 0)"
proof -
  let ?rng = "\<lambda>b. map fst (items b)" and ?p = "\<lparr>dbfile = file_of [], numPages = 0, pool = NewBufferPool 64\<rparr>"
  have good: "\<forall>cl \<in> set ([] :: store_call list). good_call cl" "length (writes []) < 2 ^ 32 - 2" by (simp_all add: writes_def)
  from open_empty_disk [of ?rng] obtain s where s: "run_client ?rng [] = Some s" by (auto simp: run_client_def)
  have p: "pager_Open (file_of []) = Inr ?p" "pager_fine ?p" "pages_valid ?p"
    using open_empty by (simp_all add: file_of_def)
  have big: "PageSize - HeaderSize < rec_len (flagLive, [1], replicate 5000 0)" "length [1 :: u8] + length (replicate 5000 (0 :: u8)) < 2 ^ 32"
    by (simp_all add: small_simps)
  from oversize_put [OF good s big p] s show ?thesis by auto
qed

section \<open>Pages that form a cycle\<close>

text \<open>C21: Page validation does not look for cycles. A page that names itself as its successor passes \<open>validatePages\<close>, and
  the loop that rebuilds the index from it never ends: no number of iterations is enough.\<close>

theorem page_cycle_diverges:
  assumes "pager_fine (pager s)" and "numPages (pager s) = 1" and "pager_view (pager s) 0 = Some q"
    and "page_has q []" and "ID q = 0" and "NextPageID q = 0"
  shows "snd (validatePages s) = Inr () \<and>
    (\<forall>n. snd (for_chain n (\<lambda>p. for_records index_record (Data p) (FreeOffset p) (word_of_nat HeaderSize)) 0 s) = Inl Diverge)"
proof
  have "pages_valid (pager s)"
    unfolding pages_valid_def
  proof (intro allI impI)
    fix i assume "i < numPages (pager s)"
    then have "i = 0" using assms(2) by (simp add: word_less_nat_alt unat_eq_0)
    with assms show "\<exists>q rs. pager_view (pager s) i = Some q \<and> page_has q rs \<and> ID q = i \<and>
      (NextPageID q = NoPage \<or> NextPageID q < numPages (pager s))" by auto
  qed
  from validatePages_fine [OF assms(1) this] show "snd (validatePages s) = Inr ()" by auto
  have "0 \<noteq> NoPage" using unat_NoPage by auto
  then have "snd (for_chain n (scan index_record) 0 s) = Inl Diverge" for n
    using assms(1,3)
  proof (induction n arbitrary: s)
    case (Suc n)
    from on_pager_Read [OF Suc.prems(2,3)] obtain p where
      p: "on_pager (ReadPage 0) s = (s\<lparr>pager := p\<rparr>, Inr q)" "same_view (pager s) p" by blast
    with Suc.IH [of "s\<lparr>pager := p\<rparr>"] Suc.prems assms(4,6) show ?case
      by (simp add: same_view_def for_records_page)
  qed simp
  then show "\<forall>n. snd (for_chain n (\<lambda>p. for_records index_record (Data p) (FreeOffset p) (word_of_nat HeaderSize)) 0 s) = Inl Diverge"
    by blast
qed

theorem page_cycle_diverges_witness:
  "\<exists>s. snd (validatePages s) = Inr () \<and>
     snd (for_chain 100 (\<lambda>p. for_records index_record (Data p) (FreeOffset p) (word_of_nat HeaderSize)) 0 s) = Inl Diverge"
proof -
  let ?p = "\<lparr>dbfile = file_of [], numPages = 0, pool = NewBufferPool 64\<rparr>" and ?q = "SetNextPageID 0 (NewPage 0)"
  have "pager_fine ?p" using open_empty(2) by simp
  from AllocatePage_fine [OF this] obtain p1 where
    p1: "pager_fine p1" "numPages p1 = 1" by (auto simp: word_less_nat_alt unat_NoPage)
  have "page_has ?q []" by simp
  then have "wf_page ?q" by (simp only: page_has_def)
  from WritePage_fine [OF p1(1) this] p1(2) obtain p2 where
    p2: "pager_fine p2" "pager_view p2 = (pager_view p1)(0 \<mapsto> ?q)" "numPages p2 = 1" by auto
  let ?s = "fresh_store p2 empty_disk"
  have "snd (validatePages ?s) = Inr () \<and>
    (\<forall>n. snd (for_chain n (\<lambda>p. for_records index_record (Data p) (FreeOffset p) (word_of_nat HeaderSize)) 0 ?s) = Inl Diverge)"
    by (rule page_cycle_diverges [where q = ?q]) (use p2 in simp_all)
  then show ?thesis by blast
qed

end
