(* ===== verification/Unicode.thy ===== *)
theory Unicode
  imports Prelude
begin

text \<open>
  What the sources use of the Go packages \<^verbatim>\<open>unicode/utf8\<close>, \<^verbatim>\<open>unicode\<close> and \<^verbatim>\<open>strings\<close>: the runes a string of
  bytes denotes (an invalid byte is the rune U+FFFD), the case of a rune, \<^verbatim>\<open>strings.ToUpper\<close>,
  \<^verbatim>\<open>strings.ToLower\<close>, \<^verbatim>\<open>strings.EqualFold\<close> and \<^verbatim>\<open>strings.TrimSpace\<close>. The case tables are those of Unicode 15.0.
\<close>

section \<open>UTF-8\<close>

definition RuneError :: nat where
  "RuneError = 0xFFFD"

text \<open>The number of bytes that follow a first byte, and the range of the second byte.\<close>

definition lead_info :: "u8 \<Rightarrow> (nat \<times> u8 \<times> u8) option" where
  "lead_info b =
     (if 0xC2 \<le> b \<and> b \<le> 0xDF then Some (1, 0x80, 0xBF)
      else if b = 0xE0 then Some (2, 0xA0, 0xBF)
      else if b = 0xED then Some (2, 0x80, 0x9F)
      else if 0xE1 \<le> b \<and> b \<le> 0xEF then Some (2, 0x80, 0xBF)
      else if b = 0xF0 then Some (3, 0x90, 0xBF)
      else if 0xF1 \<le> b \<and> b \<le> 0xF3 then Some (3, 0x80, 0xBF)
      else if b = 0xF4 then Some (3, 0x80, 0x8F)
      else None)"

definition continuation :: "u8 \<Rightarrow> bool" where
  "continuation b \<longleftrightarrow> 0x80 \<le> b \<and> b \<le> 0xBF"

text \<open>The first rune of \<open>b # bs\<close> and the number of bytes of \<open>bs\<close> it takes.\<close>

definition decode_rune :: "u8 \<Rightarrow> bytes \<Rightarrow> nat \<times> nat" where
  "decode_rune b bs =
     (if b < 0x80 then (unat b, 0)
      else (case lead_info b of
              None \<Rightarrow> (RuneError, 0)
            | Some (n, lo, hi) \<Rightarrow>
                if n \<le> length bs \<and> lo \<le> bs ! 0 \<and> bs ! 0 \<le> hi \<and> list_all continuation (take n bs)
                then (fold (\<lambda>c r. r * 64 + unat c mod 64) (take n bs) (unat b mod 2 ^ (6 - n)), n)
                else (RuneError, 0)))"

fun runes :: "bytes \<Rightarrow> nat list" where
  "runes [] = []"
| "runes (b # bs) = (case decode_rune b bs of (r, n) \<Rightarrow> r # runes (drop n bs))"

definition encode_rune :: "nat \<Rightarrow> bytes" where
  "encode_rune r =
     (if r < 0x80 then [word_of_nat r]
      else if r < 0x800 then [word_of_nat (0xC0 + r div 64), word_of_nat (0x80 + r mod 64)]
      else if r < 0x10000
      then [word_of_nat (0xE0 + r div 4096), word_of_nat (0x80 + r div 64 mod 64), word_of_nat (0x80 + r mod 64)]
      else [word_of_nat (0xF0 + r div 262144), word_of_nat (0x80 + r div 4096 mod 64), word_of_nat (0x80 + r div 64 mod 64),
            word_of_nat (0x80 + r mod 64)])"

text \<open>The runes of a string written out again: every invalid byte has become the encoding of U+FFFD.\<close>

definition ToValidUTF8 :: "bytes \<Rightarrow> bytes" where
  "ToValidUTF8 s = concat (map encode_rune (runes s))"

definition valid_utf8 :: "bytes \<Rightarrow> bool" where
  "valid_utf8 s \<longleftrightarrow> ToValidUTF8 s = s"

section \<open>The case of a rune\<close>

text \<open>
  The case ranges: first and last rune, and the distances to the upper and the lower case. In a range
  \<open>UpperLower\<close> the upper and lower case letters alternate, an upper case one first.
\<close>

datatype case_delta = Delta int int | UpperLower

definition CaseRanges :: "(nat \<times> nat \<times> case_delta) list" where
  "CaseRanges =
     [(0x41, 0x5A, Delta 0 32), (0x61, 0x7A, Delta (-32) 0), (0xB5, 0xB5, Delta 743 0), (0xC0, 0xD6, Delta 0 32),
      (0xD8, 0xDE, Delta 0 32), (0xE0, 0xF6, Delta (-32) 0), (0xF8, 0xFE, Delta (-32) 0), (0xFF, 0xFF, Delta 121 0),
      (0x100, 0x12F, UpperLower), (0x130, 0x130, Delta 0 (-199)), (0x131, 0x131, Delta (-232) 0), (0x132, 0x137, UpperLower),
      (0x139, 0x148, UpperLower), (0x14A, 0x177, UpperLower), (0x178, 0x178, Delta 0 (-121)), (0x179, 0x17E, UpperLower),
      (0x17F, 0x17F, Delta (-300) 0), (0x180, 0x180, Delta 195 0), (0x181, 0x181, Delta 0 210), (0x182, 0x185, UpperLower),
      (0x186, 0x186, Delta 0 206), (0x187, 0x188, UpperLower), (0x189, 0x18A, Delta 0 205), (0x18B, 0x18C, UpperLower),
      (0x18E, 0x18E, Delta 0 79), (0x18F, 0x18F, Delta 0 202), (0x190, 0x190, Delta 0 203), (0x191, 0x192, UpperLower),
      (0x193, 0x193, Delta 0 205), (0x194, 0x194, Delta 0 207), (0x195, 0x195, Delta 97 0), (0x196, 0x196, Delta 0 211),
      (0x197, 0x197, Delta 0 209), (0x198, 0x199, UpperLower), (0x19A, 0x19A, Delta 163 0), (0x19C, 0x19C, Delta 0 211),
      (0x19D, 0x19D, Delta 0 213), (0x19E, 0x19E, Delta 130 0), (0x19F, 0x19F, Delta 0 214), (0x1A0, 0x1A5, UpperLower),
      (0x1A6, 0x1A6, Delta 0 218), (0x1A7, 0x1A8, UpperLower), (0x1A9, 0x1A9, Delta 0 218), (0x1AC, 0x1AD, UpperLower),
      (0x1AE, 0x1AE, Delta 0 218), (0x1AF, 0x1B0, UpperLower), (0x1B1, 0x1B2, Delta 0 217), (0x1B3, 0x1B6, UpperLower),
      (0x1B7, 0x1B7, Delta 0 219), (0x1B8, 0x1B9, UpperLower), (0x1BC, 0x1BD, UpperLower), (0x1BF, 0x1BF, Delta 56 0),
      (0x1C4, 0x1C4, Delta 0 2), (0x1C5, 0x1C5, Delta (-1) 1), (0x1C6, 0x1C6, Delta (-2) 0), (0x1C7, 0x1C7, Delta 0 2),
      (0x1C8, 0x1C8, Delta (-1) 1), (0x1C9, 0x1C9, Delta (-2) 0), (0x1CA, 0x1CA, Delta 0 2), (0x1CB, 0x1CB, Delta (-1) 1),
      (0x1CC, 0x1CC, Delta (-2) 0), (0x1CD, 0x1DC, UpperLower), (0x1DD, 0x1DD, Delta (-79) 0), (0x1DE, 0x1EF, UpperLower),
      (0x1F1, 0x1F1, Delta 0 2), (0x1F2, 0x1F2, Delta (-1) 1), (0x1F3, 0x1F3, Delta (-2) 0), (0x1F4, 0x1F5, UpperLower),
      (0x1F6, 0x1F6, Delta 0 (-97)), (0x1F7, 0x1F7, Delta 0 (-56)), (0x1F8, 0x21F, UpperLower), (0x220, 0x220, Delta 0 (-130)),
      (0x222, 0x233, UpperLower), (0x23A, 0x23A, Delta 0 10795), (0x23B, 0x23C, UpperLower), (0x23D, 0x23D, Delta 0 (-163)),
      (0x23E, 0x23E, Delta 0 10792), (0x23F, 0x240, Delta 10815 0), (0x241, 0x242, UpperLower), (0x243, 0x243, Delta 0 (-195)),
      (0x244, 0x244, Delta 0 69), (0x245, 0x245, Delta 0 71), (0x246, 0x24F, UpperLower), (0x250, 0x250, Delta 10783 0),
      (0x251, 0x251, Delta 10780 0), (0x252, 0x252, Delta 10782 0), (0x253, 0x253, Delta (-210) 0), (0x254, 0x254, Delta (-206) 0),
      (0x256, 0x257, Delta (-205) 0), (0x259, 0x259, Delta (-202) 0), (0x25B, 0x25B, Delta (-203) 0),
      (0x25C, 0x25C, Delta 42319 0), (0x260, 0x260, Delta (-205) 0), (0x261, 0x261, Delta 42315 0), (0x263, 0x263, Delta (-207) 0),
      (0x265, 0x265, Delta 42280 0), (0x266, 0x266, Delta 42308 0), (0x268, 0x268, Delta (-209) 0), (0x269, 0x269, Delta (-211) 0),
      (0x26A, 0x26A, Delta 42308 0), (0x26B, 0x26B, Delta 10743 0), (0x26C, 0x26C, Delta 42305 0), (0x26F, 0x26F, Delta (-211) 0),
      (0x271, 0x271, Delta 10749 0), (0x272, 0x272, Delta (-213) 0), (0x275, 0x275, Delta (-214) 0), (0x27D, 0x27D, Delta 10727 0),
      (0x280, 0x280, Delta (-218) 0), (0x282, 0x282, Delta 42307 0), (0x283, 0x283, Delta (-218) 0), (0x287, 0x287, Delta 42282 0),
      (0x288, 0x288, Delta (-218) 0), (0x289, 0x289, Delta (-69) 0), (0x28A, 0x28B, Delta (-217) 0), (0x28C, 0x28C, Delta (-71) 0),
      (0x292, 0x292, Delta (-219) 0), (0x29D, 0x29D, Delta 42261 0), (0x29E, 0x29E, Delta 42258 0), (0x345, 0x345, Delta 84 0),
      (0x370, 0x373, UpperLower), (0x376, 0x377, UpperLower), (0x37B, 0x37D, Delta 130 0), (0x37F, 0x37F, Delta 0 116),
      (0x386, 0x386, Delta 0 38), (0x388, 0x38A, Delta 0 37), (0x38C, 0x38C, Delta 0 64), (0x38E, 0x38F, Delta 0 63),
      (0x391, 0x3A1, Delta 0 32), (0x3A3, 0x3AB, Delta 0 32), (0x3AC, 0x3AC, Delta (-38) 0), (0x3AD, 0x3AF, Delta (-37) 0),
      (0x3B1, 0x3C1, Delta (-32) 0), (0x3C2, 0x3C2, Delta (-31) 0), (0x3C3, 0x3CB, Delta (-32) 0), (0x3CC, 0x3CC, Delta (-64) 0),
      (0x3CD, 0x3CE, Delta (-63) 0), (0x3CF, 0x3CF, Delta 0 8), (0x3D0, 0x3D0, Delta (-62) 0), (0x3D1, 0x3D1, Delta (-57) 0),
      (0x3D5, 0x3D5, Delta (-47) 0), (0x3D6, 0x3D6, Delta (-54) 0), (0x3D7, 0x3D7, Delta (-8) 0), (0x3D8, 0x3EF, UpperLower),
      (0x3F0, 0x3F0, Delta (-86) 0), (0x3F1, 0x3F1, Delta (-80) 0), (0x3F2, 0x3F2, Delta 7 0), (0x3F3, 0x3F3, Delta (-116) 0),
      (0x3F4, 0x3F4, Delta 0 (-60)), (0x3F5, 0x3F5, Delta (-96) 0), (0x3F7, 0x3F8, UpperLower), (0x3F9, 0x3F9, Delta 0 (-7)),
      (0x3FA, 0x3FB, UpperLower), (0x3FD, 0x3FF, Delta 0 (-130)), (0x400, 0x40F, Delta 0 80), (0x410, 0x42F, Delta 0 32),
      (0x430, 0x44F, Delta (-32) 0), (0x450, 0x45F, Delta (-80) 0), (0x460, 0x481, UpperLower), (0x48A, 0x4BF, UpperLower),
      (0x4C0, 0x4C0, Delta 0 15), (0x4C1, 0x4CE, UpperLower), (0x4CF, 0x4CF, Delta (-15) 0), (0x4D0, 0x52F, UpperLower),
      (0x531, 0x556, Delta 0 48), (0x561, 0x586, Delta (-48) 0), (0x10A0, 0x10C5, Delta 0 7264), (0x10C7, 0x10C7, Delta 0 7264),
      (0x10CD, 0x10CD, Delta 0 7264), (0x10D0, 0x10FA, Delta 3008 0), (0x10FD, 0x10FF, Delta 3008 0),
      (0x13A0, 0x13EF, Delta 0 38864), (0x13F0, 0x13F5, Delta 0 8), (0x13F8, 0x13FD, Delta (-8) 0),
      (0x1C80, 0x1C80, Delta (-6254) 0), (0x1C81, 0x1C81, Delta (-6253) 0), (0x1C82, 0x1C82, Delta (-6244) 0),
      (0x1C83, 0x1C84, Delta (-6242) 0), (0x1C85, 0x1C85, Delta (-6243) 0), (0x1C86, 0x1C86, Delta (-6236) 0),
      (0x1C87, 0x1C87, Delta (-6181) 0), (0x1C88, 0x1C88, Delta 35266 0), (0x1C90, 0x1CBA, Delta 0 (-3008)),
      (0x1CBD, 0x1CBF, Delta 0 (-3008)), (0x1D79, 0x1D79, Delta 35332 0), (0x1D7D, 0x1D7D, Delta 3814 0),
      (0x1D8E, 0x1D8E, Delta 35384 0), (0x1E00, 0x1E95, UpperLower), (0x1E9B, 0x1E9B, Delta (-59) 0),
      (0x1E9E, 0x1E9E, Delta 0 (-7615)), (0x1EA0, 0x1EFF, UpperLower), (0x1F00, 0x1F07, Delta 8 0), (0x1F08, 0x1F0F, Delta 0 (-8)),
      (0x1F10, 0x1F15, Delta 8 0), (0x1F18, 0x1F1D, Delta 0 (-8)), (0x1F20, 0x1F27, Delta 8 0), (0x1F28, 0x1F2F, Delta 0 (-8)),
      (0x1F30, 0x1F37, Delta 8 0), (0x1F38, 0x1F3F, Delta 0 (-8)), (0x1F40, 0x1F45, Delta 8 0), (0x1F48, 0x1F4D, Delta 0 (-8)),
      (0x1F51, 0x1F51, Delta 8 0), (0x1F53, 0x1F53, Delta 8 0), (0x1F55, 0x1F55, Delta 8 0), (0x1F57, 0x1F57, Delta 8 0),
      (0x1F59, 0x1F59, Delta 0 (-8)), (0x1F5B, 0x1F5B, Delta 0 (-8)), (0x1F5D, 0x1F5D, Delta 0 (-8)),
      (0x1F5F, 0x1F5F, Delta 0 (-8)), (0x1F60, 0x1F67, Delta 8 0), (0x1F68, 0x1F6F, Delta 0 (-8)), (0x1F70, 0x1F71, Delta 74 0),
      (0x1F72, 0x1F75, Delta 86 0), (0x1F76, 0x1F77, Delta 100 0), (0x1F78, 0x1F79, Delta 128 0), (0x1F7A, 0x1F7B, Delta 112 0),
      (0x1F7C, 0x1F7D, Delta 126 0), (0x1F80, 0x1F87, Delta 8 0), (0x1F88, 0x1F8F, Delta 0 (-8)), (0x1F90, 0x1F97, Delta 8 0),
      (0x1F98, 0x1F9F, Delta 0 (-8)), (0x1FA0, 0x1FA7, Delta 8 0), (0x1FA8, 0x1FAF, Delta 0 (-8)), (0x1FB0, 0x1FB1, Delta 8 0),
      (0x1FB3, 0x1FB3, Delta 9 0), (0x1FB8, 0x1FB9, Delta 0 (-8)), (0x1FBA, 0x1FBB, Delta 0 (-74)), (0x1FBC, 0x1FBC, Delta 0 (-9)),
      (0x1FBE, 0x1FBE, Delta (-7205) 0), (0x1FC3, 0x1FC3, Delta 9 0), (0x1FC8, 0x1FCB, Delta 0 (-86)),
      (0x1FCC, 0x1FCC, Delta 0 (-9)), (0x1FD0, 0x1FD1, Delta 8 0), (0x1FD8, 0x1FD9, Delta 0 (-8)),
      (0x1FDA, 0x1FDB, Delta 0 (-100)), (0x1FE0, 0x1FE1, Delta 8 0), (0x1FE5, 0x1FE5, Delta 7 0), (0x1FE8, 0x1FE9, Delta 0 (-8)),
      (0x1FEA, 0x1FEB, Delta 0 (-112)), (0x1FEC, 0x1FEC, Delta 0 (-7)), (0x1FF3, 0x1FF3, Delta 9 0),
      (0x1FF8, 0x1FF9, Delta 0 (-128)), (0x1FFA, 0x1FFB, Delta 0 (-126)), (0x1FFC, 0x1FFC, Delta 0 (-9)),
      (0x2126, 0x2126, Delta 0 (-7517)), (0x212A, 0x212A, Delta 0 (-8383)), (0x212B, 0x212B, Delta 0 (-8262)),
      (0x2132, 0x2132, Delta 0 28), (0x214E, 0x214E, Delta (-28) 0), (0x2160, 0x216F, Delta 0 16), (0x2170, 0x217F, Delta (-16) 0),
      (0x2183, 0x2184, UpperLower), (0x24B6, 0x24CF, Delta 0 26), (0x24D0, 0x24E9, Delta (-26) 0), (0x2C00, 0x2C2F, Delta 0 48),
      (0x2C30, 0x2C5F, Delta (-48) 0), (0x2C60, 0x2C61, UpperLower), (0x2C62, 0x2C62, Delta 0 (-10743)),
      (0x2C63, 0x2C63, Delta 0 (-3814)), (0x2C64, 0x2C64, Delta 0 (-10727)), (0x2C65, 0x2C65, Delta (-10795) 0),
      (0x2C66, 0x2C66, Delta (-10792) 0), (0x2C67, 0x2C6C, UpperLower), (0x2C6D, 0x2C6D, Delta 0 (-10780)),
      (0x2C6E, 0x2C6E, Delta 0 (-10749)), (0x2C6F, 0x2C6F, Delta 0 (-10783)), (0x2C70, 0x2C70, Delta 0 (-10782)),
      (0x2C72, 0x2C73, UpperLower), (0x2C75, 0x2C76, UpperLower), (0x2C7E, 0x2C7F, Delta 0 (-10815)), (0x2C80, 0x2CE3, UpperLower),
      (0x2CEB, 0x2CEE, UpperLower), (0x2CF2, 0x2CF3, UpperLower), (0x2D00, 0x2D25, Delta (-7264) 0),
      (0x2D27, 0x2D27, Delta (-7264) 0), (0x2D2D, 0x2D2D, Delta (-7264) 0), (0xA640, 0xA66D, UpperLower),
      (0xA680, 0xA69B, UpperLower), (0xA722, 0xA72F, UpperLower), (0xA732, 0xA76F, UpperLower), (0xA779, 0xA77C, UpperLower),
      (0xA77D, 0xA77D, Delta 0 (-35332)), (0xA77E, 0xA787, UpperLower), (0xA78B, 0xA78C, UpperLower),
      (0xA78D, 0xA78D, Delta 0 (-42280)), (0xA790, 0xA793, UpperLower), (0xA794, 0xA794, Delta 48 0), (0xA796, 0xA7A9, UpperLower),
      (0xA7AA, 0xA7AA, Delta 0 (-42308)), (0xA7AB, 0xA7AB, Delta 0 (-42319)), (0xA7AC, 0xA7AC, Delta 0 (-42315)),
      (0xA7AD, 0xA7AD, Delta 0 (-42305)), (0xA7AE, 0xA7AE, Delta 0 (-42308)), (0xA7B0, 0xA7B0, Delta 0 (-42258)),
      (0xA7B1, 0xA7B1, Delta 0 (-42282)), (0xA7B2, 0xA7B2, Delta 0 (-42261)), (0xA7B3, 0xA7B3, Delta 0 928),
      (0xA7B4, 0xA7C3, UpperLower), (0xA7C4, 0xA7C4, Delta 0 (-48)), (0xA7C5, 0xA7C5, Delta 0 (-42307)),
      (0xA7C6, 0xA7C6, Delta 0 (-35384)), (0xA7C7, 0xA7CA, UpperLower), (0xA7D0, 0xA7D1, UpperLower), (0xA7D6, 0xA7D9, UpperLower),
      (0xA7F5, 0xA7F6, UpperLower), (0xAB53, 0xAB53, Delta (-928) 0), (0xAB70, 0xABBF, Delta (-38864) 0),
      (0xFF21, 0xFF3A, Delta 0 32), (0xFF41, 0xFF5A, Delta (-32) 0), (0x10400, 0x10427, Delta 0 40),
      (0x10428, 0x1044F, Delta (-40) 0), (0x104B0, 0x104D3, Delta 0 40), (0x104D8, 0x104FB, Delta (-40) 0),
      (0x10570, 0x1057A, Delta 0 39), (0x1057C, 0x1058A, Delta 0 39), (0x1058C, 0x10592, Delta 0 39),
      (0x10594, 0x10595, Delta 0 39), (0x10597, 0x105A1, Delta (-39) 0), (0x105A3, 0x105B1, Delta (-39) 0),
      (0x105B3, 0x105B9, Delta (-39) 0), (0x105BB, 0x105BC, Delta (-39) 0), (0x10C80, 0x10CB2, Delta 0 64),
      (0x10CC0, 0x10CF2, Delta (-64) 0), (0x118A0, 0x118BF, Delta 0 32), (0x118C0, 0x118DF, Delta (-32) 0),
      (0x16E40, 0x16E5F, Delta 0 32), (0x16E60, 0x16E7F, Delta (-32) 0), (0x1E900, 0x1E921, Delta 0 34),
      (0x1E922, 0x1E943, Delta (-34) 0)]"

definition upper_rune :: "nat \<Rightarrow> nat" where
  "upper_rune r =
     (if r < 0x80 then if 97 \<le> r \<and> r \<le> 122 then r - 32 else r
      else (case find (\<lambda>(lo, hi, d). lo \<le> r \<and> r \<le> hi) CaseRanges of
              None \<Rightarrow> r
            | Some (lo, hi, Delta u l) \<Rightarrow> nat (int r + u)
            | Some (lo, hi, UpperLower) \<Rightarrow> lo + 2 * ((r - lo) div 2)))"

definition lower_rune :: "nat \<Rightarrow> nat" where
  "lower_rune r =
     (if r < 0x80 then if 65 \<le> r \<and> r \<le> 90 then r + 32 else r
      else (case find (\<lambda>(lo, hi, d). lo \<le> r \<and> r \<le> hi) CaseRanges of
              None \<Rightarrow> r
            | Some (lo, hi, Delta u l) \<Rightarrow> nat (int r + l)
            | Some (lo, hi, UpperLower) \<Rightarrow> lo + 2 * ((r - lo) div 2) + 1))"

text \<open>
  A representative of the runes that \<^verbatim>\<open>unicode.SimpleFold\<close> links: those with the same upper case, and the
  two letters I with and without dot, which it links to nothing.
\<close>

definition fold_rune :: "nat \<Rightarrow> nat" where
  "fold_rune r = (if r = 0x130 \<or> r = 0x131 then r else lower_rune (upper_rune r))"

section \<open>The package strings\<close>

definition ToUpper :: "bytes \<Rightarrow> bytes" where
  "ToUpper s = concat (map (\<lambda>r. encode_rune (upper_rune r)) (runes s))"

definition ToLower :: "bytes \<Rightarrow> bytes" where
  "ToLower s = concat (map (\<lambda>r. encode_rune (lower_rune r)) (runes s))"

definition EqualFold :: "bytes \<Rightarrow> bytes \<Rightarrow> bool" where
  "EqualFold s t \<longleftrightarrow> map fold_rune (runes s) = map fold_rune (runes t)"

text \<open>The encodings of the runes that \<^verbatim>\<open>unicode.IsSpace\<close> accepts.\<close>

definition space_encodings :: "bytes list" where
  "space_encodings =
     map encode_rune ([9..<14] @ [0x20, 0x85, 0xA0, 0x1680] @ [0x2000..<0x200B] @ [0x2028, 0x2029, 0x202F, 0x205F, 0x3000])"

text \<open>
  \<open>strip es s\<close> takes away the strings of \<open>es\<close> that \<open>s\<close> begins with. An encoding is a prefix or suffix of a
  string just when the decoder, from that side, reads its rune there.
\<close>

function strip :: "bytes list \<Rightarrow> bytes \<Rightarrow> bytes" where
  "strip es s =
     (case find (\<lambda>e. e \<noteq> [] \<and> take (length e) s = e) es of
        None \<Rightarrow> s
      | Some e \<Rightarrow> strip es (drop (length e) s))"
  by pat_completeness auto
termination
proof (relation "measure (length \<circ> snd)")
  fix es :: "bytes list" and s e :: bytes
  assume "find (\<lambda>e. e \<noteq> [] \<and> take (length e) s = e) es = Some e"
  then have "e \<noteq> [] \<and> take (length e) s = e" by (auto simp: find_Some_iff)
  then have "s \<noteq> []" "e \<noteq> []" by auto
  then show "((es, drop (length e) s), (es, s)) \<in> measure (length \<circ> snd)" by simp
qed simp

declare strip.simps [simp del]

definition TrimSpace :: "bytes \<Rightarrow> bytes" where
  "TrimSpace s = rev (strip (map rev space_encodings) (rev (strip space_encodings s)))"

section \<open>Strings of ASCII characters\<close>

definition upper_byte :: "u8 \<Rightarrow> u8" where
  "upper_byte b = (if 97 \<le> b \<and> b \<le> 122 then b - 32 else b)"

definition lower_byte :: "u8 \<Rightarrow> u8" where
  "lower_byte b = (if 65 \<le> b \<and> b \<le> 90 then b + 32 else b)"

definition ascii :: "bytes \<Rightarrow> bool" where
  "ascii s \<longleftrightarrow> list_all (\<lambda>b. b < 0x80) s"

lemma ascii_simps [simp]: "ascii []" "ascii (b # s) \<longleftrightarrow> b < 0x80 \<and> ascii s" "ascii (s @ t) \<longleftrightarrow> ascii s \<and> ascii t"
  by (simp_all add: ascii_def)

lemma runes_ascii: "ascii s \<Longrightarrow> runes s = map unat s"
  by (induction s) (simp_all add: decode_rune_def)

lemma byte_bound: "b < 0x80 \<Longrightarrow> unat (b :: u8) < 0x80"
  by (simp add: word_less_nat_alt)

lemma upper_unat: "b < 0x80 \<Longrightarrow> upper_rune (unat (b :: u8)) = unat (upper_byte b)"
  by (simp add: upper_rune_def upper_byte_def word_less_nat_alt word_le_nat_alt unat_sub)

lemma lower_unat: "b < 0x80 \<Longrightarrow> lower_rune (unat (b :: u8)) = unat (lower_byte b)"
  by (simp add: lower_rune_def lower_byte_def word_less_nat_alt word_le_nat_alt unat_word_ariths)

lemma upper_bound: "b < 0x80 \<Longrightarrow> upper_byte b < 0x80"
  by (auto simp: upper_byte_def word_less_nat_alt word_le_nat_alt unat_sub)

lemma lower_bound: "b < 0x80 \<Longrightarrow> lower_byte b < 0x80"
  by (simp add: lower_byte_def word_less_nat_alt word_le_nat_alt unat_word_ariths)

lemma lower_upper: "lower_byte (upper_byte b) = lower_byte b"
  by (auto simp: lower_byte_def upper_byte_def word_less_nat_alt word_le_nat_alt unat_sub)

lemma encode_unat: "b < 0x80 \<Longrightarrow> encode_rune (unat b) = [b]"
  by (simp add: encode_rune_def byte_bound)

lemma encode_map: "ascii s \<Longrightarrow> (\<And>b. b < 0x80 \<Longrightarrow> f (unat b) = unat (g b) \<and> g b < 0x80) \<Longrightarrow> concat (map (\<lambda>r. encode_rune (f r)) (runes s)) = map g s"
  by (simp add: runes_ascii) (induction s; simp add: encode_unat)

lemma ToUpper_ascii: "ascii s \<Longrightarrow> ToUpper s = map upper_byte s"
  unfolding ToUpper_def by (rule encode_map) (simp_all add: upper_unat upper_bound)

lemma ToLower_ascii: "ascii s \<Longrightarrow> ToLower s = map lower_byte s"
  unfolding ToLower_def by (rule encode_map) (simp_all add: lower_unat lower_bound)

lemma fold_unat: "b < 0x80 \<Longrightarrow> fold_rune (unat (b :: u8)) = unat (lower_byte b)"
  using byte_bound [of b] by (simp add: fold_rune_def upper_unat lower_unat upper_bound lower_upper)

lemma map_fold: "ascii s \<Longrightarrow> map fold_rune (map unat s) = map unat (map lower_byte s)"
  by (induction s) (simp_all add: fold_unat)

lemma EqualFold_ascii:
  assumes "ascii s" "ascii t"
  shows "EqualFold s t \<longleftrightarrow> map lower_byte s = map lower_byte t"
proof -
  have "inj (unat :: u8 \<Rightarrow> nat)" by (rule injI) (simp add: word_unat_eq_iff)
  then have "map unat (map lower_byte s) = map unat (map lower_byte t) \<longleftrightarrow> map lower_byte s = map lower_byte t"
    by (rule inj_map_eq_map)
  then show ?thesis
    by (simp only: EqualFold_def runes_ascii assms map_fold)
qed

lemma valid_ascii: "ascii s \<Longrightarrow> valid_utf8 s"
  using encode_map [of s id id] by (simp add: valid_utf8_def ToValidUTF8_def)

lemma EqualFold_refl [simp]: "EqualFold s s"
  by (simp add: EqualFold_def)

lemma EqualFold_Nil [simp]: "EqualFold [] s \<longleftrightarrow> s = []" "EqualFold s [] \<longleftrightarrow> s = []"
  by (cases s; simp add: EqualFold_def split: prod.split)+

text \<open>The equations for evaluation read ASCII strings byte by byte.\<close>

lemma ToUpper_code [code]: "ToUpper s = (if ascii s then map upper_byte s else concat (map (\<lambda>r. encode_rune (upper_rune r)) (runes s)))"
  using ToUpper_ascii [of s] by (simp add: ToUpper_def)

lemma ToLower_code [code]: "ToLower s = (if ascii s then map lower_byte s else concat (map (\<lambda>r. encode_rune (lower_rune r)) (runes s)))"
  using ToLower_ascii [of s] by (simp add: ToLower_def)

lemma EqualFold_code [code]:
  "EqualFold s t \<longleftrightarrow>
     (if ascii s \<and> ascii t then map lower_byte s = map lower_byte t else map fold_rune (runes s) = map fold_rune (runes t))"
  using EqualFold_ascii [of s t] by (simp add: EqualFold_def)

lemma space_encodings_code [code]:
  "space_encodings =
     [[9], [10], [11], [12], [13], [32], [0xC2, 0x85], [0xC2, 0xA0], [0xE1, 0x9A, 0x80], [0xE2, 0x80, 0x80], [0xE2, 0x80, 0x81],
      [0xE2, 0x80, 0x82], [0xE2, 0x80, 0x83], [0xE2, 0x80, 0x84], [0xE2, 0x80, 0x85], [0xE2, 0x80, 0x86], [0xE2, 0x80, 0x87],
      [0xE2, 0x80, 0x88], [0xE2, 0x80, 0x89], [0xE2, 0x80, 0x8A], [0xE2, 0x80, 0xA8], [0xE2, 0x80, 0xA9], [0xE2, 0x80, 0xAF],
      [0xE2, 0x81, 0x9F], [0xE3, 0x80, 0x80]]"
  by (simp add: space_encodings_def encode_rune_def upt_conv_Cons)

section \<open>What trimming keeps\<close>

lemma strip_set: "set (strip es s) \<subseteq> set s"
proof (induction es s rule: strip.induct)
  case (1 es s)
  show ?case
  proof (cases "find (\<lambda>e. e \<noteq> [] \<and> take (length e) s = e) es")
    case (Some e)
    with 1 set_drop_subset show ?thesis by (fastforce simp: strip.simps [of es s])
  qed (simp add: strip.simps [of es s])
qed

lemma strip_keeps: "x \<in> set s \<Longrightarrow> \<forall>e \<in> set es. x \<notin> set e \<Longrightarrow> x \<in> set (strip es s)"
proof (induction es s rule: strip.induct)
  case (1 es s)
  show ?case
  proof (cases "find (\<lambda>e. e \<noteq> [] \<and> take (length e) s = e) es")
    case (Some e)
    then have "take (length e) s = e" "e \<in> set es" by (auto simp: find_Some_iff)
    with "1.prems" have "x \<in> set (drop (length e) s)" by (metis Un_iff append_take_drop_id set_append)
    with Some 1 show ?thesis by (simp add: strip.simps [of es s])
  qed (use "1.prems" in \<open>simp add: strip.simps [of es s]\<close>)
qed

lemma TrimSpace_set: "set (TrimSpace s) \<subseteq> set s"
  using strip_set [of "map rev space_encodings" "rev (strip space_encodings s)"] strip_set [of space_encodings s]
  by (simp add: TrimSpace_def)

lemma TrimSpace_nonempty:
  assumes "x \<in> set s" "\<forall>e \<in> set space_encodings. x \<notin> set e"
  shows "TrimSpace s \<noteq> []"
proof -
  have "x \<in> set (rev (strip space_encodings s))" using strip_keeps [OF assms] by simp
  moreover have "\<forall>e \<in> set (map rev space_encodings). x \<notin> set e" using assms(2) by simp
  ultimately have "x \<in> set (strip (map rev space_encodings) (rev (strip space_encodings s)))" by (rule strip_keeps)
  then show ?thesis by (auto simp: TrimSpace_def)
qed

text \<open>Trimming twice is trimming once.\<close>

lemma strip_fixed: "find (\<lambda>e. e \<noteq> [] \<and> take (length e) s = e) es = None \<Longrightarrow> strip es s = s"
  by (simp add: strip.simps)

lemma strip_stops: "find (\<lambda>e. e \<noteq> [] \<and> take (length e) (strip es s) = e) es = None"
proof (induction es s rule: strip.induct)
  case (1 es s)
  show ?case
  proof (cases "find (\<lambda>e. e \<noteq> [] \<and> take (length e) s = e) es")
    case None
    then show ?thesis by (simp add: strip_fixed)
  next
    case (Some e)
    with 1 show ?thesis by (simp add: strip.simps [of es s])
  qed
qed

lemma strip_drop: "\<exists>n. strip es s = drop n s"
proof (induction es s rule: strip.induct)
  case (1 es s)
  show ?case
  proof (cases "find (\<lambda>e. e \<noteq> [] \<and> take (length e) s = e) es")
    case None
    then show ?thesis by (intro exI [of _ 0]) (simp add: strip_fixed)
  next
    case (Some e)
    with 1 obtain n where "strip es (drop (length e) s) = drop n (drop (length e) s)" by blast
    with Some show ?thesis by (auto simp: strip.simps [of es s])
  qed
qed

lemma TrimSpace_idem: "TrimSpace (TrimSpace s) = TrimSpace s"
proof -
  define u where "u = strip space_encodings s"
  define t where "t = strip (map rev space_encodings) (rev u)"
  have t: "TrimSpace s = rev t" by (simp add: TrimSpace_def t_def u_def)
  obtain n where "t = drop n (rev u)" using strip_drop t_def by blast
  then have prefix: "rev t = take (length u - n) u" by (simp add: rev_drop)
  have pre: "take (length e) u = e" if e: "take (length e) (rev t) = e" for e
  proof -
    have "length e \<le> length (rev t)" using arg_cong [OF e, of length] by simp
    also have "\<dots> \<le> length u - n" by (simp add: prefix)
    finally show ?thesis using e by (simp add: prefix take_take min_def)
  qed
  have "strip space_encodings (rev t) = rev t"
    using strip_stops [of space_encodings s] pre by (intro strip_fixed) (auto simp: find_None_iff u_def)
  moreover have "strip (map rev space_encodings) t = t"
    using strip_stops [of "map rev space_encodings" "rev u"] by (intro strip_fixed) (simp add: t_def)
  ultimately show ?thesis by (simp add: t) (simp add: TrimSpace_def)
qed

text \<open>The letter long s folds to S, so a word with it may be a keyword.\<close>

lemma long_s_folds: "EqualFold [0xC5, 0xBF] [0x53]"
  by (simp add: EqualFold_def decode_rune_def lead_info_def continuation_def fold_rune_def upper_rune_def lower_rune_def CaseRanges_def)

end
