(* ===== verification/Go_Values.thy ===== *)
theory Go_Values
  imports Unicode
begin

text \<open>
  The values a row can hold and what the table and SQL layers use of the Go language and its
  standard library on them: 64-bit integers, IEEE 754 double precision numbers as their bit
  patterns, strings as byte sequences, byte slices, times, and \<^verbatim>\<open>fmt.Sprint\<close>. A nil byte slice
  and an empty one are different values, as they print differently under \<^verbatim>\<open>%#v\<close>.
\<close>

section \<open>Strings\<close>

fun separate :: "'a \<Rightarrow> 'a list \<Rightarrow> 'a list" where
  "separate sep [] = []"
| "separate sep [x] = [x]"
| "separate sep (x # y # xs) = x # sep # separate sep (y # xs)"

definition str :: "string \<Rightarrow> bytes" where
  "str cs = map of_char cs"

section \<open>Decimal numbers\<close>

fun dec_nat :: "nat \<Rightarrow> bytes" where
  "dec_nat n = (if n < 10 then [word_of_nat (48 + n)] else dec_nat (n div 10) @ [word_of_nat (48 + n mod 10)])"

declare dec_nat.simps [simp del]

definition dec_int :: "int \<Rightarrow> bytes" where
  "dec_int i = (if i < 0 then 45 # dec_nat (nat (- i)) else dec_nat (nat i))"

definition pad_nat :: "nat \<Rightarrow> nat \<Rightarrow> bytes" where
  "pad_nat k n = (let ds = dec_nat n in replicate (k - length ds) 48 @ ds)"

section \<open>Double precision numbers\<close>

text \<open>
  Every finite number is a multiple of \<open>2 ^ (-1074)\<close>; \<open>fp_int\<close> is that multiple, with its sign.
  The infinities compare as a number above all finite ones.
\<close>

definition fp_neg :: "u64 \<Rightarrow> bool" where
  "fp_neg w = bit w 63"

definition fp_exp :: "u64 \<Rightarrow> nat" where
  "fp_exp w = unat (drop_bit 52 w) mod 2048"

definition fp_frac :: "u64 \<Rightarrow> nat" where
  "fp_frac w = unat (take_bit 52 w)"

definition fp_isnan :: "u64 \<Rightarrow> bool" where
  "fp_isnan w \<longleftrightarrow> fp_exp w = 2047 \<and> fp_frac w \<noteq> 0"

definition fp_isinf :: "u64 \<Rightarrow> bool" where
  "fp_isinf w \<longleftrightarrow> fp_exp w = 2047 \<and> fp_frac w = 0"

definition fp_mag :: "u64 \<Rightarrow> nat" where
  "fp_mag w = (if fp_exp w = 0 then fp_frac w else (2 ^ 52 + fp_frac w) * 2 ^ (fp_exp w - 1))"

definition fp_int :: "u64 \<Rightarrow> int" where
  "fp_int w = (if fp_neg w then - int (fp_mag w) else int (fp_mag w))"

definition fp_nan :: u64 where
  "fp_nan = 0x7FF8000000000001"

definition fp_pack :: "bool \<Rightarrow> nat \<Rightarrow> nat \<Rightarrow> u64" where
  "fp_pack s e f = word_of_nat ((if s then 2 ^ 63 else 0) + e * 2 ^ 52 + f)"

definition round_half_even :: "nat \<Rightarrow> nat \<Rightarrow> nat" where
  "round_half_even n m =
     (let q = n div m; r = n mod m in if 2 * r > m \<or> 2 * r = m \<and> odd q then q + 1 else q)"

fun bit_length :: "nat \<Rightarrow> nat" where
  "bit_length n = (if n = 0 then 0 else Suc (bit_length (n div 2)))"

declare bit_length.simps [simp del]

text \<open>The number nearest to \<open>n / d * 2 ^ (-1074)\<close>, ties to even.\<close>

definition fp_round :: "bool \<Rightarrow> nat \<Rightarrow> nat \<Rightarrow> u64" where
  "fp_round s n d =
     (let sh = bit_length (n div d) - 53;
          m = round_half_even n (d * 2 ^ sh);
          (m, sh) = (if m = 2 ^ 53 then (2 ^ 52, sh + 1) else (m, sh))
      in if m < 2 ^ 52 then fp_pack s 0 m
         else if sh + 1 \<ge> 2047 then fp_pack s 2047 0
         else fp_pack s (sh + 1) (m - 2 ^ 52))"

definition fp_of_int :: "u64 \<Rightarrow> u64" where
  "fp_of_int i = fp_round (sint i < 0) (nat \<bar>sint i\<bar> * 2 ^ 1074) 1"

definition fp_less :: "u64 \<Rightarrow> u64 \<Rightarrow> bool" where
  "fp_less a b \<longleftrightarrow> \<not> fp_isnan a \<and> \<not> fp_isnan b \<and> fp_int a < fp_int b"

definition fp_add :: "u64 \<Rightarrow> u64 \<Rightarrow> u64" where
  "fp_add a b =
     (if fp_isnan a \<or> fp_isnan b then fp_nan
      else if fp_isinf a then (if fp_isinf b \<and> fp_neg a \<noteq> fp_neg b then fp_nan else a)
      else if fp_isinf b then b
      else (let s = fp_int a + fp_int b
            in if s = 0 then fp_pack (fp_neg a \<and> fp_neg b) 0 0 else fp_round (s < 0) (nat \<bar>s\<bar>) 1))"

definition fp_div :: "u64 \<Rightarrow> u64 \<Rightarrow> u64" where
  "fp_div a b =
     (let s = (fp_neg a \<noteq> fp_neg b)
      in if fp_isnan a \<or> fp_isnan b \<or> fp_isinf a \<and> fp_isinf b \<or> fp_mag a = 0 \<and> fp_mag b = 0 then fp_nan
         else if fp_isinf a \<or> fp_mag b = 0 then fp_pack s 2047 0
         else if fp_isinf b \<or> fp_mag a = 0 then fp_pack s 0 0
         else fp_round s (fp_mag a * 2 ^ 1074) (fp_mag b))"

text \<open>The conversion to \<^verbatim>\<open>int\<close>, towards zero; out of range it is what amd64 computes.\<close>

definition fp_to_int :: "u64 \<Rightarrow> u64" where
  "fp_to_int w =
     (let q = int (fp_mag w div 2 ^ 1074); i = (if fp_neg w then - q else q)
      in if fp_exp w = 2047 \<or> i < - (2 ^ 63) \<or> i \<ge> 2 ^ 63 then 0x8000000000000000 else word_of_int i)"

text \<open>
  \<^verbatim>\<open>strconv.FormatFloat(f, 'g', -1, 64)\<close>: the shortest decimal that reads back as the same
  number. \<open>fp_digits n dp\<close> tries \<open>n\<close> digits for a number below \<open>10 ^ dp\<close>.
\<close>

definition fp_scaled :: "nat \<Rightarrow> int \<Rightarrow> nat \<times> nat" where
  "fp_scaled m e = (if e \<ge> 0 then (m * 10 ^ nat e * 2 ^ 1074, 1) else (m * 2 ^ 1074, 10 ^ nat (- e)))"

definition fp_reads :: "u64 \<Rightarrow> nat \<Rightarrow> int \<Rightarrow> bool" where
  "fp_reads w m e = (case fp_scaled m e of (n, d) \<Rightarrow> fp_round (fp_neg w) n d = w)"

definition fp_digits :: "u64 \<Rightarrow> int \<Rightarrow> nat \<Rightarrow> nat option" where
  "fp_digits w dp n =
     (let e = dp - int n;
          (num, den) = (if e \<ge> 0 then (fp_mag w, 10 ^ nat e * 2 ^ 1074) else (fp_mag w * 10 ^ nat (- e), 2 ^ 1074));
          lo = num div den;
          near = round_half_even num den;
          far = (if near = lo then lo + 1 else lo)
      in if fp_reads w near e then Some near else if fp_reads w far e then Some far else None)"

fun first_some :: "('a \<Rightarrow> 'b option) \<Rightarrow> 'a list \<Rightarrow> ('a \<times> 'b) option" where
  "first_some f [] = None"
| "first_some f (x # xs) = (case f x of Some y \<Rightarrow> Some (x, y) | None \<Rightarrow> first_some f xs)"

text \<open>The decimal exponent: the least \<open>dp\<close> with the number below \<open>10 ^ dp\<close>.\<close>

definition fp_dp :: "u64 \<Rightarrow> int" where
  "fp_dp w =
     (if fp_mag w \<ge> 2 ^ 1074 then int (length (dec_nat (fp_mag w div 2 ^ 1074)))
      else int (length (dec_nat (fp_mag w * 10 ^ 400 div 2 ^ 1074))) - 400)"

definition drop_zeros :: "bytes \<Rightarrow> bytes" where
  "drop_zeros ds = rev (dropWhile (\<lambda>b. b = 48) (rev ds))"

definition FormatFloat :: "u64 \<Rightarrow> bytes" where
  "FormatFloat w =
     (if fp_isnan w then str ''NaN''
      else if fp_isinf w then (if fp_neg w then str ''-Inf'' else str ''+Inf'')
      else
        (let sign = (if fp_neg w then [45] else []);
             dp0 = fp_dp w;
             (n, m) = (if fp_mag w = 0 then (0, 0)
                       else (case first_some (fp_digits w dp0) [1..<18] of Some p \<Rightarrow> p | None \<Rightarrow> (17, 0)));
             ds = (if n = 0 then [] else drop_zeros (dec_nat m));
             dp = (if n = 0 then 0 else dp0 + int (length (dec_nat m)) - int n);
             ex = dp - 1
         in if n \<noteq> 0 \<and> (ex < - 4 \<or> ex \<ge> 6)
            then sign @ take 1 ds @ (if length ds > 1 then 46 # drop 1 ds else []) @
                 [101, if ex < 0 then 45 else 43] @ pad_nat 2 (nat \<bar>ex\<bar>)
            else if dp \<le> 0
            then sign @ [48] @ (if ds = [] then [] else 46 # replicate (nat (- dp)) 48 @ ds)
            else if int (length ds) \<le> dp then sign @ ds @ replicate (nat dp - length ds) 48
            else sign @ take (nat dp) ds @ 46 # drop (nat dp) ds))"

section \<open>Times\<close>

text \<open>
  A time is its instant, in nanoseconds since 1970, and its location as an offset in seconds and a
  name, which is empty for an offset read from a text. \<^verbatim>\<open>UnixNano\<close> computes in 64 bits and wraps around outside the years 1678 to 2262.
\<close>

record go_time =
  t_ns :: int
  t_offset :: int
  t_zone :: bytes

definition UTC :: "int \<Rightarrow> go_time" where
  "UTC ns = \<lparr>t_ns = ns, t_offset = 0, t_zone = str ''UTC''\<rparr>"

definition UnixNano :: "go_time \<Rightarrow> u64" where
  "UnixNano t = word_of_int (t_ns t)"

text \<open>\<^verbatim>\<open>time.Time{}\<close>, the first of January of the year 1.\<close>

definition zero_time :: go_time where
  "zero_time = UTC (- 62135596800 * 1000000000)"

text \<open>The date of a day counted from 1970, in the Gregorian calendar.\<close>

definition civil :: "int \<Rightarrow> int \<times> nat \<times> nat" where
  "civil z =
     (let z1 = z + 719468;
          era = z1 div 146097;
          doe = z1 mod 146097;
          yoe = (doe - doe div 1460 + doe div 36524 - doe div 146096) div 365;
          doy = doe - (365 * yoe + yoe div 4 - yoe div 100);
          mp = (5 * doy + 2) div 153;
          d = doy - (153 * mp + 2) div 5 + 1;
          m = (if mp < 10 then mp + 3 else mp - 9)
      in (yoe + era * 400 + (if m \<le> 2 then 1 else 0), nat m, nat d))"

definition pad_int :: "nat \<Rightarrow> int \<Rightarrow> bytes" where
  "pad_int k i = (if i < 0 then 45 # pad_nat k (nat (- i)) else pad_nat k (nat i))"

definition time_String :: "go_time \<Rightarrow> bytes" where
  "time_String t =
     (let s = t_ns t div 1000000000 + t_offset t;
          frac = nat (t_ns t mod 1000000000);
          (y, m, d) = civil (s div 86400);
          r = nat (s mod 86400);
          off = nat \<bar>t_offset t\<bar> div 60
      in pad_int 4 y @ [45] @ pad_nat 2 m @ [45] @ pad_nat 2 d @ [32] @
         pad_nat 2 (r div 3600) @ [58] @ pad_nat 2 (r div 60 mod 60) @ [58] @ pad_nat 2 (r mod 60) @
         (if frac = 0 then [] else 46 # drop_zeros (pad_nat 9 frac)) @
         [32, if t_offset t < 0 then 45 else 43] @ pad_nat 2 (off div 60) @ pad_nat 2 (off mod 60) @
         [32] @ (if t_zone t = [] then [if t_offset t < 0 then 45 else 43] @ pad_nat 2 (off div 60) @ pad_nat 2 (off mod 60)
                 else t_zone t))"

section \<open>Values\<close>

text \<open>
  What an \<^verbatim>\<open>any\<close> holds: the types of columns, and the placeholder \<^verbatim>\<open>parameterValue\<close> of a statement
  that is executed without its parameters.
\<close>

datatype val =
    GoNil
  | GoInt u64
  | GoString bytes
  | GoBool bool
  | GoFloat u64
  | GoBytes "bytes option"
  | GoTime go_time
  | GoParam nat

definition Sprint :: "val \<Rightarrow> bytes" where
  "Sprint v =
     (case v of
        GoNil \<Rightarrow> str ''<nil>''
      | GoInt i \<Rightarrow> dec_int (sint i)
      | GoString s \<Rightarrow> s
      | GoBool b \<Rightarrow> (if b then str ''true'' else str ''false'')
      | GoFloat f \<Rightarrow> FormatFloat f
      | GoBytes bs \<Rightarrow>
          [91] @ concat (separate [32] (map (\<lambda>b. dec_nat (unat b)) (case bs of None \<Rightarrow> [] | Some bs \<Rightarrow> bs))) @ [93]
      | GoTime t \<Rightarrow> time_String t
      | GoParam n \<Rightarrow> [123] @ dec_nat n @ [125])"

text \<open>
  \<^verbatim>\<open>fmt.Sprintf("%T:%#v", v, v)\<close> does not show the bits of a NaN, and of a time it shows the
  local clock and the name of the location only; it tells all other values apart. It is used as a
  key only, so the value, without what is not shown, stands for its text.
\<close>

definition indexValue :: "val \<Rightarrow> val" where
  "indexValue v =
     (case v of
        GoFloat f \<Rightarrow> if fp_isnan f then GoFloat fp_nan else v
      | GoTime t \<Rightarrow> GoTime (t\<lparr>t_ns := t_ns t + t_offset t * 1000000000, t_offset := 0\<rparr>)
      | _ \<Rightarrow> v)"

text \<open>A row is a map from column names to values; a missing name reads as nil.\<close>

type_synonym row = "(bytes \<times> val) list"

definition row_get :: "row \<Rightarrow> bytes \<Rightarrow> val" where
  "row_get r name = (case map_of r name of None \<Rightarrow> GoNil | Some v \<Rightarrow> v)"

end
