(* ===== verification/Table.thy ===== *)
theory Table
  imports Store Go_Values
begin

unbundle bit_operations_syntax

text \<open>
  Tables of typed rows on top of the store, \<^verbatim>\<open>kv/table.go\<close>: schemas and constraints, the row
  format, secondary indexes in memory, and the operations on rows. Where the source ranges over a
  map the order is an argument: \<open>ord\<close> gives the order in which a set of keys is visited.
\<close>

section \<open>Schemas\<close>

definition IntType :: u8 where "IntType = 1"
definition StringType :: u8 where "StringType = 2"
definition BoolType :: u8 where "BoolType = 3"
definition FloatType :: u8 where "FloatType = 4"
definition BytesType :: u8 where "BytesType = 5"
definition TimestampType :: u8 where "TimestampType = 6"

record Column =
  col_Name :: bytes
  col_Type :: u8

record Reference =
  ref_Table :: bytes
  ref_Column :: bytes

record ColumnConstraint =
  NotNull :: bool
  Unique :: bool
  References :: "Reference option"

record Schema =
  Columns :: "Column list"
  Constraints :: "(bytes \<times> ColumnConstraint) list"

definition constraint :: "Schema \<Rightarrow> bytes \<Rightarrow> ColumnConstraint" where
  "constraint sch name =
     (case map_of (Constraints sch) name of
        None \<Rightarrow> \<lparr>NotNull = False, Unique = False, References = None\<rparr>
      | Some c \<Rightarrow> c)"

fun validate_columns :: "Column list \<Rightarrow> bytes list \<Rightarrow> unit result" where
  "validate_columns [] seen = Inr ()"
| "validate_columns (c # cs) seen =
     (if col_Name c = [] \<or> col_Name c \<in> set seen
      then Inl (ErrMsg ''invalid or duplicate column %q'' [col_Name c])
      else if col_Type c < IntType \<or> col_Type c > TimestampType
      then Inl (ErrMsg ''invalid type for column %q'' [col_Name c])
      else validate_columns cs (col_Name c # seen))"

definition validate :: "Schema \<Rightarrow> unit result" where
  "validate sch = validate_columns (Columns sch) []"

fun indexOf_loop :: "nat \<Rightarrow> Column list \<Rightarrow> Column \<Rightarrow> nat" where
  "indexOf_loop i [] want = 0"
| "indexOf_loop i (c # cs) want = (if col_Name c = col_Name want then i else indexOf_loop (Suc i) cs want)"

definition indexOf :: "Column list \<Rightarrow> Column \<Rightarrow> nat" where
  "indexOf cs want = indexOf_loop 0 cs want"

section \<open>The row format\<close>

definition encode_value :: "Column \<Rightarrow> val \<Rightarrow> bytes result" where
  "encode_value c v =
     (if col_Type c = IntType then
        (case v of GoInt i \<Rightarrow> Inr (PutUint64 i) | _ \<Rightarrow> Inl (ErrMsg ''column %q expects int'' [col_Name c]))
      else if col_Type c = StringType then
        (case v of GoString s \<Rightarrow> Inr (PutUint32 (word_of_nat (length s)) @ s)
         | _ \<Rightarrow> Inl (ErrMsg ''column %q expects string'' [col_Name c]))
      else if col_Type c = BoolType then
        (case v of GoBool b \<Rightarrow> Inr [if b then 1 else 0] | _ \<Rightarrow> Inl (ErrMsg ''column %q expects bool'' [col_Name c]))
      else if col_Type c = FloatType then
        (case v of GoFloat f \<Rightarrow> Inr (PutUint64 f)
         | GoInt i \<Rightarrow> Inr (PutUint64 (fp_of_int i))
         | _ \<Rightarrow> Inl (ErrMsg ''column %q expects float'' [col_Name c]))
      else if col_Type c = BytesType then
        (case v of GoBytes bs \<Rightarrow>
           (let b = (case bs of None \<Rightarrow> [] | Some b \<Rightarrow> b) in Inr (PutUint32 (word_of_nat (length b)) @ b))
         | _ \<Rightarrow> Inl (ErrMsg ''column %q expects bytes'' [col_Name c]))
      else if col_Type c = TimestampType then
        (case v of GoTime t \<Rightarrow> Inr (PutUint64 (UnixNano t))
         | _ \<Rightarrow> Inl (ErrMsg ''column %q expects timestamp'' [col_Name c]))
      else Inr [])"

definition set_null :: "nat \<Rightarrow> bytes \<Rightarrow> bytes" where
  "set_null i b = b[i div 8 := b ! (i div 8) OR push_bit (i mod 8) 1]"

fun encode_columns :: "Schema \<Rightarrow> row \<Rightarrow> Column list \<Rightarrow> bytes \<Rightarrow> bytes result" where
  "encode_columns sch r [] b = Inr b"
| "encode_columns sch r (c # cs) b =
     (case map_of r (col_Name c) of
        None \<Rightarrow> Inl (ErrMsg ''missing column %q'' [col_Name c])
      | Some v \<Rightarrow>
          if v = GoNil then
            (if NotNull (constraint sch (col_Name c)) then Inl (ErrMsg ''column %q may not be NULL'' [col_Name c])
             else encode_columns sch r cs (set_null (indexOf (Columns sch) c) b))
          else
            (case encode_value c v of
               Inl err \<Rightarrow> Inl err
             | Inr e \<Rightarrow> encode_columns sch r cs (b @ e)))"

definition null_bytes :: "Schema \<Rightarrow> nat" where
  "null_bytes sch = (length (Columns sch) + 7) div 8"

definition encode :: "Schema \<Rightarrow> row \<Rightarrow> bytes result" where
  "encode sch r =
     (if length r \<noteq> length (Columns sch) then Inl (ErrMsg ''row has wrong number of columns'' [])
      else encode_columns sch r (Columns sch) (replicate (null_bytes sch) 0))"

definition decode_value :: "Column \<Rightarrow> bytes \<Rightarrow> nat \<Rightarrow> (val option \<times> nat) result" where
  "decode_value c d p =
     (if col_Type c = IntType then
        (if p + 8 > length d then Inl (ErrMsg ''column %q (int): need 8 bytes at offset %d, row has %d bytes'' [col_Name c, dec_nat p, dec_nat (length d)])
         else Inr (Some (GoInt (Uint64 (go_slice p (p + 8) d))), p + 8))
      else if col_Type c = StringType then
        (if p + 4 > length d then Inl (ErrMsg ''column %q (string): missing 4-byte length at offset %d, row has %d bytes''
                                  [col_Name c, dec_nat p, dec_nat (length d)])
         else (let n = unat (Uint32 (go_slice p (p + 4) d))
               in if p + 4 + n > length d
                  then Inl (ErrMsg ''column %q (string): length %d exceeds row data at offset %d (row has %d bytes)''
                              [col_Name c, dec_nat n, dec_nat (p + 4), dec_nat (length d)])
                  else Inr (Some (GoString (go_slice (p + 4) (p + 4 + n) d)), p + 4 + n)))
      else if col_Type c = BoolType then
        (if p \<ge> length d \<or> d ! p > 1
         then Inl (ErrMsg ''column %q (bool): expected one byte with value 0 or 1 at offset %d (row has %d bytes)''
                     [col_Name c, dec_nat p, dec_nat (length d)])
         else Inr (Some (GoBool (d ! p = 1)), p + 1))
      else if col_Type c = FloatType then
        (if p + 8 > length d then Inl (ErrMsg ''column %q (float): need 8 bytes'' [col_Name c])
         else Inr (Some (GoFloat (Uint64 (go_slice p (p + 8) d))), p + 8))
      else if col_Type c = BytesType then
        (if p + 4 > length d then Inl (ErrMsg ''column %q (bytes): missing length'' [col_Name c])
         else (let n = unat (Uint32 (go_slice p (p + 4) d))
               in if p + 4 + n > length d then Inl (ErrMsg ''column %q (bytes): invalid length'' [col_Name c])
                  else Inr (Some (GoBytes (if n = 0 then None else Some (go_slice (p + 4) (p + 4 + n) d))), p + 4 + n)))
      else if col_Type c = TimestampType then
        (if p + 8 > length d then Inl (ErrMsg ''column %q (timestamp): need 8 bytes'' [col_Name c])
         else Inr (Some (GoTime (UTC (sint (Uint64 (go_slice p (p + 8) d))))), p + 8))
      else Inr (None, p))"

definition is_null :: "nat \<Rightarrow> bytes \<Rightarrow> bool" where
  "is_null i nulls \<longleftrightarrow> nulls ! (i div 8) AND push_bit (i mod 8) 1 \<noteq> 0"

fun decode_columns :: "Schema \<Rightarrow> bytes \<Rightarrow> Column list \<Rightarrow> nat \<Rightarrow> row \<Rightarrow> (nat \<times> row) result" where
  "decode_columns sch d [] p r = Inr (p, r)"
| "decode_columns sch d (c # cs) p r =
     (if is_null (indexOf (Columns sch) c) (take (null_bytes sch) d)
      then decode_columns sch d cs p (AList.update (col_Name c) GoNil r)
      else
        (case decode_value c d p of
           Inl err \<Rightarrow> Inl err
         | Inr (None, q) \<Rightarrow> decode_columns sch d cs q r
         | Inr (Some v, q) \<Rightarrow> decode_columns sch d cs q (AList.update (col_Name c) v r)))"

definition decode :: "Schema \<Rightarrow> bytes \<Rightarrow> row result" where
  "decode sch d =
     (if length d < null_bytes sch then Inl (ErrMsg ''row missing NULL bitmap'' [])
      else
        (case decode_columns sch d (Columns sch) (null_bytes sch) [] of
           Inl err \<Rightarrow> Inl err
         | Inr (p, r) \<Rightarrow>
             if p \<noteq> length d
             then Inl (ErrMsg ''trailing row data: schema consumed %d of %d bytes'' [dec_nat p, dec_nat (length d)])
             else Inr r))"

section \<open>Tables\<close>

text \<open>
  A secondary index maps the rendering of a column value to the primary keys of its rows. Only
  the columns after the first have one.
\<close>

type_synonym secondary_index = "(val \<times> bytes list) list"

record Table =
  store :: Store
  schema :: Schema
  secondary :: "(bytes \<times> secondary_index) list"

type_synonym 'a table_op = "Table \<Rightarrow> (Table, 'a) outcome"
type_synonym key_order = "bytes list \<Rightarrow> bytes list"

text \<open>Every table has at least one column; the first one is the key.\<close>

definition key_name :: "Schema \<Rightarrow> bytes" where
  "key_name sch = (case Columns sch of [] \<Rightarrow> [] | c # cs \<Rightarrow> col_Name c)"

definition row_key :: "Schema \<Rightarrow> row \<Rightarrow> bytes" where
  "row_key sch r = Sprint (row_get r (key_name sch))"

definition on_store :: "(Store \<Rightarrow> (Store, 'a) outcome) \<Rightarrow> 'a table_op" where
  "on_store f t = (case f (store t) of (s, r) \<Rightarrow> (t\<lparr>store := s\<rparr>, r))"

section \<open>Secondary indexes\<close>

definition column_index :: "bytes \<Rightarrow> (bytes \<times> secondary_index) list \<Rightarrow> secondary_index" where
  "column_index name sec = (case map_of sec name of None \<Rightarrow> [] | Some m \<Rightarrow> m)"

definition add_key :: "bytes \<Rightarrow> val \<Rightarrow> secondary_index \<Rightarrow> secondary_index" where
  "add_key key v m = AList.update v (List.insert key (case map_of m v of None \<Rightarrow> [] | Some ks \<Rightarrow> ks)) m"

definition remove_key :: "bytes \<Rightarrow> val \<Rightarrow> secondary_index \<Rightarrow> secondary_index" where
  "remove_key key v m =
     (case map_of m v of
        None \<Rightarrow> m
      | Some ks \<Rightarrow>
          let ks' = removeAll key ks in if ks' = [] then AList.delete v m else AList.update v ks' m)"

fun index_columns :: "(val \<Rightarrow> secondary_index \<Rightarrow> secondary_index) \<Rightarrow> Column list \<Rightarrow> row \<Rightarrow>
    (bytes \<times> secondary_index) list \<Rightarrow> (bytes \<times> secondary_index) list" where
  "index_columns f [] r sec = sec"
| "index_columns f (c # cs) r sec =
     index_columns f cs r
       (AList.update (col_Name c) (f (indexValue (row_get r (col_Name c))) (column_index (col_Name c) sec)) sec)"

definition indexRow :: "bytes \<Rightarrow> row \<Rightarrow> Table \<Rightarrow> Table" where
  "indexRow key r t = t\<lparr>secondary := index_columns (add_key key) (tl (Columns (schema t))) r (secondary t)\<rparr>"

definition unindexRow :: "bytes \<Rightarrow> row \<Rightarrow> Table \<Rightarrow> Table" where
  "unindexRow key r t = t\<lparr>secondary := index_columns (remove_key key) (tl (Columns (schema t))) r (secondary t)\<rparr>"

definition HasIndex :: "bytes \<Rightarrow> Table \<Rightarrow> bool" where
  "HasIndex column t \<longleftrightarrow> map_of (secondary t) column \<noteq> None"

section \<open>Reading rows\<close>

fun decode_rows :: "Schema \<Rightarrow> bytes list \<Rightarrow> row list result" where
  "decode_rows sch [] = Inr []"
| "decode_rows sch (b # bs) =
     (case decode sch b of
        Inl err \<Rightarrow> Inl err
      | Inr r \<Rightarrow> (case decode_rows sch bs of Inl err \<Rightarrow> Inl err | Inr rs \<Rightarrow> Inr (r # rs)))"

text \<open>\<open>Scan\<close> walks the leaves of the store's index itself; the walk is that of \<^verbatim>\<open>btree.entries\<close>.\<close>

definition Scan :: "Table \<Rightarrow> row list result" where
  "Scan t =
     (case btree_entries (index (store t)) of
        None \<Rightarrow> Inl Panic
      | Some es \<Rightarrow> decode_rows (schema t) (map snd es))"

definition table_Get :: "bytes \<Rightarrow> Table \<Rightarrow> row option result" where
  "table_Get key t =
     (case store_Get key (store t) of
        Inl err \<Rightarrow> Inl err
      | Inr None \<Rightarrow> Inr None
      | Inr (Some b) \<Rightarrow> (case decode (schema t) b of Inl err \<Rightarrow> Inl err | Inr r \<Rightarrow> Inr (Some r)))"

definition table_GetAt :: "u64 \<Rightarrow> bytes \<Rightarrow> Table \<Rightarrow> row option result" where
  "table_GetAt snapshot key t =
     (case store_GetAt snapshot key (store t) of
        None \<Rightarrow> Inr None
      | Some b \<Rightarrow> (case decode (schema t) b of Inl err \<Rightarrow> Inl err | Inr r \<Rightarrow> Inr (Some r)))"

fun get_all :: "(bytes \<Rightarrow> row option result) \<Rightarrow> bytes list \<Rightarrow> row list result" where
  "get_all get [] = Inr []"
| "get_all get (key # keys) =
     (case get key of
        Inl err \<Rightarrow> Inl err
      | Inr found \<Rightarrow>
          (case get_all get keys of
             Inl err \<Rightarrow> Inl err
           | Inr rows \<Rightarrow> Inr (case found of None \<Rightarrow> rows | Some r \<Rightarrow> r # rows)))"

definition ScanAt :: "bytes list \<Rightarrow> u64 \<Rightarrow> Table \<Rightarrow> row list result" where
  "ScanAt ord snapshot t = get_all (\<lambda>key. table_GetAt snapshot key t) (KeysAt ord snapshot (store t))"

definition Find :: "key_order \<Rightarrow> bytes \<Rightarrow> val \<Rightarrow> Table \<Rightarrow> row list result" where
  "Find ord column v t =
     (case map_of (column_index column (secondary t)) (indexValue v) of
        None \<Rightarrow> Inr []
      | Some keys \<Rightarrow> get_all (\<lambda>key. table_Get key t) (ord keys))"

definition table_Snapshot :: "Table \<Rightarrow> Table \<times> u64" where
  "table_Snapshot t = (case BeginSnapshot (store t) of (s, n) \<Rightarrow> (t\<lparr>store := s\<rparr>, n))"

definition table_ReleaseSnapshot :: "u64 \<Rightarrow> Table \<Rightarrow> Table" where
  "table_ReleaseSnapshot snapshot t = t\<lparr>store := ReleaseSnapshot snapshot (store t)\<rparr>"

definition table_ChangedSince :: "u64 \<Rightarrow> bytes \<Rightarrow> Table \<Rightarrow> bool" where
  "table_ChangedSince snapshot key t = ChangedSince snapshot key (store t)"

section \<open>Opening a table\<close>

definition NewTable :: "Store \<Rightarrow> Schema \<Rightarrow> Table result" where
  "NewTable s sch =
     (case validate sch of
        Inl err \<Rightarrow> Inl err
      | Inr u \<Rightarrow>
          if Columns sch = [] then Inl (ErrMsg ''schema has no columns'' [])
          else
            (let t = \<lparr>store = s, schema = sch, secondary = map (\<lambda>c. (col_Name c, [])) (tl (Columns sch))\<rparr>
             in (case Scan t of
                   Inl err \<Rightarrow> Inl err
                 | Inr rows \<Rightarrow> Inr (fold (\<lambda>r. indexRow (row_key sch r) r) rows t))))"

definition OpenTable :: "range_order \<Rightarrow> disk \<Rightarrow> Schema \<Rightarrow> disk \<times> Table result" where
  "OpenTable rng d sch =
     (case store_Open rng d of
        (d', Inl err) \<Rightarrow> (d', Inl err)
      | (d', Inr s) \<Rightarrow>
          (case NewTable s sch of
             Inl err \<Rightarrow> (disk_of (fst (store_Close rng s)), Inl err)
           | Inr t \<Rightarrow> (d', Inr t)))"

definition table_Close :: "range_order \<Rightarrow> unit table_op" where
  "table_Close rng = on_store (store_Close rng)"

section \<open>Writing rows\<close>

fun unique_violated :: "Schema \<Rightarrow> bytes \<Rightarrow> row \<Rightarrow> row list \<Rightarrow> Column list \<Rightarrow> bytes option" where
  "unique_violated sch key r rows [] = None"
| "unique_violated sch key r rows (c # cs) =
     (if Unique (constraint sch (col_Name c)) \<and> row_get r (col_Name c) \<noteq> GoNil \<and>
         (\<exists>old \<in> set rows. row_key sch old \<noteq> key \<and>
            indexValue (row_get old (col_Name c)) = indexValue (row_get r (col_Name c)))
      then Some (col_Name c)
      else unique_violated sch key r rows cs)"

definition validateConstraints :: "bytes \<Rightarrow> row \<Rightarrow> Table \<Rightarrow> unit result" where
  "validateConstraints key r t =
     (case Scan t of
        Inl err \<Rightarrow> Inl err
      | Inr rows \<Rightarrow>
          (case unique_violated (schema t) key r rows (Columns (schema t)) of
             None \<Rightarrow> Inr ()
           | Some name \<Rightarrow> Inl (ErrMsg ''unique constraint failed: %s'' [name])))"

definition table_Insert :: "bytes \<Rightarrow> row \<Rightarrow> unit table_op" where
  "table_Insert key r t =
     (case encode (schema t) r of
        Inl err \<Rightarrow> (t, Inl err)
      | Inr b \<Rightarrow>
          (case validateConstraints key r t of
             Inl err \<Rightarrow> (t, Inl err)
           | Inr u \<Rightarrow>
               (case table_Get key t of
                  Inl err \<Rightarrow> (t, Inl err)
                | Inr found \<Rightarrow>
                    seqR (on_store (store_Put key b) t) (\<lambda>t u.
                      (indexRow key r (case found of None \<Rightarrow> t | Some old \<Rightarrow> unindexRow key old t), Inr ())))))"

definition table_Delete :: "bytes \<Rightarrow> unit table_op" where
  "table_Delete key t =
     (case table_Get key t of
        Inl err \<Rightarrow> (t, Inl err)
      | Inr None \<Rightarrow> (t, Inr ())
      | Inr (Some old) \<Rightarrow> seqR (on_store (store_Delete key) t) (\<lambda>t u. (unindexRow key old t, Inr ())))"

text \<open>The loops return how many rows they changed, also when they stop at an error.\<close>

fun update_rows :: "(row \<Rightarrow> bool) \<Rightarrow> row \<Rightarrow> row list \<Rightarrow> nat \<Rightarrow> Table \<Rightarrow> Table \<times> nat \<times> db_error option" where
  "update_rows p assigned [] n t = (t, n, None)"
| "update_rows p assigned (r # rs) n t =
     (if \<not> p r then update_rows p assigned rs n t
      else
        (let r' = fold (\<lambda>(k, v). AList.update k v) assigned r
         in (case table_Insert (row_key (schema t) r') r' t of
               (t', Inl err) \<Rightarrow> (t', n, Some err)
             | (t', Inr u) \<Rightarrow> update_rows p assigned rs (Suc n) t')))"

definition updateRows :: "(Table \<Rightarrow> row list result) \<Rightarrow> (row \<Rightarrow> bool) \<Rightarrow> row \<Rightarrow> Table \<Rightarrow> Table \<times> nat \<times> db_error option" where
  "updateRows scan p assigned t =
     (case scan t of Inl err \<Rightarrow> (t, 0, Some err) | Inr rows \<Rightarrow> update_rows p assigned rows 0 t)"

definition table_Update :: "(row \<Rightarrow> bool) \<Rightarrow> row \<Rightarrow> Table \<Rightarrow> Table \<times> nat \<times> db_error option" where
  "table_Update = updateRows Scan"

definition UpdateAt :: "bytes list \<Rightarrow> u64 \<Rightarrow> (row \<Rightarrow> bool) \<Rightarrow> row \<Rightarrow> Table \<Rightarrow> Table \<times> nat \<times> db_error option" where
  "UpdateAt ord snapshot = updateRows (ScanAt ord snapshot)"

fun delete_rows :: "(row \<Rightarrow> bool) \<Rightarrow> row list \<Rightarrow> nat \<Rightarrow> Table \<Rightarrow> Table \<times> nat \<times> db_error option" where
  "delete_rows p [] n t = (t, n, None)"
| "delete_rows p (r # rs) n t =
     (if \<not> p r then delete_rows p rs n t
      else
        (case table_Delete (row_key (schema t) r) t of
           (t', Inl err) \<Rightarrow> (t', n, Some err)
         | (t', Inr u) \<Rightarrow> delete_rows p rs (Suc n) t'))"

definition deleteRows :: "(Table \<Rightarrow> row list result) \<Rightarrow> (row \<Rightarrow> bool) \<Rightarrow> Table \<Rightarrow> Table \<times> nat \<times> db_error option" where
  "deleteRows scan p t =
     (case scan t of Inl err \<Rightarrow> (t, 0, Some err) | Inr rows \<Rightarrow> delete_rows p rows 0 t)"

definition DeleteWhere :: "(row \<Rightarrow> bool) \<Rightarrow> Table \<Rightarrow> Table \<times> nat \<times> db_error option" where
  "DeleteWhere = deleteRows Scan"

definition DeleteWhereAt :: "bytes list \<Rightarrow> u64 \<Rightarrow> (row \<Rightarrow> bool) \<Rightarrow> Table \<Rightarrow> Table \<times> nat \<times> db_error option" where
  "DeleteWhereAt ord snapshot = deleteRows (ScanAt ord snapshot)"

section \<open>Batches\<close>

record TransactionRow =
  tr_Row :: row
  tr_Deleted :: bool

fun batch_ops :: "Schema \<Rightarrow> (bytes \<times> TransactionRow) list \<Rightarrow> BatchOp list result" where
  "batch_ops sch [] = Inr []"
| "batch_ops sch ((key, w) # ws) =
     (case (if tr_Deleted w then Inr \<lparr>Key = key, Value = [], Delete = True\<rparr>
            else (case encode sch (tr_Row w) of
                    Inl err \<Rightarrow> Inl err
                  | Inr b \<Rightarrow> Inr \<lparr>Key = key, Value = b, Delete = False\<rparr>)) of
        Inl err \<Rightarrow> Inl err
      | Inr op \<Rightarrow> (case batch_ops sch ws of Inl err \<Rightarrow> Inl err | Inr ops \<Rightarrow> Inr (op # ops)))"

definition table_ApplyBatch :: "u64 \<Rightarrow> BatchOp list \<Rightarrow> unit table_op" where
  "table_ApplyBatch tid ops = on_store (ApplyBatch tid ops)"

text \<open>The rows are listed in the order in which the source ranges over them.\<close>

definition ApplyRowsBatch :: "u64 \<Rightarrow> (bytes \<times> TransactionRow) list \<Rightarrow> unit table_op" where
  "ApplyRowsBatch tid ws t =
     (case batch_ops (schema t) ws of
        Inl err \<Rightarrow> (t, Inl err)
      | Inr ops \<Rightarrow> on_store (ApplyBatch tid ops) t)"

section \<open>Changing the schema\<close>

definition zero_value :: "u8 \<Rightarrow> val option" where
  "zero_value ty =
     (if ty = IntType then Some (GoInt 0)
      else if ty = StringType then Some (GoString [])
      else if ty = BoolType then Some (GoBool False)
      else if ty = FloatType then Some (GoFloat 0)
      else if ty = BytesType then Some (GoBytes (Some []))
      else if ty = TimestampType then Some (GoTime zero_time)
      else None)"

fun convert_columns :: "Schema \<Rightarrow> Schema \<Rightarrow> row \<Rightarrow> nat \<Rightarrow> Column list \<Rightarrow> row \<Rightarrow> row" where
  "convert_columns old new r i [] nr = nr"
| "convert_columns old new r i (c # cs) nr =
     convert_columns old new r (Suc i) cs
       (case map_of r (col_Name c) of
          Some v \<Rightarrow> AList.update (col_Name c) v nr
        | None \<Rightarrow>
            if length (Columns new) = length (Columns old) \<and> i < length (Columns old) \<and>
               col_Type (Columns old ! i) = col_Type c
            then AList.update (col_Name c) (row_get r (col_Name (Columns old ! i))) nr
            else (case zero_value (col_Type c) of None \<Rightarrow> nr | Some v \<Rightarrow> AList.update (col_Name c) v nr))"

fun rewrite_rows :: "row list \<Rightarrow> unit table_op" where
  "rewrite_rows [] t = (t, Inr ())"
| "rewrite_rows (r # rs) t =
     (let key = row_key (schema t) r
      in (case encode (schema t) r of
            Inl err \<Rightarrow> (t, Inl err)
          | Inr b \<Rightarrow> seqR (on_store (store_Put key b) t) (\<lambda>t u. rewrite_rows rs (indexRow key r t))))"

definition Alter :: "Schema \<Rightarrow> unit table_op" where
  "Alter new t =
     (case validate new of
        Inl err \<Rightarrow> (t, Inl err)
      | Inr u \<Rightarrow>
          (case Scan t of
             Inl err \<Rightarrow> (t, Inl err)
           | Inr rows \<Rightarrow>
               (let converted = map (\<lambda>r. convert_columns (schema t) new r 0 (Columns new) []) rows
                in if Columns new = [] then (t\<lparr>schema := new, secondary := []\<rparr>, Inl Panic)
                   else rewrite_rows converted
                          (t\<lparr>schema := new, secondary := map (\<lambda>c. (col_Name c, [])) (tl (Columns new))\<rparr>))))"

end
