(* ===== verification/Table_Format.thy ===== *)
theory Table_Format
  imports Table
begin

text \<open>
  The schema check and the row format: which rows can be encoded, and that decoding gives back
  the row, up to the values the format identifies.
\<close>

unbundle bit_operations_syntax

section \<open>Schemas\<close>

definition column_ok :: "Column \<Rightarrow> bool" where
  "column_ok c \<longleftrightarrow> col_Name c \<noteq> [] \<and> IntType \<le> col_Type c \<and> col_Type c \<le> TimestampType"

definition schema_ok :: "Schema \<Rightarrow> bool" where
  "schema_ok sch \<longleftrightarrow> distinct (map col_Name (Columns sch)) \<and> (\<forall>c \<in> set (Columns sch). column_ok c)"

lemma validate_columns_iff:
  "validate_columns cs seen = Inr () \<longleftrightarrow>
     distinct (map col_Name cs) \<and> set seen \<inter> col_Name ` set cs = {} \<and> (\<forall>c \<in> set cs. column_ok c)"
  by (induction cs seen rule: validate_columns.induct) (auto simp: column_ok_def not_less)

lemma validate_ok: "validate sch = Inr () \<longleftrightarrow> schema_ok sch"
  by (simp add: validate_def schema_ok_def validate_columns_iff)

lemma indexOf_loop_nth:
  "distinct (map col_Name cs) \<Longrightarrow> i < length cs \<Longrightarrow> indexOf_loop n cs (cs ! i) = n + i"
proof (induction cs arbitrary: n i)
  case (Cons c cs)
  show ?case
  proof (cases i)
    case (Suc j)
    with Cons.prems have "cs ! j \<in> set cs" by simp
    with Cons.prems have "col_Name c \<noteq> col_Name (cs ! j)" by (metis distinct.simps(2) image_eqI list.simps(9) set_map)
    with Cons Suc show ?thesis by simp
  qed simp
qed simp

lemma indexOf_nth: "schema_ok sch \<Longrightarrow> i < length (Columns sch) \<Longrightarrow> indexOf (Columns sch) (Columns sch ! i) = i"
  by (simp add: schema_ok_def indexOf_def indexOf_loop_nth)

lemma indexOf_bound: "schema_ok sch \<Longrightarrow> c \<in> set (Columns sch) \<Longrightarrow> indexOf (Columns sch) c < length (Columns sch)"
  by (metis in_set_conv_nth indexOf_nth)

lemma indexOf_inject:
  "schema_ok sch \<Longrightarrow> c \<in> set (Columns sch) \<Longrightarrow> d \<in> set (Columns sch) \<Longrightarrow>
     indexOf (Columns sch) c = indexOf (Columns sch) d \<longleftrightarrow> c = d"
  by (metis in_set_conv_nth indexOf_nth)

section \<open>The bitmap of nulls\<close>

lemma is_null_bit: "is_null i b \<longleftrightarrow> bit (b ! (i div 8)) (i mod 8)"
proof -
  have "(w AND push_bit n 1 \<noteq> 0) = bit w n" if "n < 8" for w :: u8 and n
  proof -
    have "w AND push_bit n 1 = (if bit w n then push_bit n 1 else 0)"
      by (rule bit_eqI) (auto simp: bit_simps)
    moreover have "bit (push_bit n (1 :: u8)) n" using that by (simp add: bit_simps)
    then have "push_bit n (1 :: u8) \<noteq> 0" by (metis bit_0_eq bot_apply bot_bool_def)
    ultimately show ?thesis by simp
  qed
  then show ?thesis by (simp add: is_null_def)
qed

lemma set_null_length [simp]: "length (set_null i b) = length b"
  by (simp add: set_null_def)

lemma is_null_set_null:
  assumes "i < 8 * length b" and "j < 8 * length b"
  shows "is_null j (set_null i b) \<longleftrightarrow> j = i \<or> is_null j b"
proof -
  have "j = i \<longleftrightarrow> j div 8 = i div 8 \<and> j mod 8 = i mod 8" by (metis div_mult_mod_eq)
  with assms show ?thesis
    by (auto simp: is_null_bit set_null_def nth_list_update bit_simps)
qed

lemma is_null_fold:
  "\<forall>i \<in> set is. i < 8 * length b \<Longrightarrow> j < 8 * length b \<Longrightarrow>
     is_null j (fold set_null is b) \<longleftrightarrow> j \<in> set is \<or> is_null j b"
  by (induction "is" arbitrary: b) (auto simp: is_null_set_null)

lemma fold_set_null_length [simp]: "length (fold set_null is b) = length b"
  by (induction "is" arbitrary: b) auto

lemma is_null_zero: "j < 8 * n \<Longrightarrow> \<not> is_null j (replicate n 0)"
  by (simp add: is_null_bit)

lemma set_null_append: "i < 8 * length b \<Longrightarrow> set_null i (b @ e) = set_null i b @ e"
  using div_less_iff_less_mult [of 8 i "length b"] by (simp add: set_null_def nth_append list_update_append mult.commute)

section \<open>Rows that can be stored\<close>

definition has_type :: "u8 \<Rightarrow> val \<Rightarrow> bool" where
  "has_type ty v \<longleftrightarrow>
     (case v of
        GoNil \<Rightarrow> False
      | GoInt i \<Rightarrow> ty = IntType \<or> ty = FloatType
      | GoString s \<Rightarrow> ty = StringType
      | GoBool b \<Rightarrow> ty = BoolType
      | GoFloat f \<Rightarrow> ty = FloatType
      | GoBytes b \<Rightarrow> ty = BytesType
      | GoTime t \<Rightarrow> ty = TimestampType
      | GoParam n \<Rightarrow> False)"

definition row_typed :: "Schema \<Rightarrow> row \<Rightarrow> bool" where
  "row_typed sch r \<longleftrightarrow>
     length r = length (Columns sch) \<and>
     (\<forall>c \<in> set (Columns sch). \<exists>v. map_of r (col_Name c) = Some v \<and>
        (if v = GoNil then \<not> NotNull (constraint sch (col_Name c)) else has_type (col_Type c) v))"

text \<open>Strings and byte slices whose length fits in the 32-bit length field.\<close>

definition short_value :: "val \<Rightarrow> bool" where
  "short_value v \<longleftrightarrow>
     (case v of GoString s \<Rightarrow> length s < 2 ^ 32 | GoBytes (Some b) \<Rightarrow> length b < 2 ^ 32 | _ \<Rightarrow> True)"

text \<open>The value that comes back for one that is stored.\<close>

definition canonical_value :: "u8 \<Rightarrow> val \<Rightarrow> val" where
  "canonical_value ty v =
     (case v of
        GoInt i \<Rightarrow> if ty = FloatType then GoFloat (fp_of_int i) else v
      | GoBytes (Some []) \<Rightarrow> GoBytes None
      | GoTime t \<Rightarrow> GoTime (UTC (sint (UnixNano t)))
      | _ \<Rightarrow> v)"

definition canonical :: "Schema \<Rightarrow> row \<Rightarrow> row" where
  "canonical sch r = map (\<lambda>c. (col_Name c, canonical_value (col_Type c) (row_get r (col_Name c)))) (Columns sch)"

definition value_bytes :: "Column \<Rightarrow> val \<Rightarrow> bytes" where
  "value_bytes c v = (case encode_value c v of Inl err \<Rightarrow> [] | Inr e \<Rightarrow> e)"

lemmas type_defs = IntType_def StringType_def BoolType_def FloatType_def BytesType_def TimestampType_def

lemma column_types:
  assumes "column_ok c"
  obtains "col_Type c = IntType" | "col_Type c = StringType" | "col_Type c = BoolType" | "col_Type c = FloatType"
    | "col_Type c = BytesType" | "col_Type c = TimestampType"
proof -
  have "w = 1 \<or> w = 2 \<or> w = 3 \<or> w = 4 \<or> w = 5 \<or> w = 6" if "1 \<le> w" "w \<le> 6" for w :: u8
  proof -
    have "unat w = 1 \<or> unat w = 2 \<or> unat w = 3 \<or> unat w = 4 \<or> unat w = 5 \<or> unat w = 6"
      using that by (auto simp: word_le_nat_alt)
    then show ?thesis by (auto simp: word_unat_eq_iff)
  qed
  with assms that show ?thesis unfolding column_ok_def type_defs by blast
qed

lemma encode_value_typed:
  assumes "column_ok c"
  shows "encode_value c v = (if has_type (col_Type c) v then Inr (value_bytes c v) else encode_value c v)"
    and "\<not> has_type (col_Type c) v \<Longrightarrow> \<exists>err. encode_value c v = Inl err"
  using assms
  by (cases rule: column_types; cases v; simp add: encode_value_def value_bytes_def has_type_def type_defs Let_def)+

text \<open>The value of each type reads back, wherever it stands in the data.\<close>

lemma slice_middle: "go_slice (length a) (length a + length b) (a @ b @ d) = b"
  by (simp add: go_slice_def)

lemma slice_at: "length b = n \<Longrightarrow> go_slice (length a) (length a + n) (a @ b @ d) = b"
  using slice_middle by auto

lemma decode_value_ok:
  assumes "column_ok c" and "has_type (col_Type c) v" and "short_value v"
  shows "decode_value c (a @ value_bytes c v @ b) (length a) =
    Inr (Some (canonical_value (col_Type c) v), length a + length (value_bytes c v))"
proof -
  have eight: "go_slice (length a) (length a + 8) (a @ PutUint64 w @ b) = PutUint64 w" for w by (rule slice_at) simp
  have four: "go_slice (length a) (length a + 4) (a @ PutUint32 w @ d) = PutUint32 w" for w d by (rule slice_at) simp
  have rest: "go_slice (length a + 4) (length a + 4 + length e) (a @ PutUint32 w @ e @ b) = e" for w e
    using slice_at [of e "length e" "a @ PutUint32 w" b] by simp
  have len: "unat (word_of_nat n :: u32) = n" if "n < 4294967296" for n
    using that by (simp add: unat_of_nat)
  have bytes: "canonical_value ty (GoBytes (Some e)) = GoBytes (if e = [] then None else Some e)" for ty e
    by (cases e) (simp_all add: canonical_value_def)
  show ?thesis using assms
    by (cases rule: column_types; cases v;
      simp add: value_bytes_def encode_value_def decode_value_def canonical_value_def has_type_def short_value_def
        type_defs Let_def eight four rest len bytes nth_append split: option.splits)
      (auto simp: neq_Nil_conv)
qed

section \<open>Encoding a row\<close>

definition value_ok :: "Schema \<Rightarrow> row \<Rightarrow> Column \<Rightarrow> bool" where
  "value_ok sch r c \<longleftrightarrow>
     (\<exists>v. map_of r (col_Name c) = Some v \<and>
        (if v = GoNil then \<not> NotNull (constraint sch (col_Name c)) else has_type (col_Type c) v))"

lemma row_typed_iff: "row_typed sch r \<longleftrightarrow> length r = length (Columns sch) \<and> (\<forall>c \<in> set (Columns sch). value_ok sch r c)"
  by (simp add: row_typed_def value_ok_def)

definition column_bytes :: "row \<Rightarrow> Column \<Rightarrow> bytes" where
  "column_bytes r c =
     (let v = row_get r (col_Name c) in if v = GoNil then [] else value_bytes c v)"

definition null_columns :: "Schema \<Rightarrow> row \<Rightarrow> Column list \<Rightarrow> nat list" where
  "null_columns sch r cs = map (indexOf (Columns sch)) (filter (\<lambda>c. row_get r (col_Name c) = GoNil) cs)"

definition row_bytes :: "Schema \<Rightarrow> row \<Rightarrow> bytes" where
  "row_bytes sch r =
     fold set_null (null_columns sch r (Columns sch)) (replicate (null_bytes sch) 0) @
     concat (map (column_bytes r) (Columns sch))"

lemma null_index: "schema_ok sch \<Longrightarrow> c \<in> set (Columns sch) \<Longrightarrow> indexOf (Columns sch) c < 8 * null_bytes sch"
  using indexOf_bound [of sch c] by (simp add: null_bytes_def)

lemma encode_columns_ok:
  assumes "schema_ok sch"
  shows "set cs \<subseteq> set (Columns sch) \<Longrightarrow> \<forall>c \<in> set cs. value_ok sch r c \<Longrightarrow> length b = null_bytes sch \<Longrightarrow>
    encode_columns sch r cs (b @ e) = Inr (fold set_null (null_columns sch r cs) b @ e @ concat (map (column_bytes r) cs))"
proof (induction cs arbitrary: b e)
  case (Cons c cs)
  from Cons.prems(2) obtain v where v: "map_of r (col_Name c) = Some v" "row_get r (col_Name c) = v"
    "if v = GoNil then \<not> NotNull (constraint sch (col_Name c)) else has_type (col_Type c) v"
    by (auto simp: value_ok_def row_get_def)
  have c: "column_ok c" "indexOf (Columns sch) c < 8 * length b"
    using assms Cons.prems null_index [OF assms] by (auto simp: schema_ok_def)
  show ?case
  proof (cases "v = GoNil")
    case True
    with v c Cons.IH [of "set_null (indexOf (Columns sch) c) b" e] Cons.prems show ?thesis
      by (simp add: null_columns_def column_bytes_def set_null_append)
  next
    case False
    with v c Cons.IH [of b "e @ value_bytes c v"] Cons.prems encode_value_typed(1) [OF c(1), of v] show ?thesis
      by (simp add: null_columns_def column_bytes_def)
  qed
qed (simp add: null_columns_def)

lemma encode_columns_error:
  assumes "schema_ok sch"
  shows "set cs \<subseteq> set (Columns sch) \<Longrightarrow> c \<in> set cs \<Longrightarrow> \<not> value_ok sch r c \<Longrightarrow>
    \<exists>err. encode_columns sch r cs b = Inl err"
proof (induction cs arbitrary: b)
  case (Cons d cs)
  have ok: "column_ok d" using assms Cons.prems(1) by (auto simp: schema_ok_def)
  show ?case
  proof (cases "c = d")
    case True
    with Cons.prems(3) encode_value_typed(2) [OF ok] show ?thesis
      by (fastforce simp: value_ok_def split: option.splits)
  next
    case False
    with Cons have "\<exists>err. encode_columns sch r cs b = Inl err" for b by auto
    then show ?thesis by (auto split: option.splits sum.splits)
  qed
qed simp

lemma encode_ok: "schema_ok sch \<Longrightarrow> row_typed sch r \<Longrightarrow> encode sch r = Inr (row_bytes sch r)"
  using encode_columns_ok [of sch "Columns sch" r "replicate (null_bytes sch) 0" "[]"]
  by (simp add: encode_def row_typed_iff row_bytes_def)

lemma encode_error: "schema_ok sch \<Longrightarrow> \<not> row_typed sch r \<Longrightarrow> \<exists>err. encode sch r = Inl err"
  using encode_columns_error [of sch "Columns sch"] by (auto simp: encode_def row_typed_iff)

section \<open>Decoding a row\<close>

lemma update_new: "k \<notin> fst ` set al \<Longrightarrow> AList.update k v al = al @ [(k, v)]"
  by (induction al) auto

lemma decode_columns_ok:
  assumes ok: "schema_ok sch" and nulls: "\<And>c. c \<in> set (Columns sch) \<Longrightarrow>
      is_null (indexOf (Columns sch) c) (take (null_bytes sch) d) \<longleftrightarrow> row_get r (col_Name c) = GoNil"
    and short: "\<And>c. c \<in> set (Columns sch) \<Longrightarrow> short_value (row_get r (col_Name c))"
  shows "set cs \<subseteq> set (Columns sch) \<Longrightarrow> \<forall>c \<in> set cs. value_ok sch r c \<Longrightarrow> d = a @ concat (map (column_bytes r) cs) \<Longrightarrow>
    distinct (map col_Name cs) \<Longrightarrow> fst ` set acc \<inter> col_Name ` set cs = {} \<Longrightarrow>
    decode_columns sch d cs (length a) acc =
      Inr (length d, acc @ map (\<lambda>c. (col_Name c, canonical_value (col_Type c) (row_get r (col_Name c)))) cs)"
proof (induction cs arbitrary: a acc)
  case (Cons c cs)
  let ?v = "row_get r (col_Name c)"
  have c: "c \<in> set (Columns sch)" "column_ok c" using ok Cons.prems(1) by (auto simp: schema_ok_def)
  have new: "AList.update (col_Name c) v acc = acc @ [(col_Name c, v)]" for v
    using Cons.prems(5) by (auto intro!: update_new)
  show ?case
  proof (cases "?v = GoNil")
    case True
    have "canonical_value (col_Type c) GoNil = GoNil" by (simp add: canonical_value_def)
    with True Cons.IH [of a "acc @ [(col_Name c, GoNil)]"] Cons.prems nulls [OF c(1)] new show ?thesis
      by (auto simp: column_bytes_def image_Un)
  next
    case False
    then have bytes: "column_bytes r c = value_bytes c ?v" by (simp add: column_bytes_def)
    from Cons.prems(2) have "has_type (col_Type c) ?v" using False by (auto simp: value_ok_def row_get_def)
    from decode_value_ok [OF c(2) this short [OF c(1)], of a "concat (map (column_bytes r) cs)"]
    have "decode_value c d (length a) =
      Inr (Some (canonical_value (col_Type c) ?v), length (a @ value_bytes c ?v))"
      using Cons.prems(3) bytes by simp
    with False Cons.IH [of "a @ value_bytes c ?v" "acc @ [(col_Name c, canonical_value (col_Type c) ?v)]"]
      Cons.prems nulls [OF c(1)] new bytes show ?thesis
      by (auto simp: image_Un)
  qed
qed simp

lemma row_bytes_null:
  assumes ok: "schema_ok sch" and c: "c \<in> set (Columns sch)"
  shows "is_null (indexOf (Columns sch) c) (row_bytes sch r) \<longleftrightarrow> row_get r (col_Name c) = GoNil"
    "is_null (indexOf (Columns sch) c) (take (null_bytes sch) (row_bytes sch r)) \<longleftrightarrow> row_get r (col_Name c) = GoNil"
proof -
  let ?z = "replicate (null_bytes sch) 0 :: bytes" and ?i = "indexOf (Columns sch) c"
  let ?ns = "null_columns sch r (Columns sch)"
  have "?i \<in> set ?ns \<longleftrightarrow> row_get r (col_Name c) = GoNil"
    using c indexOf_inject [OF ok] by (auto simp: null_columns_def)
  moreover have "\<forall>i \<in> set ?ns. i < 8 * length ?z"
    using null_index [OF ok] by (auto simp: null_columns_def)
  ultimately have b: "is_null ?i (fold set_null ?ns ?z) \<longleftrightarrow> row_get r (col_Name c) = GoNil"
    using is_null_fold [of ?ns ?z ?i] null_index [OF ok c] is_null_zero [OF null_index [OF ok c]] by simp
  then show "is_null ?i (take (null_bytes sch) (row_bytes sch r)) \<longleftrightarrow> row_get r (col_Name c) = GoNil"
    by (simp add: row_bytes_def)
  have "?i div 8 < null_bytes sch" using null_index [OF ok c] by (simp add: less_mult_imp_div_less mult.commute)
  with b show "is_null ?i (row_bytes sch r) \<longleftrightarrow> row_get r (col_Name c) = GoNil"
    by (simp add: row_bytes_def is_null_def nth_append)
qed

lemma decode_row_bytes:
  assumes ok: "schema_ok sch" and typed: "row_typed sch r"
    and short: "\<And>c. c \<in> set (Columns sch) \<Longrightarrow> short_value (row_get r (col_Name c))"
  shows "decode sch (row_bytes sch r) = Inr (canonical sch r)"
  using decode_columns_ok [OF ok row_bytes_null(2) [OF ok] short, where cs = "Columns sch" and acc = "[]"
      and a = "fold set_null (null_columns sch r (Columns sch)) (replicate (null_bytes sch) 0)"] ok typed
  by (simp add: decode_def row_bytes_def canonical_def row_typed_iff schema_ok_def)

text \<open>What the decoder accepts is a value in the form it would be written in.\<close>

lemma PutUint_Uint:
  "length b = 8 \<Longrightarrow> PutUint64 (Uint64 b) = b" "length b = 4 \<Longrightarrow> PutUint32 (Uint32 b) = b"
proof -
  show "PutUint64 (Uint64 b) = b" if len: "length b = 8"
  proof -
    have "unat (word_of_nat (le_nat b) :: u64) = le_nat b" using le_nat_less [of b] len by (simp add: unat_of_nat)
    with len show ?thesis using le_bytes_le_nat [of b] by (simp only: PutUint64_def Uint64_def take_all order_refl)
  qed
  show "PutUint32 (Uint32 b) = b" if len: "length b = 4"
  proof -
    have "unat (word_of_nat (le_nat b) :: u32) = le_nat b" using le_nat_less [of b] len by (simp add: unat_of_nat)
    with len show ?thesis using le_bytes_le_nat [of b] by (simp only: PutUint32_def Uint32_def take_all order_refl)
  qed
qed

lemma slice_length: "p \<le> q \<Longrightarrow> q \<le> length d \<Longrightarrow> length (go_slice p q d) = q - p"
  by (simp add: go_slice_def)

lemma slice_join: "p \<le> q \<Longrightarrow> q \<le> r \<Longrightarrow> go_slice p r d = go_slice p q d @ go_slice q r d"
  using take_add [of "q - p" "r - q" "drop p d"] by (simp add: go_slice_def add.commute)

lemma slice_prefixed:
  assumes "p + 4 + n \<le> length d" and "n = unat (Uint32 (go_slice p (p + 4) d))"
  shows "go_slice p (p + 4 + n) d = PutUint32 (word_of_nat n) @ go_slice (p + 4) (p + 4 + n) d"
    "length (go_slice (p + 4) (p + 4 + n) d) = n" "n < 2 ^ 32"
proof -
  have "PutUint32 (word_of_nat n) = go_slice p (p + 4) d"
    using assms PutUint_Uint(2) [of "go_slice p (p + 4) d"] by (simp add: slice_length)
  then show "go_slice p (p + 4 + n) d = PutUint32 (word_of_nat n) @ go_slice (p + 4) (p + 4 + n) d"
    using slice_join [of p "p + 4" "p + 4 + n" d] by simp
  show "length (go_slice (p + 4) (p + 4 + n) d) = n" "n < 2 ^ 32"
    using assms unat_bound [of "Uint32 (go_slice p (p + 4) d)"] by (simp_all add: slice_length)
qed

lemma slice_one: "p < length d \<Longrightarrow> go_slice p (Suc p) d = [d ! p]"
  by (simp add: go_slice_def take_Suc_conv_app_nth Cons_nth_drop_Suc [symmetric])

lemma byte_bool: "\<not> w > 1 \<Longrightarrow> (if w = 1 then 1 else 0) = (w :: u8)"
proof -
  assume "\<not> w > 1"
  then have "unat w = 0 \<or> unat w = 1" by (auto simp: word_less_nat_alt)
  then show ?thesis by (auto simp: word_unat_eq_iff)
qed

lemma decode_value_typed:
  assumes "column_ok c" and "decode_value c d p = Inr (x, q)"
  shows "\<exists>v. x = Some v \<and> has_type (col_Type c) v \<and> canonical_value (col_Type c) v = v \<and> short_value v \<and>
    p \<le> q \<and> q \<le> length d \<and> go_slice p q d = value_bytes c v"
  using assms(1)
proof (cases rule: column_types)
  case 1
  with assms(2) PutUint_Uint(1) [of "go_slice p (p + 8) d"] show ?thesis
    by (auto simp: decode_value_def has_type_def canonical_value_def short_value_def value_bytes_def encode_value_def
        type_defs slice_length split: if_splits)
next
  case 2
  define n where "n = unat (Uint32 (go_slice p (p + 4) d))"
  define t where "t = go_slice (p + 4) (p + 4 + n) d"
  have dv: "decode_value c d p =
     (if p + 4 > length d then Inl (ErrMsg ''column %q (string): missing 4-byte length at offset %d, row has %d bytes''
                               [col_Name c, dec_nat p, dec_nat (length d)])
      else if p + 4 + n > length d
      then Inl (ErrMsg ''column %q (string): length %d exceeds row data at offset %d (row has %d bytes)''
                              [col_Name c, dec_nat n, dec_nat (p + 4), dec_nat (length d)])
      else Inr (Some (GoString t), p + 4 + n))"
    unfolding decode_value_def 2 n_def t_def by (simp add: type_defs Let_def)
  with assms(2) have n: "p + 4 + n \<le> length d" "x = Some (GoString t)" "q = p + 4 + n" by (auto split: if_splits)
  note b = slice_prefixed [OF n(1) n_def, folded t_def]
  have "value_bytes c (GoString t) = PutUint32 (word_of_nat n) @ t"
    using b(2) 2 by (simp add: value_bytes_def encode_value_def type_defs)
  moreover have "short_value (GoString t)" using b(2,3) by (simp add: short_value_def)
  ultimately show ?thesis using n b(1) 2 by (simp add: has_type_def canonical_value_def)
next
  case 3
  with assms(2) byte_bool [of "d ! p"] show ?thesis
    by (auto simp: decode_value_def has_type_def canonical_value_def short_value_def value_bytes_def encode_value_def
        type_defs slice_one split: if_splits)
next
  case 4
  with assms(2) PutUint_Uint(1) [of "go_slice p (p + 8) d"] show ?thesis
    by (auto simp: decode_value_def has_type_def canonical_value_def short_value_def value_bytes_def encode_value_def
        type_defs slice_length split: if_splits)
next
  case 5
  define n where "n = unat (Uint32 (go_slice p (p + 4) d))"
  define t where "t = go_slice (p + 4) (p + 4 + n) d"
  have dv: "decode_value c d p =
     (if p + 4 > length d then Inl (ErrMsg ''column %q (bytes): missing length'' [col_Name c])
      else if p + 4 + n > length d then Inl (ErrMsg ''column %q (bytes): invalid length'' [col_Name c])
      else Inr (Some (GoBytes (if n = 0 then None else Some t)), p + 4 + n))"
    unfolding decode_value_def 5 n_def t_def by (simp add: type_defs Let_def)
  with assms(2) have n: "p + 4 + n \<le> length d" "x = Some (GoBytes (if n = 0 then None else Some t))" "q = p + 4 + n"
    by (auto split: if_splits)
  note b = slice_prefixed [OF n(1) n_def, folded t_def]
  show ?thesis
  proof (cases t)
    case Nil
    then have "n = 0" using b(2) by simp
    moreover have "value_bytes c (GoBytes None) = PutUint32 0"
      using 5 by (simp add: value_bytes_def encode_value_def type_defs)
    ultimately show ?thesis using n b(1) 5 Nil by (simp add: has_type_def canonical_value_def short_value_def)
  next
    case (Cons y ys)
    have "value_bytes c (GoBytes (Some t)) = PutUint32 (word_of_nat n) @ t"
      using b(2) 5 by (simp add: value_bytes_def encode_value_def type_defs)
    moreover have "n \<noteq> 0" using b(2) Cons by auto
    moreover have "short_value (GoBytes (Some t))" using b(2,3) by (simp add: short_value_def)
    moreover have "canonical_value (col_Type c) (GoBytes (Some t)) = GoBytes (Some t)"
      by (simp add: canonical_value_def Cons)
    ultimately show ?thesis using n b(1) 5 by (simp add: has_type_def)
  qed
next
  case 6
  with assms(2) PutUint_Uint(1) [of "go_slice p (p + 8) d"] show ?thesis
    by (auto simp: decode_value_def has_type_def canonical_value_def short_value_def value_bytes_def encode_value_def
        type_defs slice_length UTC_def UnixNano_def split: if_splits)
qed

lemma decode_columns_typed:
  assumes ok: "schema_ok sch"
  shows "set cs \<subseteq> set (Columns sch) \<Longrightarrow> distinct (map col_Name cs) \<Longrightarrow> fst ` set acc \<inter> col_Name ` set cs = {} \<Longrightarrow>
    p \<le> length d \<Longrightarrow> decode_columns sch d cs p acc = Inr (q, r) \<Longrightarrow>
    \<exists>vs. r = acc @ zip (map col_Name cs) vs \<and> length vs = length cs \<and> p \<le> q \<and> q \<le> length d \<and>
      (\<forall>(c, v) \<in> set (zip cs vs). short_value v \<and> canonical_value (col_Type c) v = v \<and>
         (if is_null (indexOf (Columns sch) c) (take (null_bytes sch) d) then v = GoNil else has_type (col_Type c) v)) \<and>
      go_slice p q d = concat (map (\<lambda>(c, v). if v = GoNil then [] else value_bytes c v) (zip cs vs))"
proof (induction cs arbitrary: p acc)
  case Nil
  then show ?case by (auto simp: go_slice_def)
next
  case (Cons c cs)
  have c: "column_ok c" using ok Cons.prems(1) by (auto simp: schema_ok_def)
  have new: "AList.update (col_Name c) v acc = acc @ [(col_Name c, v)]" for v
    using Cons.prems(3) by (auto intro!: update_new)
  obtain v p1 where v: "decode_columns sch d cs p1 (acc @ [(col_Name c, v)]) = Inr (q, r)"
    "short_value v" "canonical_value (col_Type c) v = v" "p \<le> p1" "p1 \<le> length d"
    "if is_null (indexOf (Columns sch) c) (take (null_bytes sch) d) then v = GoNil else has_type (col_Type c) v"
    "go_slice p p1 d = (if v = GoNil then [] else value_bytes c v)"
  proof (cases "is_null (indexOf (Columns sch) c) (take (null_bytes sch) d)")
    case True
    with Cons.prems new that [of p GoNil] show ?thesis by (simp add: short_value_def canonical_value_def go_slice_def)
  next
    case False
    with Cons.prems(5) obtain x p1 where x: "decode_value c d p = Inr (x, p1)" by (auto split: sum.splits)
    from decode_value_typed [OF c this] obtain w where w: "x = Some w" "has_type (col_Type c) w"
      "canonical_value (col_Type c) w = w" "short_value w" "p \<le> p1" "p1 \<le> length d" "go_slice p p1 d = value_bytes c w" by blast
    then have "w \<noteq> GoNil" by (auto simp: has_type_def)
    with w x False Cons.prems new that [of p1 w] show ?thesis by simp
  qed
  from Cons.IH [OF _ _ _ v(5,1)] Cons.prems(1-3) obtain vs where vs:
    "r = (acc @ [(col_Name c, v)]) @ zip (map col_Name cs) vs" "length vs = length cs" "p1 \<le> q" "q \<le> length d"
    "\<forall>(c, v) \<in> set (zip cs vs). short_value v \<and> canonical_value (col_Type c) v = v \<and>
         (if is_null (indexOf (Columns sch) c) (take (null_bytes sch) d) then v = GoNil else has_type (col_Type c) v)"
    "go_slice p1 q d = concat (map (\<lambda>(c, v). if v = GoNil then [] else value_bytes c v) (zip cs vs))"
    by (auto simp: image_Un)
  have "go_slice p q d = go_slice p p1 d @ go_slice p1 q d"
    using v(4) vs(3) by (rule slice_join)
  with v vs show ?case by (intro exI [of _ "v # vs"]) simp
qed

lemma row_get_zip:
  assumes "distinct (map f cs)" and "length vs = length cs" and "(c, v) \<in> set (zip cs vs)"
  shows "row_get (zip (map f cs) vs) (f c) = v" "map_of (zip (map f cs) vs) (f c) = Some v"
proof -
  have "(f c, v) \<in> set (zip (map f cs) vs)"
    using assms(2,3) by (induction vs cs rule: list_induct2) auto
  with assms(1,2) show "map_of (zip (map f cs) vs) (f c) = Some v" by simp
  then show "row_get (zip (map f cs) vs) (f c) = v" by (simp add: row_get_def)
qed

lemma zip_column: "length vs = length cs \<Longrightarrow> c \<in> set cs \<Longrightarrow> \<exists>v. (c, v) \<in> set (zip cs vs)"
  by (induction vs cs rule: list_induct2) auto

lemma map_zip_snd: "length vs = length cs \<Longrightarrow> (\<And>c v. (c, v) \<in> set (zip cs vs) \<Longrightarrow> g c = v) \<Longrightarrow> map g cs = vs"
  by (induction vs cs rule: list_induct2) auto

lemma zip_maps: "zip (map f cs) (map g cs) = map (\<lambda>c. (f c, g c)) cs"
  by (induction cs) auto

lemma map_zip_fst: "length vs = length cs \<Longrightarrow> map (\<lambda>(c, v). g c) (zip cs vs) = map g cs"
  by (induction vs cs rule: list_induct2) auto

lemma decode_shape:
  assumes ok: "schema_ok sch" and d: "decode sch d = Inr r"
  shows "map fst r = map col_Name (Columns sch)" "canonical sch r = r"
    "\<And>c. c \<in> set (Columns sch) \<Longrightarrow> short_value (row_get r (col_Name c))"
    "\<And>c. c \<in> set (Columns sch) \<Longrightarrow> if is_null (indexOf (Columns sch) c) d then row_get r (col_Name c) = GoNil
      else has_type (col_Type c) (row_get r (col_Name c))"
    "null_bytes sch \<le> length d" "drop (null_bytes sch) d = concat (map (column_bytes r) (Columns sch))"
proof -
  let ?cs = "Columns sch" and ?k = "null_bytes sch"
  from d have len: "?k \<le> length d" and dc: "decode_columns sch d ?cs ?k [] = Inr (length d, r)"
    by (auto simp: decode_def split: if_splits sum.splits)
  have dist: "distinct (map col_Name ?cs)" using ok by (simp add: schema_ok_def)
  from decode_columns_typed [OF ok _ dist _ len dc] obtain vs where vs: "r = zip (map col_Name ?cs) vs"
    "length vs = length ?cs" "\<forall>(c, v) \<in> set (zip ?cs vs). short_value v \<and> canonical_value (col_Type c) v = v \<and>
         (if is_null (indexOf ?cs c) (take ?k d) then v = GoNil else has_type (col_Type c) v)"
    "go_slice ?k (length d) d = concat (map (\<lambda>(c, v). if v = GoNil then [] else value_bytes c v) (zip ?cs vs))"
    by auto
  have get: "row_get r (col_Name c) = v" if "(c, v) \<in> set (zip ?cs vs)" for c v
    using row_get_zip(1) [OF dist vs(2) that] vs(1) by simp
  show "map fst r = map col_Name ?cs" using vs(1,2) by simp
  have "map (\<lambda>c. canonical_value (col_Type c) (row_get r (col_Name c))) ?cs = vs"
    using vs(2,3) get by (intro map_zip_snd) fastforce+
  then show "canonical sch r = r" unfolding canonical_def vs(1) by (simp flip: zip_maps)
  show "short_value (row_get r (col_Name c))" if "c \<in> set ?cs" for c
    using zip_column [OF vs(2) that] vs(3) get by fastforce
  have "take ?k d ! (indexOf ?cs c div 8) = d ! (indexOf ?cs c div 8)" if "c \<in> set ?cs" for c
    using null_index [OF ok that] by (simp add: less_mult_imp_div_less mult.commute)
  then have nul: "is_null (indexOf ?cs c) (take ?k d) = is_null (indexOf ?cs c) d" if "c \<in> set ?cs" for c
    using that by (simp add: is_null_def)
  show "if is_null (indexOf ?cs c) d then row_get r (col_Name c) = GoNil
      else has_type (col_Type c) (row_get r (col_Name c))" if "c \<in> set ?cs" for c
    using zip_column [OF vs(2) that] vs(3) get nul [OF that] by fastforce
  show "?k \<le> length d" by (rule len)
  have "map (\<lambda>(c, v). if v = GoNil then [] else value_bytes c v) (zip ?cs vs) = map (\<lambda>(c, v). column_bytes r c) (zip ?cs vs)"
    using get by (auto simp: column_bytes_def Let_def)
  also have "\<dots> = map (column_bytes r) ?cs"
    using vs(2) by (rule map_zip_fst)
  finally show "drop ?k d = concat (map (column_bytes r) ?cs)" using vs(4) by (simp add: go_slice_def)
qed

section \<open>Properties of the row format\<close>

text \<open>C32: A schema passes \<open>validate\<close> exactly if its column names are distinct and not empty and every
  type is one of the six.\<close>

theorem validate_iff:
  "validate sch = Inr () \<longleftrightarrow> distinct (map col_Name (Columns sch)) \<and> list_all column_ok (Columns sch)"
  by (simp add: validate_ok schema_ok_def list_all_iff)

text \<open>C30: Encoding and decoding. For a validated schema, a row is refused by \<open>encode\<close> exactly if it does not have a
  value of the right type (or an allowed NULL) for every column and nothing else, and otherwise \<open>decode\<close> gives the row back, in the order
  of the columns: integers of a FLOAT column as floating-point numbers, an empty byte slice as a nil one, times in UTC. Strings
  and byte slices are shorter than \<open>2 ^ 32\<close>.\<close>

theorem row_round_trip:
  assumes "validate sch = Inr ()" and "list_all (\<lambda>c. short_value (row_get r (col_Name c))) (Columns sch)"
  shows "case encode sch r of
      Inl err \<Rightarrow> \<not> row_typed sch r
    | Inr b \<Rightarrow> row_typed sch r \<and> decode sch b = Inr (canonical sch r)"
  using assms encode_ok [of sch r] encode_error [of sch r] decode_row_bytes [of sch r]
  by (cases "row_typed sch r") (auto simp: validate_ok list_all_iff)

definition example_schema :: Schema where
  "example_schema =
     \<lparr>Columns = [\<lparr>col_Name = str ''id'', col_Type = IntType\<rparr>, \<lparr>col_Name = str ''name'', col_Type = StringType\<rparr>,
        \<lparr>col_Name = str ''ok'', col_Type = BoolType\<rparr>, \<lparr>col_Name = str ''raw'', col_Type = BytesType\<rparr>],
      Constraints = [(str ''name'', \<lparr>NotNull = True, Unique = True, References = None\<rparr>)]\<rparr>"

definition example_row :: row where
  "example_row = [(str ''raw'', GoBytes (Some [])), (str ''id'', GoInt 300), (str ''ok'', GoNil), (str ''name'', GoString (str ''Ada''))]"

lemmas example_simps = example_schema_def example_row_def type_defs str_def

theorem row_round_trip_witness:
  "case encode example_schema example_row of
      Inl err \<Rightarrow> \<not> row_typed example_schema example_row
    | Inr b \<Rightarrow> row_typed example_schema example_row \<and> decode example_schema b = Inr (canonical example_schema example_row)"
  by (rule row_round_trip)
    (simp_all add: validate_def example_simps short_value_def row_get_def)

text \<open>C31: Decoding and encoding. Whatever bytes \<open>decode\<close> accepts, the row has exactly the columns of the schema in
  order, a null or a value of the column's type for each, in the form that encoding keeps; and if the null columns are
  allowed to be null, \<open>encode\<close> gives the same bytes again up to unused bits of the bitmap.\<close>

theorem decode_encode:
  assumes "validate sch = Inr ()" and "decode sch d = Inr r"
  shows "map fst r = map col_Name (Columns sch) \<and> canonical sch r = r \<and>
    list_all (\<lambda>c. row_get r (col_Name c) = GoNil \<or> has_type (col_Type c) (row_get r (col_Name c))) (Columns sch) \<and>
    (list_all (\<lambda>c. row_get r (col_Name c) = GoNil \<longrightarrow> \<not> NotNull (constraint sch (col_Name c))) (Columns sch) \<longrightarrow>
      (\<exists>b. encode sch r = Inr b \<and> length b = length d \<and> drop (null_bytes sch) b = drop (null_bytes sch) d \<and>
        list_all (\<lambda>c. is_null (indexOf (Columns sch) c) b = is_null (indexOf (Columns sch) c) d) (Columns sch)))"
proof -
  have ok: "schema_ok sch" using assms(1) by (simp add: validate_ok)
  note shape = decode_shape [OF ok assms(2)]
  have typed: "row_get r (col_Name c) = GoNil \<or> has_type (col_Type c) (row_get r (col_Name c))"
    if "c \<in> set (Columns sch)" for c using shape(4) [OF that] by (auto split: if_splits)
  have "\<exists>b. encode sch r = Inr b \<and> length b = length d \<and> drop (null_bytes sch) b = drop (null_bytes sch) d \<and>
        list_all (\<lambda>c. is_null (indexOf (Columns sch) c) b = is_null (indexOf (Columns sch) c) d) (Columns sch)"
    if nn: "list_all (\<lambda>c. row_get r (col_Name c) = GoNil \<longrightarrow> \<not> NotNull (constraint sch (col_Name c))) (Columns sch)"
  proof (intro exI conjI)
    have "value_ok sch r c" if c: "c \<in> set (Columns sch)" for c
    proof -
      have "col_Name c \<in> fst ` set r" using arg_cong [OF shape(1), of set] c by auto
      then obtain v where "map_of r (col_Name c) = Some v" by (metis map_of_eq_None_iff not_None_eq)
      with typed [OF c] nn c show ?thesis by (auto simp: value_ok_def row_get_def list_all_iff)
    qed
    moreover have "length r = length (Columns sch)" using arg_cong [OF shape(1), of length] by simp
    ultimately show "encode sch r = Inr (row_bytes sch r)" using encode_ok [OF ok] by (simp add: row_typed_iff)
    show "drop (null_bytes sch) (row_bytes sch r) = drop (null_bytes sch) d"
      using shape(6) by (simp add: row_bytes_def)
    then show "length (row_bytes sch r) = length d"
      using shape(5) arg_cong [OF shape(6), of length] by (simp add: row_bytes_def)
    show "list_all (\<lambda>c. is_null (indexOf (Columns sch) c) (row_bytes sch r) = is_null (indexOf (Columns sch) c) d) (Columns sch)"
      using row_bytes_null [OF ok] shape(4) by (fastforce simp: list_all_iff has_type_def split: if_splits)
  qed
  with shape(1,2) typed show ?thesis by (simp add: list_all_iff)
qed

theorem decode_encode_witness:
  "\<exists>b. encode example_schema (canonical example_schema example_row) = Inr b \<and>
     length b = length (row_bytes example_schema example_row)"
proof -
  have ok: "validate example_schema = Inr ()" by (simp add: validate_def example_simps)
  have d: "decode example_schema (row_bytes example_schema example_row) = Inr (canonical example_schema example_row)"
    using ok by (intro decode_row_bytes)
      (auto simp: validate_ok row_typed_def has_type_def constraint_def short_value_def row_get_def example_simps)
  have "list_all (\<lambda>c. row_get (canonical example_schema example_row) (col_Name c) = GoNil \<longrightarrow>
      \<not> NotNull (constraint example_schema (col_Name c))) (Columns example_schema)"
    by (simp add: canonical_def canonical_value_def row_get_def constraint_def example_simps)
  with decode_encode [OF ok d] show ?thesis by blast
qed

end
