(* ===== verification/Table_Index.thy ===== *)
theory Table_Index
  imports Table_Format
begin

text \<open>
  The secondary indexes of a table. Adding and removing a key are two instances of one interface,
  a change of the keys under one value; the loop over the columns is analysed once for both.
\<close>

section \<open>One index\<close>

definition keys_of :: "secondary_index \<Rightarrow> val \<Rightarrow> bytes list" where
  "keys_of m v = (case map_of m v of None \<Rightarrow> [] | Some ks \<Rightarrow> ks)"

text \<open>No value without keys, and every key once: a map of sets.\<close>

definition index_wf :: "secondary_index \<Rightarrow> bool" where
  "index_wf m \<longleftrightarrow> (\<forall>v ks. map_of m v = Some ks \<longrightarrow> ks \<noteq> [] \<and> distinct ks)"

lemma index_wf_Nil [simp]: "index_wf []"
  by (simp add: index_wf_def)

lemma keys_of_Nil [simp]: "keys_of [] v = []"
  by (simp add: keys_of_def)

lemma index_wf_distinct: "index_wf m \<Longrightarrow> distinct (keys_of m v)"
  by (auto simp: index_wf_def keys_of_def split: option.splits)

lemma index_wf_keys: "index_wf m \<Longrightarrow> map_of m v = (if keys_of m v = [] then None else Some (keys_of m v))"
  by (auto simp: index_wf_def keys_of_def split: option.splits)

locale value_index =
  fixes change :: "val \<Rightarrow> secondary_index \<Rightarrow> secondary_index"
    and effect :: "bytes list \<Rightarrow> bytes list"
  assumes keys_change: "keys_of (change v m) w = (if w = v then effect (keys_of m v) else keys_of m w)"
    and wf_change: "index_wf m \<Longrightarrow> index_wf (change v m)"
begin

lemma column_change:
  "column_index n (AList.update a (change v (column_index a sec)) sec) =
     (if n = a then change v (column_index a sec) else column_index n sec)"
  by (simp add: column_index_def update_conv')

lemma wf_columns:
  "(\<And>n. index_wf (column_index n sec)) \<Longrightarrow> index_wf (column_index n (index_columns change cs r sec))"
  by (induction cs arbitrary: sec) (auto simp: column_change wf_change)

lemma keys_columns:
  "distinct (map col_Name cs) \<Longrightarrow>
     keys_of (column_index n (index_columns change cs r sec)) w =
       (if n \<in> col_Name ` set cs \<and> w = indexValue (row_get r n) then effect (keys_of (column_index n sec) w)
        else keys_of (column_index n sec) w)"
  by (induction cs arbitrary: sec) (auto simp: column_change keys_change)

lemma dom_columns:
  "map_of (index_columns change cs r sec) n \<noteq> None \<longleftrightarrow> n \<in> col_Name ` set cs \<or> map_of sec n \<noteq> None"
  by (induction cs arbitrary: sec) (auto simp: update_conv')

end

lemma keys_of_update: "keys_of (AList.update v ks m) w = (if w = v then ks else keys_of m w)"
  by (simp add: keys_of_def update_conv')

lemma keys_of_delete: "keys_of (AList.delete v m) w = (if w = v then [] else keys_of m w)"
  by (simp add: keys_of_def delete_conv')

interpretation adding: value_index "add_key key" "List.insert key" for key
proof
  fix v m w
  show "keys_of (add_key key v m) w = (if w = v then List.insert key (keys_of m v) else keys_of m w)"
    by (simp add: add_key_def keys_of_update) (simp add: keys_of_def)
  show "index_wf m \<Longrightarrow> index_wf (add_key key v m)"
    by (auto simp: index_wf_def add_key_def update_conv' split: option.splits if_splits)
      (metis List.insert_def list.discI)
qed

interpretation removing: value_index "remove_key key" "removeAll key" for key
proof
  fix v m w
  show "keys_of (remove_key key v m) w = (if w = v then removeAll key (keys_of m v) else keys_of m w)"
    by (auto simp: remove_key_def Let_def keys_of_update keys_of_delete split: option.splits)
      (auto simp: keys_of_def)
  show "index_wf m \<Longrightarrow> index_wf (remove_key key v m)"
    by (auto simp: index_wf_def remove_key_def Let_def update_conv' delete_conv' distinct_removeAll
        split: option.splits if_splits)
qed

section \<open>The indexes of a table\<close>

text \<open>
  The rows of a table as a map from keys to rows, and what the indexes say of them: every column
  but the first has an index, which holds under each value the keys of the rows with it.
\<close>

type_synonym rows = "bytes \<rightharpoonup> row"

definition indexes :: "Schema \<Rightarrow> rows \<Rightarrow> (bytes \<times> secondary_index) list \<Rightarrow> bool" where
  "indexes sch m sec \<longleftrightarrow>
     (\<forall>n. map_of sec n \<noteq> None \<longleftrightarrow> n \<in> col_Name ` set (tl (Columns sch))) \<and>
     (\<forall>n. index_wf (column_index n sec)) \<and>
     (\<forall>n \<in> col_Name ` set (tl (Columns sch)). \<forall>v.
        set (keys_of (column_index n sec) v) = {k. \<exists>r. m k = Some r \<and> indexValue (row_get r n) = v})"

lemma indexesD:
  "indexes sch m sec \<Longrightarrow> n \<in> col_Name ` set (tl (Columns sch)) \<Longrightarrow>
     set (keys_of (column_index n sec) v) = {k. \<exists>r. m k = Some r \<and> indexValue (row_get r n) = v}"
  "indexes sch m sec \<Longrightarrow> index_wf (column_index n sec)"
  unfolding indexes_def by blast+

lemma map_of_new: "map_of (map (\<lambda>c. (col_Name c, [])) cs) n = (if n \<in> col_Name ` set cs then Some [] else None)"
  by (induction cs) auto

lemma indexes_new: "indexes sch Map.empty (map (\<lambda>c. (col_Name c, [])) (tl (Columns sch)))"
  by (simp add: indexes_def column_index_def map_of_new)

lemma tl_distinct: "distinct (map f xs) \<Longrightarrow> distinct (map f (tl xs))"
  by (cases xs) auto

lemma indexes_add:
  assumes "indexes sch m sec" and "schema_ok sch" and "m key = None"
  shows "indexes sch (m(key \<mapsto> r)) (index_columns (add_key key) (tl (Columns sch)) r sec)"
  using assms adding.keys_columns [of "tl (Columns sch)"] adding.wf_columns adding.dom_columns
    tl_distinct [of col_Name "Columns sch"]
  unfolding indexes_def schema_ok_def by auto

lemma indexes_remove:
  assumes "indexes sch m sec" and "schema_ok sch" and "m key = Some r"
  shows "indexes sch (m(key := None)) (index_columns (remove_key key) (tl (Columns sch)) r sec)"
  using assms removing.keys_columns [of "tl (Columns sch)"] removing.wf_columns removing.dom_columns
    tl_distinct [of col_Name "Columns sch"]
  unfolding indexes_def schema_ok_def by auto

text \<open>Indexing looks at the values only, so rows with the same renderings are indexed alike.\<close>

lemma index_columns_cong:
  "(\<And>c. c \<in> set cs \<Longrightarrow> indexValue (row_get r (col_Name c)) = indexValue (row_get r' (col_Name c))) \<Longrightarrow>
     index_columns f cs r sec = index_columns f cs r' sec"
  by (induction cs arbitrary: sec) auto

end
