(* ===== verification/Table_Correct.thy ===== *)
theory Table_Correct
  imports Table_Index Store_Recovery "HOL-Library.Multiset"
begin

text \<open>
  A table over a session of the store is a map from keys to rows: its operations as changes of that map,
  the secondary indexes and the UNIQUE constraints as invariants.
\<close>

section \<open>The rows of a table\<close>

definition decodes :: "Schema \<Rightarrow> bytes option \<Rightarrow> row option \<Rightarrow> bool" where
  "decodes sch b r \<longleftrightarrow>
     (case b of None \<Rightarrow> r = None | Some b \<Rightarrow> \<exists>x. decode sch b = Inr x \<and> r = Some x)"

definition stored_rows :: "Store \<Rightarrow> Schema \<Rightarrow> rows \<Rightarrow> bool" where
  "stored_rows s sch m \<longleftrightarrow> btree_ok (index s) \<and> (\<forall>k. decodes sch (map_of (tree_entries (index s)) k) (m k))"

text \<open>What reading a table relies on: a sound index whose values decode to the rows, and the secondary indexes.\<close>

definition table_view :: "Table \<Rightarrow> rows \<Rightarrow> bool" where
  "table_view t m \<longleftrightarrow>
     stored_rows (store t) (schema t) m \<and> schema_ok (schema t) \<and> Columns (schema t) \<noteq> [] \<and> indexes (schema t) m (secondary t)"

text \<open>A table whose store is in a session, with the log \<open>h\<close>.\<close>

definition table_state :: "Table \<Rightarrow> chain \<Rightarrow> log_rec list \<Rightarrow> rows \<Rightarrow> bool" where
  "table_state t c h m \<longleftrightarrow> session (store t) c h \<and> table_view t m"

text \<open>The rows in the order of their keys.\<close>

definition row_list :: "rows \<Rightarrow> row list" where
  "row_list m = map (\<lambda>k. the (m k)) (sorted_list_of_set (dom m))"

lemma table_viewD:
  assumes "table_view t m"
  shows "btree_ok (index (store t))" "schema_ok (schema t)" "Columns (schema t) \<noteq> []" "indexes (schema t) m (secondary t)"
    "decodes (schema t) (map_of (tree_entries (index (store t))) k) (m k)" "stored_rows (store t) (schema t) m"
  using assms by (simp_all add: table_view_def stored_rows_def)

lemma table_stateD:
  assumes "table_state t c h m"
  shows "table_view t m" "session (store t) c h" "schema_ok (schema t)" "decodes (schema t) (log_map h k) (m k)"
  using assms sessionD(4) [of "store t" c h] by (simp_all add: table_state_def table_view_def stored_rows_def)

lemma table_Get_stored:
  assumes "stored_rows (store t) (schema t) m"
  shows "table_Get key t = Inr (m key)"
proof -
  have "btree_ok (index (store t))" "decodes (schema t) (map_of (tree_entries (index (store t))) key) (m key)"
    using assms by (simp_all add: stored_rows_def)
  then show ?thesis
    by (auto simp: table_Get_def store_Get_def btree_get_correct decodes_def split: option.splits)
qed

lemmas table_Get_view = table_Get_stored [OF table_viewD(6)]

lemma decode_rows_map:
  "\<forall>(k, b) \<in> set es. decode sch b = Inr (f k) \<Longrightarrow> decode_rows sch (map snd es) = Inr (map f (map fst es))"
  by (induction es) auto

lemma stored_keys:
  assumes t: "stored_rows s sch m"
  shows "map fst (tree_entries (index s)) = sorted_list_of_set (dom m)" "finite (dom m)"
proof -
  let ?es = "tree_entries (index s)"
  have "sorted_keys ?es" using tree_entries_sorted t by (auto simp: stored_rows_def)
  moreover have "set (map fst ?es) = dom m"
  proof -
    have "map_of ?es k = None \<longleftrightarrow> m k = None" for k
    proof -
      have "decodes sch (map_of ?es k) (m k)" using t by (simp add: stored_rows_def)
      then show ?thesis by (cases "map_of ?es k") (auto simp: decodes_def)
    qed
    then have "dom (map_of ?es) = dom m" by (auto simp: dom_def)
    then show ?thesis by (simp add: dom_map_of_conv_image_fst)
  qed
  ultimately show "map fst ?es = sorted_list_of_set (dom m)" "finite (dom m)"
    by (metis sorted_list_of_set.idem_if_sorted_distinct strict_sorted_iff, metis List.finite_set)
qed

lemma Scan_stored:
  assumes t: "stored_rows (store t) (schema t) m"
  shows "Scan t = Inr (row_list m)"
proof -
  let ?es = "tree_entries (index (store t))"
  have ok: "btree_ok (index (store t))" using t by (simp add: stored_rows_def)
  have "decode (schema t) b = Inr (the (m k))" if "(k, b) \<in> set ?es" for k b
  proof -
    have "decodes (schema t) (map_of ?es k) (m k)" using t by (simp add: stored_rows_def)
    then show ?thesis using entries_map [OF ok that] by (auto simp: decodes_def)
  qed
  then have "decode_rows (schema t) (map snd ?es) = Inr (map (\<lambda>k. the (m k)) (map fst ?es))"
    by (intro decode_rows_map) auto
  then show ?thesis
    using ok stored_keys(1) [OF t] by (simp add: Scan_def btree_entries_correct row_list_def)
qed

lemmas Scan_view = Scan_stored [OF table_viewD(6)] and table_finite = stored_keys(2) [OF table_viewD(6)]

lemma row_list_set: "finite (dom m) \<Longrightarrow> r \<in> set (row_list m) \<longleftrightarrow> (\<exists>k. m k = Some r)"
  by (force simp: row_list_def dom_def)

section \<open>Looking rows up by value\<close>

lemma get_all_some:
  "(\<And>k. k \<in> set ks \<Longrightarrow> get k = Inr (Some (f k))) \<Longrightarrow> get_all get ks = Inr (map f ks)"
  by (induction ks) auto

lemma Find_keys:
  assumes t: "table_view t m" and n: "n \<in> col_Name ` set (tl (Columns (schema t)))" and ord: "\<And>ks. mset (ord ks) = mset ks"
  shows "\<exists>ks. Find ord n v t = Inr (map (\<lambda>k. the (m k)) ks) \<and>  distinct ks \<and>
    set ks = {k. \<exists>r. m k = Some r \<and> indexValue (row_get r n) = indexValue v}"
proof -
  let ?i = "column_index n (secondary t)" and ?v = "indexValue v"
  from table_viewD(4) [OF t] n have i: "index_wf ?i"
    "set (keys_of ?i ?v) = {k. \<exists>r. m k = Some r \<and> indexValue (row_get r n) = ?v}"
    by (auto simp: indexes_def)
  have set: "set (ord ks) = set ks" "distinct (ord ks) = distinct ks" for ks
    using ord [of ks] mset_eq_setD [of "ord ks" ks] mset_eq_imp_distinct_iff [of "ord ks" ks] by auto
  show ?thesis
  proof (cases "keys_of ?i ?v = []")
    case True
    with i show ?thesis by (intro exI [of _ "[]"]) (auto simp: Find_def index_wf_keys)
  next
    case False
    have "get_all (\<lambda>k. table_Get k t) (ord (keys_of ?i ?v)) = Inr (map (\<lambda>k. the (m k)) (ord (keys_of ?i ?v)))"
      using i(2) by (intro get_all_some) (auto simp: set table_Get_view [OF t])
    with False i show ?thesis
      by (intro exI [of _ "ord (keys_of ?i ?v)"]) (auto simp: Find_def index_wf_keys set index_wf_distinct)
  qed
qed

section \<open>Inserting a row\<close>

text \<open>
  The rows a client may insert here: the row is stored under its key, the stored form of each value has the rendering of
  the value itself, and the record fits on a page.
\<close>

definition good_row :: "Schema \<Rightarrow> bytes \<Rightarrow> row \<Rightarrow> bool" where
  "good_row sch key r \<longleftrightarrow>
     row_key sch (canonical sch r) = key \<and>
     list_all (\<lambda>c. indexValue (canonical_value (col_Type c) (row_get r (col_Name c))) = indexValue (row_get r (col_Name c)))
       (Columns sch) \<and>
     small (flagLive, key, row_bytes sch r)"

definition conflict :: "Schema \<Rightarrow> rows \<Rightarrow> bytes \<Rightarrow> row \<Rightarrow> bool" where
  "conflict sch m key r \<longleftrightarrow>
     (\<exists>c \<in> set (Columns sch). Unique (constraint sch (col_Name c)) \<and> row_get r (col_Name c) \<noteq> GoNil \<and>
        (\<exists>k r'. m k = Some r' \<and> k \<noteq> key \<and> indexValue (row_get r' (col_Name c)) = indexValue (row_get r (col_Name c))))"

definition keyed :: "Schema \<Rightarrow> rows \<Rightarrow> bool" where
  "keyed sch m \<longleftrightarrow> (\<forall>k r. m k = Some r \<longrightarrow> row_key sch r = k)"

definition unique_rows :: "Schema \<Rightarrow> rows \<Rightarrow> bool" where
  "unique_rows sch m \<longleftrightarrow>
     (\<forall>c \<in> set (Columns sch). Unique (constraint sch (col_Name c)) \<longrightarrow>
        (\<forall>k k' r r'. m k = Some r \<longrightarrow> m k' = Some r' \<longrightarrow> row_get r (col_Name c) \<noteq> GoNil \<longrightarrow>
           indexValue (row_get r (col_Name c)) = indexValue (row_get r' (col_Name c)) \<longrightarrow> k = k'))"

lemma row_get_canonical:
  "schema_ok sch \<Longrightarrow> c \<in> set (Columns sch) \<Longrightarrow>
     row_get (canonical sch r) (col_Name c) = canonical_value (col_Type c) (row_get r (col_Name c))"
proof -
  assume ok: "schema_ok sch" and c: "c \<in> set (Columns sch)"
  then have "map_of (canonical sch r) (col_Name c) = Some (canonical_value (col_Type c) (row_get r (col_Name c)))"
    by (intro map_of_is_SomeI) (auto simp: canonical_def schema_ok_def comp_def)
  then show ?thesis by (simp add: row_get_def)
qed

lemma good_row_index:
  "schema_ok sch \<Longrightarrow> good_row sch key r \<Longrightarrow> c \<in> set (Columns sch) \<Longrightarrow>
     indexValue (row_get (canonical sch r) (col_Name c)) = indexValue (row_get r (col_Name c))"
  by (simp add: row_get_canonical good_row_def list_all_iff)

lemma indexValue_nil: "indexValue v = GoNil \<longleftrightarrow> v = GoNil"
  by (auto simp: indexValue_def split: val.splits)

lemma unique_insert:
  assumes "unique_rows sch m" and "schema_ok sch" and "good_row sch key r" and "\<not> conflict sch m key r"
  shows "unique_rows sch (m(key \<mapsto> canonical sch r))"
  unfolding unique_rows_def
proof (intro ballI impI allI)
  fix c k k' q q'
  assume c: "c \<in> set (Columns sch)" and u: "Unique (constraint sch (col_Name c))"
    and q: "(m(key \<mapsto> canonical sch r)) k = Some q" and q': "(m(key \<mapsto> canonical sch r)) k' = Some q'"
    and nn: "row_get q (col_Name c) \<noteq> GoNil" and eq: "indexValue (row_get q (col_Name c)) = indexValue (row_get q' (col_Name c))"
  note same = good_row_index [OF assms(2,3) c]
  have nn': "row_get q' (col_Name c) \<noteq> GoNil" using nn eq indexValue_nil by metis
  show "k = k'"
  proof (rule ccontr)
    assume ne: "k \<noteq> k'"
    consider "k = key" | "k' = key" | "k \<noteq> key" "k' \<noteq> key" by blast
    then show False
    proof cases
      case 1
      with q q' ne have "q = canonical sch r" "m k' = Some q'" by auto
      with 1 assms(4) c u nn eq same ne show False unfolding conflict_def by (metis indexValue_nil)
    next
      case 2
      with q q' ne have "q' = canonical sch r" "m k = Some q" by auto
      with 2 assms(4) c u nn' eq same ne show False unfolding conflict_def by (metis indexValue_nil)
    next
      case 3
      with q q' assms(1) c u nn eq ne show False unfolding unique_rows_def by auto
    qed
  qed
qed

lemma unique_remove: "unique_rows sch m \<Longrightarrow> unique_rows sch (m(key := None))"
  unfolding unique_rows_def by (auto split: if_splits)

lemma unique_violated_iff:
  "(\<exists>name. unique_violated sch key r rows cs = Some name) \<longleftrightarrow>
     (\<exists>c \<in> set cs. Unique (constraint sch (col_Name c)) \<and> row_get r (col_Name c) \<noteq> GoNil \<and>
        (\<exists>old \<in> set rows. row_key sch old \<noteq> key \<and> indexValue (row_get old (col_Name c)) = indexValue (row_get r (col_Name c))))"
  by (induction cs) auto

lemma validateConstraints_stored:
  assumes t: "stored_rows (store t) (schema t) m" and k: "keyed (schema t) m"
  shows "validateConstraints key r t =
    (if conflict (schema t) m key r
     then Inl (ErrMsg ''unique constraint failed: %s'' [the (unique_violated (schema t) key r (row_list m) (Columns (schema t)))])
     else Inr ())"
proof -
  have "(\<exists>name. unique_violated (schema t) key r (row_list m) (Columns (schema t)) = Some name) \<longleftrightarrow> conflict (schema t) m key r"
    unfolding unique_violated_iff conflict_def using k row_list_set [OF stored_keys(2) [OF t]] unfolding keyed_def by metis
  then show ?thesis
    by (auto simp: validateConstraints_def Scan_stored [OF t] split: option.splits)
qed

lemmas validateConstraints_view = validateConstraints_stored [OF table_viewD(6)]

lemma session_Put:
  assumes "session s c h" and "small (flagLive, key, v)" and "length h + 1 < 2 ^ 32 - 1"
  shows "\<exists>s' c'. store_Put key v s = (s', Inr ()) \<and> session s' c' (h @ [(flagLive, key, v)])"
  using session_call [OF assms(1), of "DoPut key v"] assms(2,3) by auto

lemma session_Delete:
  assumes "session s c h" and "small (flagTombstone, key, [])" and "length h + 1 < 2 ^ 32 - 1"
  shows "\<exists>s' c'. store_Delete key s = (s', Inr ()) \<and> session s' c' (h @ [(flagTombstone, key, [])])"
  using session_call [OF assms(1), of "DoDelete key"] assms(2,3) by auto

lemma value_bytes_short:
  "column_ok c \<Longrightarrow> has_type (col_Type c) v \<Longrightarrow> length (value_bytes c v) < 2 ^ 32 \<Longrightarrow> short_value v"
  by (auto simp: has_type_def value_bytes_def encode_value_def short_value_def type_defs split: val.splits option.splits)

lemma short_small:
  assumes "row_typed sch r" and "schema_ok sch" and "small (flagLive, key, row_bytes sch r)" and c: "c \<in> set (Columns sch)"
  shows "short_value (row_get r (col_Name c))"
proof (cases "row_get r (col_Name c) = GoNil")
  case False
  let ?v = "row_get r (col_Name c)"
  have "column_ok c" "has_type (col_Type c) ?v"
    using assms(1,2) c False by (auto simp: schema_ok_def row_typed_def row_get_def)
  moreover have "length (value_bytes c ?v) \<le> length (row_bytes sch r)"
  proof -
    have "length (column_bytes r c) \<le> sum_list (map length (map (column_bytes r) (Columns sch)))"
      using c by (intro member_le_sum_list) auto
    then show ?thesis using False by (simp add: row_bytes_def length_concat column_bytes_def)
  qed
  moreover have "length (row_bytes sch r) < 2 ^ 32"
    using assms(3) by (simp add: small_def rec_len_def PageSize_def HeaderSize_def)
  ultimately show ?thesis by (intro value_bytes_short [of c]) simp_all
qed (simp add: short_value_def)

lemma on_store_eq: "f (store t) = (s, Inr x) \<Longrightarrow> on_store f t = (t\<lparr>store := s\<rparr>, Inr x)"
  by (simp add: on_store_def)

lemma stored_write:
  assumes "stored_rows s0 sch m" and "session s0 c h" and s: "session s c' (h @ [l])"
    and "\<And>k. decodes sch (log_map h k) (m k) \<Longrightarrow> decodes sch (log_step l (log_map h) k) (m' k)"
  shows "stored_rows s sch m'"
  using assms(1,4) sessionD(4) [OF assms(2)] sessionD(3,4) [OF s] by (simp add: stored_rows_def)

lemma Insert_exec:
  assumes st: "stored_rows (store t) (schema t) m" and "session (store t) c h" and ok: "schema_ok (schema t)"
    and k: "keyed (schema t) m" and typed: "row_typed (schema t) r" and sm: "small (flagLive, key, row_bytes (schema t) r)"
    and free: "\<not> conflict (schema t) m key r" and few: "length h + 1 < 2 ^ 32 - 1"
  defines "cs \<equiv> tl (Columns (schema t))"
  defines "old \<equiv> (case m key of None \<Rightarrow> secondary t | Some q \<Rightarrow> index_columns (remove_key key) cs q (secondary t))"
  shows "\<exists>s c'. table_Insert key r t = (t\<lparr>store := s, secondary := index_columns (add_key key) cs r old\<rparr>, Inr ()) \<and>
    session s c' (h @ [(flagLive, key, row_bytes (schema t) r)]) \<and> stored_rows s (schema t) (m(key \<mapsto> canonical (schema t) r))"
proof -
  let ?sch = "schema t" and ?b = "row_bytes (schema t) r" and ?r = "canonical (schema t) r"
  from session_Put [OF assms(2) sm few] obtain s c' where
    s: "store_Put key ?b (store t) = (s, Inr ())" "session s c' (h @ [(flagLive, key, ?b)])" by blast
  have "decode ?sch ?b = Inr ?r"
    using short_small [OF typed ok sm] by (intro decode_row_bytes [OF ok typed]) auto
  then have "stored_rows s ?sch (m(key \<mapsto> ?r))"
    by (intro stored_write [OF st assms(2) s(2)]) (simp add: log_step_def decodes_def)
  moreover have "table_Insert key r t = (t\<lparr>store := s, secondary := index_columns (add_key key) cs r old\<rparr>, Inr ())"
    using free on_store_eq [where f = "store_Put key ?b", OF s(1)]
    by (cases "m key") (simp_all add: table_Insert_def encode_ok [OF ok typed] validateConstraints_stored [OF st k]
        table_Get_stored [OF st] indexRow_def unindexRow_def old_def cs_def)
  ultimately show ?thesis using s(2) by blast
qed

lemma Insert_correct:
  assumes t: "table_state t c h m" and k: "keyed (schema t) m" and typed: "row_typed (schema t) r"
    and good: "good_row (schema t) key r" and free: "\<not> conflict (schema t) m key r" and few: "length h + 1 < 2 ^ 32 - 1"
  shows "\<exists>t' c' h'. table_Insert key r t = (t', Inr ()) \<and> table_state t' c' h' (m(key \<mapsto> canonical (schema t) r)) \<and>
    schema t' = schema t \<and> length h' = length h + 1"
proof -
  let ?sch = "schema t" and ?r = "canonical (schema t) r" and ?cs = "tl (Columns (schema t))"
  note view = table_stateD(1) [OF t] and ok = table_stateD(3) [OF t]
  have sm: "small (flagLive, key, row_bytes ?sch r)" using good by (simp add: good_row_def)
  define old where "old = (case m key of None \<Rightarrow> secondary t | Some q \<Rightarrow> index_columns (remove_key key) ?cs q (secondary t))"
  let ?sec = "index_columns (add_key key) ?cs r old"
  have same: "index_columns (add_key key) ?cs r old = index_columns (add_key key) ?cs ?r old"
    using good_row_index [OF ok good] table_viewD(3) [OF view] by (intro index_columns_cong) (metis list.set_sel(2))
  have "indexes ?sch (m(key := None)) old"
    using table_viewD(4) [OF view] indexes_remove [OF table_viewD(4) [OF view] ok]
    by (cases "m key") (auto simp: old_def fun_upd_idem)
  from indexes_add [OF this ok, of key ?r] have sec: "indexes ?sch (m(key \<mapsto> ?r)) ?sec" by (simp add: same)
  from Insert_exec [OF table_viewD(6) [OF view] table_stateD(2) [OF t] ok k typed sm free few] obtain s c' where
    s: "table_Insert key r t = (t\<lparr>store := s, secondary := ?sec\<rparr>, Inr ())"
    "session s c' (h @ [(flagLive, key, row_bytes ?sch r)])" "stored_rows s ?sch (m(key \<mapsto> ?r))"
    unfolding old_def by blast
  have "table_state (t\<lparr>store := s, secondary := ?sec\<rparr>) c' (h @ [(flagLive, key, row_bytes ?sch r)]) (m(key \<mapsto> ?r))"
    using s sec ok table_viewD(3) [OF view] by (simp add: table_state_def table_view_def)
  with s(1) show ?thesis by fastforce
qed

lemma Insert_refused:
  assumes view: "table_view t m" and k: "keyed (schema t) m"
    and "\<not> row_typed (schema t) r \<or> conflict (schema t) m key r"
  shows "\<exists>err. table_Insert key r t = (t, Inl err)"
  using assms(3) encode_error [OF table_viewD(2) [OF view], of r]
  by (auto simp: table_Insert_def validateConstraints_view [OF view k] split: sum.splits)

section \<open>Deleting a row\<close>

lemma Delete_correct:
  assumes t: "table_state t c h m" and few: "length h + 1 < 2 ^ 32 - 1"
  shows "\<exists>t' c' h'. table_Delete key t = (t', Inr ()) \<and> table_state t' c' h' (m(key := None)) \<and>
    schema t' = schema t \<and> length h' = length h + (if m key = None then 0 else 1)"
proof (cases "m key")
  case None
  then have "table_Delete key t = (t, Inr ())" by (simp add: table_Delete_def table_Get_view [OF table_stateD(1) [OF t]])
  moreover have "m(key := None) = m" using None by (rule fun_upd_idem)
  ultimately show ?thesis using t None by auto
next
  case (Some r)
  let ?sch = "schema t"
  let ?sec = "index_columns (remove_key key) (tl (Columns ?sch)) r (secondary t)"
  note view = table_stateD(1) [OF t] and ok = table_stateD(3) [OF t]
  from Some table_stateD(4) [OF t, of key] obtain b where "log_map h key = Some b"
    by (auto simp: decodes_def split: option.splits)
  then have "small (flagLive, key, b)" using log_map_Some table_stateD(2) [OF t] by (auto simp: session_def)
  then have "small (flagTombstone, key, [])" by (simp add: small_def rec_len_def)
  from session_Delete [OF table_stateD(2) [OF t] this few] obtain s c' where
    s: "store_Delete key (store t) = (s, Inr ())" "session s c' (h @ [(flagTombstone, key, [])])" by blast
  have sec: "indexes ?sch (m(key := None)) ?sec" using indexes_remove [OF table_viewD(4) [OF view] ok Some] .
  have "stored_rows s ?sch (m(key := None))"
    by (rule stored_write [OF table_viewD(6) [OF view] table_stateD(2) [OF t] s(2)])
      (simp add: log_step_def decodes_def flagLive_def flagTombstone_def)
  then have st: "table_state (t\<lparr>store := s, secondary := ?sec\<rparr>) c' (h @ [(flagTombstone, key, [])]) (m(key := None))"
    using s(2) sec ok table_viewD(3) [OF view] by (simp add: table_state_def table_view_def)
  have "table_Delete key t = (t\<lparr>store := s, secondary := ?sec\<rparr>, Inr ())"
    using on_store_eq [where f = "store_Delete key", OF s(1)] Some
    by (simp add: table_Delete_def table_Get_view [OF view] unindexRow_def)
  with st Some show ?thesis by fastforce
qed

section \<open>Deleting by condition\<close>

lemma keyed_updates:
  "keyed sch m \<Longrightarrow> row_key sch r = key \<Longrightarrow> keyed sch (m(key \<mapsto> r))" "keyed sch m \<Longrightarrow> keyed sch (m(key := None))"
  by (simp_all add: keyed_def)

lemma row_list_keys: "finite (dom m) \<Longrightarrow> row_list m = map (\<lambda>k. the (m k)) (sorted_list_of_set (dom m)) \<and>
    distinct (sorted_list_of_set (dom m)) \<and> set (sorted_list_of_set (dom m)) = dom m"
  by (simp add: row_list_def)

lemma delete_rows_correct:
  "table_state t c h m \<Longrightarrow> keyed (schema t) m \<Longrightarrow> distinct ks \<Longrightarrow> (\<And>k. k \<in> set ks \<Longrightarrow> m k = Some (f k)) \<Longrightarrow>
     length h + length ks < 2 ^ 32 - 1 \<Longrightarrow>
     \<exists>t' c' h'. delete_rows p (map f ks) n t = (t', n + length (filter (\<lambda>k. p (f k)) ks), None) \<and>
       table_state t' c' h' (m |` (- {k \<in> set ks. p (f k)})) \<and> schema t' = schema t \<and>
       length h' = length h + length (filter (\<lambda>k. p (f k)) ks)"
proof (induction ks arbitrary: t c h m n)
  case Nil
  then show ?case by (intro exI [of _ t] exI [of _ c] exI [of _ h]) simp
next
  case (Cons k ks)
  show ?case
  proof (cases "p (f k)")
    case False
    have "{x \<in> set (k # ks). p (f x)} = {x \<in> set ks. p (f x)}" using False by auto
    with False Cons.IH [OF Cons.prems(1,2), of n] Cons.prems(3-5) show ?thesis by auto
  next
    case True
    have k: "m k = Some (f k)" "row_key (schema t) (f k) = k" using Cons.prems(2,4) by (auto simp: keyed_def)
    from Delete_correct [OF Cons.prems(1), of k] Cons.prems(5) k obtain t1 c1 h1 where
      t1: "table_Delete k t = (t1, Inr ())" "table_state t1 c1 h1 (m(k := None))" "schema t1 = schema t" "length h1 = length h + 1"
      by auto
    have kd: "keyed (schema t1) (m(k := None))" using Cons.prems(2) t1(3) by (simp add: keyed_updates)
    have some: "(m(k := None)) x = Some (f x)" if "x \<in> set ks" for x using that Cons.prems(3,4) by auto
    have "distinct ks" "length h1 + length ks < 2 ^ 32 - 1" using Cons.prems(3,5) t1(4) by auto
    from Cons.IH [OF t1(2) kd this(1) some this(2), of "Suc n"] obtain t' c' h' where
      t': "delete_rows p (map f ks) (Suc n) t1 = (t', Suc n + length (filter (\<lambda>k. p (f k)) ks), None)"
      "table_state t' c' h' ((m(k := None)) |` (- {k \<in> set ks. p (f k)}))" "schema t' = schema t1"
      "length h' = length h1 + length (filter (\<lambda>k. p (f k)) ks)"
      by blast
    have "(m(k := None)) |` (- {x \<in> set ks. p (f x)}) = m |` (- {x \<in> set (k # ks). p (f x)})"
      using True by (auto simp: restrict_map_def fun_eq_iff)
    with t1 t' True k(2) show ?thesis by (intro exI [of _ t'] exI [of _ c'] exI [of _ h']) simp
  qed
qed

lemma DeleteWhere_state:
  assumes t: "table_state t c h m" and "keyed (schema t) m" and few: "length h + card (dom m) < 2 ^ 32 - 1"
  shows "\<exists>t' c' h'. DeleteWhere p t = (t', length (filter p (row_list m)), None) \<and>
    table_state t' c' h' (m |` {k. \<forall>r. m k = Some r \<longrightarrow> \<not> p r}) \<and> schema t' = schema t \<and>
    length h' = length h + length (filter p (row_list m))"
proof -
  let ?ks = "sorted_list_of_set (dom m)" and ?f = "\<lambda>k. the (m k)"
  note view = table_stateD(1) [OF t] and fin = table_finite [OF table_stateD(1) [OF t]]
  have "m |` (- {k \<in> set ?ks. p (?f k)}) = m |` {k. \<forall>r. m k = Some r \<longrightarrow> \<not> p r}"
    using fin by (auto simp: restrict_map_def fun_eq_iff)
  moreover have "length (filter (\<lambda>k. p (?f k)) ?ks) = length (filter p (row_list m))"
    by (simp add: row_list_def filter_map comp_def)
  moreover have "distinct ?ks" "length h + length ?ks < 2 ^ 32 - 1" using few by auto
  moreover have "m k = Some (?f k)" if "k \<in> set ?ks" for k using that fin by auto
  ultimately show ?thesis
    using delete_rows_correct [OF t assms(2), of ?ks ?f p 0]
    by (simp add: DeleteWhere_def deleteRows_def Scan_view [OF view] flip: row_list_def)
qed

section \<open>Opening a table\<close>

lemma index_rows:
  assumes ok: "schema_ok sch" and keyed: "keyed sch m"
  shows "schema t = sch \<Longrightarrow> indexes sch m0 (secondary t) \<Longrightarrow> set ks \<subseteq> dom m \<Longrightarrow> distinct ks \<Longrightarrow> dom m0 \<inter> set ks = {} \<Longrightarrow>
    \<exists>sec. fold (\<lambda>r. indexRow (row_key sch r) r) (map (\<lambda>k. the (m k)) ks) t = t\<lparr>secondary := sec\<rparr> \<and>
      indexes sch (m0 ++ m |` set ks) sec"
proof (induction ks arbitrary: t m0)
  case Nil
  then show ?case by (intro exI [of _ "secondary t"]) simp
next
  case (Cons k ks)
  then obtain r where r: "m k = Some r" "row_key sch r = k" using keyed by (auto simp: keyed_def)
  let ?t = "indexRow k r t"
  have "m0 k = None" using Cons.prems(5) by auto
  with indexes_add [OF Cons.prems(2) ok] Cons.prems(1) have ix: "indexes sch (m0(k \<mapsto> r)) (secondary ?t)"
    by (simp add: indexRow_def)
  have "schema ?t = sch" "set ks \<subseteq> dom m" "distinct ks" "dom (m0(k \<mapsto> r)) \<inter> set ks = {}"
    using Cons.prems by (auto simp: indexRow_def)
  from Cons.IH [OF this(1) ix this(2-4)] obtain sec where
    "fold (\<lambda>r. indexRow (row_key sch r) r) (map (\<lambda>k. the (m k)) ks) ?t = ?t\<lparr>secondary := sec\<rparr>"
    "indexes sch (m0(k \<mapsto> r) ++ m |` set ks) sec" by blast
  moreover have "m0(k \<mapsto> r) ++ m |` set ks = m0 ++ m |` set (k # ks)"
    using r(1) Cons.prems(3,4) by (auto simp: map_add_def restrict_map_def fun_eq_iff split: option.splits)
  moreover have "?t\<lparr>secondary := sec\<rparr> = t\<lparr>secondary := sec\<rparr>" by (simp add: indexRow_def)
  ultimately show ?case using r by (intro exI [of _ sec]) simp
qed

lemma NewTable_view:
  assumes s: "stored_rows s sch m" and ok: "schema_ok sch" and "Columns sch \<noteq> []" and "keyed sch m"
  shows "\<exists>t. NewTable s sch = Inr t \<and> store t = s \<and> schema t = sch \<and> table_view t m"
proof -
  let ?t = "\<lparr>store = s, schema = sch, secondary = map (\<lambda>c. (col_Name c, [])) (tl (Columns sch))\<rparr>"
  let ?ks = "sorted_list_of_set (dom m)"
  from index_rows [OF ok assms(4), of ?t Map.empty ?ks] stored_keys(2) [OF s] obtain sec where
    sec: "fold (\<lambda>r. indexRow (row_key sch r) r) (row_list m) ?t = ?t\<lparr>secondary := sec\<rparr>" "indexes sch (m |` dom m) sec"
    by (auto simp: indexes_new row_list_def)
  have "m |` dom m = m" by (auto simp: restrict_map_def fun_eq_iff domIff)
  with sec s ok assms(3) have "table_view (?t\<lparr>secondary := sec\<rparr>) m" by (simp add: table_view_def)
  moreover have "NewTable s sch = Inr (?t\<lparr>secondary := sec\<rparr>)"
    using ok assms(3) Scan_stored [of ?t m] s sec(1) by (simp add: NewTable_def validate_ok [symmetric] del: fold_simps)
  ultimately show ?thesis by fastforce
qed

lemma OpenTable_new:
  assumes ok: "schema_ok sch" and "Columns sch \<noteq> []"
  shows "\<exists>d t. OpenTable rng empty_disk sch = (d, Inr t) \<and> schema t = sch \<and> table_state t [] [] Map.empty"
proof -
  from open_empty_disk [of rng] obtain d s where s: "store_Open rng empty_disk = (d, Inr s)" "session s [] []" by blast
  have "stored_rows s sch Map.empty" using sessionD(3,4) [OF s(2)] by (simp add: stored_rows_def decodes_def)
  from NewTable_view [OF this assms] obtain t where t: "NewTable s sch = Inr t" "store t = s" "schema t = sch" "table_view t Map.empty"
    by (auto simp: keyed_def)
  then show ?thesis using s by (simp add: OpenTable_def table_state_def)
qed

section \<open>Updating by condition\<close>

definition assigned :: "row \<Rightarrow> row \<Rightarrow> row" where
  "assigned sets r = fold (\<lambda>(k, v). AList.update k v) sets r"

lemma assigned_other: "n \<notin> fst ` set sets \<Longrightarrow> row_get (assigned sets r) n = row_get r n"
  by (induction sets arbitrary: r) (auto simp: assigned_def row_get_def update_conv')

text \<open>An assignment that leaves the key and the UNIQUE columns alone and gives rows that can be stored.\<close>

definition plain_assignment :: "Schema \<Rightarrow> row \<Rightarrow> bool" where
  "plain_assignment sch sets \<longleftrightarrow>
     key_name sch \<notin> fst ` set sets \<and> (\<forall>c \<in> set (Columns sch). Unique (constraint sch (col_Name c)) \<longrightarrow> col_Name c \<notin> fst ` set sets)"

lemma assigned_no_conflict:
  assumes "unique_rows sch m" and "plain_assignment sch sets" and "m k = Some r"
  shows "\<not> conflict sch m k (assigned sets r)"
proof
  assume "conflict sch m k (assigned sets r)"
  then obtain c k' r' where c: "c \<in> set (Columns sch)" "Unique (constraint sch (col_Name c))"
    "row_get (assigned sets r) (col_Name c) \<noteq> GoNil" "m k' = Some r'" "k' \<noteq> k"
    "indexValue (row_get r' (col_Name c)) = indexValue (row_get (assigned sets r) (col_Name c))"
    unfolding conflict_def by blast
  with assms(2) have "row_get (assigned sets r) (col_Name c) = row_get r (col_Name c)"
    by (intro assigned_other) (auto simp: plain_assignment_def)
  with c assms(1,3) show False unfolding unique_rows_def by metis
qed

lemma update_rows_correct:
  "table_state t c h m \<Longrightarrow> keyed (schema t) m \<Longrightarrow> unique_rows (schema t) m \<Longrightarrow> distinct ks \<Longrightarrow>
     \<forall>k \<in> set ks. m k = Some (f k) \<Longrightarrow>
     \<forall>k \<in> set ks. p (f k) \<longrightarrow> row_typed (schema t) (assigned sets (f k)) \<and> good_row (schema t) k (assigned sets (f k)) \<Longrightarrow>
     plain_assignment (schema t) sets \<Longrightarrow> length h + length ks < 2 ^ 32 - 1 \<Longrightarrow>
     \<exists>t' c' h'. update_rows p sets (map f ks) n t = (t', n + length (filter (\<lambda>k. p (f k)) ks), None) \<and>
       table_state t' c' h' (\<lambda>k. if k \<in> set ks \<and> p (f k) then Some (canonical (schema t) (assigned sets (f k))) else m k) \<and>
       schema t' = schema t"
proof (induction ks arbitrary: t c h m n)
  case Nil
  then show ?case by (intro exI [of _ t] exI [of _ c] exI [of _ h]) simp
next
  case (Cons k ks)
  let ?sch = "schema t"
  show ?case
  proof (cases "p (f k)")
    case False
    have "(\<lambda>x. if x \<in> set (k # ks) \<and> p (f x) then Some (canonical ?sch (assigned sets (f x))) else m x) =
      (\<lambda>x. if x \<in> set ks \<and> p (f x) then Some (canonical ?sch (assigned sets (f x))) else m x)" using False by auto
    moreover have "distinct ks" "\<forall>k \<in> set ks. m k = Some (f k)" "length h + length ks < 2 ^ 32 - 1"
      "\<forall>k \<in> set ks. p (f k) \<longrightarrow> row_typed ?sch (assigned sets (f k)) \<and> good_row ?sch k (assigned sets (f k))"
      using Cons.prems(4-8) by auto
    ultimately show ?thesis
      using Cons.IH [OF Cons.prems(1-3) _ _ _ Cons.prems(7), of n] False by auto
  next
    case True
    let ?r = "assigned sets (f k)"
    have k: "m k = Some (f k)" "row_key ?sch (f k) = k" "row_typed ?sch ?r" "good_row ?sch k ?r"
      using Cons.prems(2,5,6) True by (auto simp: keyed_def)
    have key: "row_key ?sch ?r = k"
      using k(2) Cons.prems(7) assigned_other [of "key_name ?sch" sets] by (simp add: row_key_def plain_assignment_def)
    note free = assigned_no_conflict [OF Cons.prems(3,7) k(1)]
    let ?m = "m(k \<mapsto> canonical ?sch ?r)"
    from Insert_correct [OF Cons.prems(1,2) k(3,4) free] Cons.prems(8) obtain t1 c1 h1 where
      t1: "table_Insert k ?r t = (t1, Inr ())" "table_state t1 c1 h1 ?m" "schema t1 = ?sch" "length h1 = length h + 1" by auto
    have inv: "keyed (schema t1) ?m" "unique_rows (schema t1) ?m"
      using Cons.prems(2) k(4) unique_insert [OF Cons.prems(3) table_stateD(3) [OF Cons.prems(1)] k(4) free] t1(3)
      by (auto simp: good_row_def intro: keyed_updates)
    have rest: "distinct ks" "\<forall>x \<in> set ks. ?m x = Some (f x)" "length h1 + length ks < 2 ^ 32 - 1"
      "\<forall>k \<in> set ks. p (f k) \<longrightarrow> row_typed (schema t1) (assigned sets (f k)) \<and> good_row (schema t1) k (assigned sets (f k))"
      "plain_assignment (schema t1) sets"
      using Cons.prems(4-8) t1(3,4) by auto
    from Cons.IH [OF t1(2) inv rest(1,2,4,5,3), of "Suc n"] obtain t' c' h' where
      t': "update_rows p sets (map f ks) (Suc n) t1 = (t', Suc n + length (filter (\<lambda>k. p (f k)) ks), None)"
      "table_state t' c' h' (\<lambda>k. if k \<in> set ks \<and> p (f k) then Some (canonical (schema t1) (assigned sets (f k))) else ?m k)"
      "schema t' = schema t1" by blast
    have "(\<lambda>x. if x \<in> set ks \<and> p (f x) then Some (canonical (schema t1) (assigned sets (f x))) else ?m x) =
      (\<lambda>x. if x \<in> set (k # ks) \<and> p (f x) then Some (canonical ?sch (assigned sets (f x))) else m x)"
      using True t1(3) by auto
    with t' t1(1,3) True key show ?thesis
      by (intro exI [of _ t'] exI [of _ c'] exI [of _ h']) (simp add: assigned_def)
  qed
qed

end
