(* ===== verification/Table_Properties.thy ===== *)
theory Table_Properties
  imports Table_Correct
begin

text \<open>
  Clients of a table: runs of calls against the map of rows, lookups by value, constraints, updates, reopening;
  and the two ways in which a secondary index falls behind the rows.
\<close>

section \<open>Runs\<close>

datatype table_call = CallInsert bytes row | CallDelete bytes | CallDeleteWhere "row \<Rightarrow> bool"

text \<open>A call returns a number of rows, or nothing if it fails.\<close>

fun exec_table :: "table_call \<Rightarrow> Table \<Rightarrow> Table \<times> nat option" where
  "exec_table (CallInsert key r) t = (case table_Insert key r t of (t', Inl err) \<Rightarrow> (t', None) | (t', Inr u) \<Rightarrow> (t', Some 1))"
| "exec_table (CallDelete key) t = (case table_Delete key t of (t', Inl err) \<Rightarrow> (t', None) | (t', Inr u) \<Rightarrow> (t', Some 1))"
| "exec_table (CallDeleteWhere p) t =
     (case DeleteWhere p t of (t', n, err) \<Rightarrow> (t', if err = None then Some n else None))"

fun table_run :: "table_call list \<Rightarrow> Table \<Rightarrow> Table \<times> nat option list" where
  "table_run [] t = (t, [])"
| "table_run (cl # cls) t =
     (let (t, res) = exec_table cl t; (t, ress) = table_run cls t in (t, res # ress))"

text \<open>What the calls mean for the map of rows.\<close>

fun rows_call :: "Schema \<Rightarrow> table_call \<Rightarrow> rows \<Rightarrow> rows \<times> nat option" where
  "rows_call sch (CallInsert key r) m =
     (if row_typed sch r \<and> \<not> conflict sch m key r then (m(key \<mapsto> canonical sch r), Some 1) else (m, None))"
| "rows_call sch (CallDelete key) m = (m(key := None), Some 1)"
| "rows_call sch (CallDeleteWhere p) m =
     (m |` {k. \<forall>r. m k = Some r \<longrightarrow> \<not> p r}, Some (length (filter p (row_list m))))"

fun rows_run :: "Schema \<Rightarrow> table_call list \<Rightarrow> rows \<Rightarrow> rows \<times> nat option list" where
  "rows_run sch [] m = (m, [])"
| "rows_run sch (cl # cls) m =
     (let (m, res) = rows_call sch cl m; (m, ress) = rows_run sch cls m in (m, res # ress))"

fun good_table_call :: "Schema \<Rightarrow> table_call \<Rightarrow> bool" where
  "good_table_call sch (CallInsert key r) \<longleftrightarrow> (row_typed sch r \<longrightarrow> good_row sch key r)"
| "good_table_call sch cl \<longleftrightarrow> True"

definition table_client :: "range_order \<Rightarrow> Schema \<Rightarrow> table_call list \<Rightarrow> (Table \<times> nat option list) option" where
  "table_client rng sch cls =
     (case OpenTable rng empty_disk sch of (d, Inl err) \<Rightarrow> None | (d, Inr t) \<Rightarrow> Some (table_run cls t))"

text \<open>The invariant of a run; every call adds at most two to the writes and rows together.\<close>

definition table_inv :: "Schema \<Rightarrow> nat \<Rightarrow> Table \<Rightarrow> rows \<Rightarrow> bool" where
  "table_inv sch n t m \<longleftrightarrow>
     schema t = sch \<and> keyed sch m \<and> unique_rows sch m \<and>
     (\<exists>c h. table_state t c h m \<and> length h + card (dom m) \<le> n)"

lemma table_invD:
  assumes "table_inv sch n t m"
  shows "table_view t m" "schema t = sch" "schema_ok sch" "keyed sch m" "unique_rows sch m" "finite (dom m)"
  using assms table_stateD(1,3) table_finite unfolding table_inv_def by blast+

lemma filter_count:
  assumes "finite (dom m)"
  shows "card (dom (m |` {k. \<forall>r. m k = Some r \<longrightarrow> \<not> p r})) + length (filter p (row_list m)) = card (dom m)"
proof -
  let ?ks = "sorted_list_of_set (dom m)" and ?p = "\<lambda>k. p (the (m k))"
  have "length (filter p (row_list m)) = length (filter ?p ?ks)"
    by (simp add: row_list_def filter_map comp_def)
  also have "\<dots> = card {k \<in> dom m. ?p k}"
    using distinct_card [of "filter ?p ?ks"] assms by simp
  moreover have "dom (m |` {k. \<forall>r. m k = Some r \<longrightarrow> \<not> p r}) = {k \<in> dom m. \<not> ?p k}"
    by (auto simp: restrict_map_def split: if_splits)
  moreover have "card (dom m) = card {k \<in> dom m. \<not> ?p k} + card {k \<in> dom m. ?p k}"
  proof -
    have "card ({k \<in> dom m. \<not> ?p k} \<union> {k \<in> dom m. ?p k}) = card {k \<in> dom m. \<not> ?p k} + card {k \<in> dom m. ?p k}"
      using assms by (intro card_Un_disjoint) auto
    moreover have "{k \<in> dom m. \<not> ?p k} \<union> {k \<in> dom m. ?p k} = dom m" by auto
    ultimately show ?thesis by simp
  qed
  ultimately show ?thesis by simp
qed

lemma inv_restrict:
  "keyed sch m \<Longrightarrow> keyed sch (m |` A)" "unique_rows sch m \<Longrightarrow> unique_rows sch (m |` A)"
  unfolding keyed_def unique_rows_def by (auto simp: restrict_map_def split: if_splits)

lemma exec_table_inv:
  assumes inv: "table_inv sch n t m" and good: "good_table_call sch cl" and few: "n + 1 < 2 ^ 32 - 1"
    and r: "rows_call sch cl m = (m', res)"
  shows "\<exists>t'. exec_table cl t = (t', res) \<and> table_inv sch (n + 2) t' m'"
proof -
  from inv obtain c h where st: "table_state t c h m" and len: "length h + card (dom m) \<le> n" by (auto simp: table_inv_def)
  note view = table_invD(1) [OF inv] and sch = table_invD(2) [OF inv] and ok = table_invD(3) [OF inv]
    and keyed = table_invD(4) [OF inv] and uniq = table_invD(5) [OF inv] and fin = table_invD(6) [OF inv]
  show ?thesis
  proof (cases cl)
    case (CallInsert key row)
    show ?thesis
    proof (cases "row_typed sch row \<and> \<not> conflict sch m key row")
      case True
      then have gr: "good_row sch key row" using good CallInsert by simp
      from Insert_correct [OF st _ _ _ _, of row key] True gr keyed len few obtain t' c' h' where
        t': "table_Insert key row t = (t', Inr ())" "table_state t' c' h' (m(key \<mapsto> canonical sch row))" "schema t' = sch"
        "length h' = length h + 1" by (auto simp: sch)
      have "keyed sch (m(key \<mapsto> canonical sch row))" using keyed gr by (intro keyed_updates) (auto simp: good_row_def)
      moreover have "unique_rows sch (m(key \<mapsto> canonical sch row))" using unique_insert [OF uniq ok gr] True by simp
      moreover have "card (dom (m(key \<mapsto> canonical sch row))) \<le> card (dom m) + 1" using fin by (simp add: card_insert_if)
      ultimately have "table_inv sch (n + 2) t' (m(key \<mapsto> canonical sch row))"
        using t' len unfolding table_inv_def by fastforce
      with t'(1) r True CallInsert show ?thesis by auto
    next
      case False
      from Insert_refused [OF view, of row key] False keyed obtain err where "table_Insert key row t = (t, Inl err)" by (auto simp: sch)
      with False r CallInsert inv show ?thesis unfolding table_inv_def by fastforce
    qed
  next
    case (CallDelete key)
    from Delete_correct [OF st, of key] len few obtain t' c' h' where
      t': "table_Delete key t = (t', Inr ())" "table_state t' c' h' (m(key := None))" "schema t' = sch"
      "length h' = length h + (if m key = None then 0 else 1)" by (auto simp: sch)
    have "card (dom (m(key := None))) \<le> card (dom m)" using fin by (auto intro: card_mono)
    with t' len keyed uniq have "table_inv sch (n + 2) t' (m(key := None))"
      unfolding table_inv_def by (fastforce intro: keyed_updates unique_remove split: if_splits)
    with t'(1) r CallDelete show ?thesis by auto
  next
    case (CallDeleteWhere p)
    let ?m = "m |` {k. \<forall>r. m k = Some r \<longrightarrow> \<not> p r}"
    from DeleteWhere_state [OF st, of p] keyed len few obtain t' c' h' where
      t': "DeleteWhere p t = (t', length (filter p (row_list m)), None)" "table_state t' c' h' ?m" "schema t' = sch"
      "length h' = length h + length (filter p (row_list m))" by (auto simp: sch)
    have "length h' + card (dom ?m) \<le> n + 2" using filter_count [OF fin, of p] t'(4) len by simp
    with t' keyed uniq have "table_inv sch (n + 2) t' ?m"
      unfolding table_inv_def by (blast intro: inv_restrict)
    with t'(1) r CallDeleteWhere show ?thesis by auto
  qed
qed

lemma table_run_inv:
  "table_inv sch n t m \<Longrightarrow> list_all (good_table_call sch) cls \<Longrightarrow> n + 2 * length cls < 2 ^ 32 - 1 \<Longrightarrow>
     \<exists>t'. table_run cls t = (t', snd (rows_run sch cls m)) \<and> table_inv sch (n + 2 * length cls) t' (fst (rows_run sch cls m))"
proof (induction cls arbitrary: n t m)
  case Nil
  then show ?case by simp
next
  case (Cons cl cls)
  obtain m1 res where r: "rows_call sch cl m = (m1, res)" by (cases "rows_call sch cl m")
  from exec_table_inv [OF Cons.prems(1) _ _ r] Cons.prems(2,3) obtain t1 where
    t1: "exec_table cl t = (t1, res)" "table_inv sch (n + 2) t1 m1" by auto
  from Cons.IH [OF t1(2)] Cons.prems(2,3) obtain t' where
    "table_run cls t1 = (t', snd (rows_run sch cls m1))" "table_inv sch (n + 2 + 2 * length cls) t' (fst (rows_run sch cls m1))" by auto
  with t1(1) r show ?case by (auto simp: split: prod.splits)
qed

lemma table_client_inv:
  assumes "validate sch = Inr ()" and "Columns sch \<noteq> []" and "list_all (good_table_call sch) cls" and "length cls < 2 ^ 30"
  shows "\<exists>t. table_client rng sch cls = Some (t, snd (rows_run sch cls Map.empty)) \<and>
    table_inv sch (2 ^ 31) t (fst (rows_run sch cls Map.empty))"
proof -
  from OpenTable_new [of sch rng] assms(1,2) obtain d t0 where t0: "OpenTable rng empty_disk sch = (d, Inr t0)" "schema t0 = sch"
    "table_state t0 [] [] Map.empty" by (auto simp: validate_ok)
  then have "table_inv sch 0 t0 Map.empty" by (auto simp: table_inv_def keyed_def unique_rows_def)
  from table_run_inv [OF this assms(3)] assms(4) obtain t where
    t: "table_run cls t0 = (t, snd (rows_run sch cls Map.empty))" "table_inv sch (2 * length cls) t (fst (rows_run sch cls Map.empty))" by auto
  have "table_inv sch (2 ^ 31) t (fst (rows_run sch cls Map.empty))"
    using t(2) assms(4) unfolding table_inv_def by fastforce
  with t(1) t0(1) show ?thesis by (simp add: table_client_def)
qed

section \<open>Properties of a client\<close>

text \<open>C24: A table is a map of rows. Opening a table in a new database and running any inserts, deletes and conditional deletes
  succeeds or fails, call by call, exactly as on the map: an insert fails without effect if the row does not fit
  the schema or a UNIQUE value is taken, and otherwise replaces the row of its key by the stored form of the row;
  afterwards \<open>Get\<close> reads that map and \<open>Scan\<close> lists it in the order of the keys. Rows are inserted
  under their key, fit on a page and hold values whose stored form prints the same.\<close>

theorem table_refines_rows:
  assumes "validate sch = Inr ()" and "Columns sch \<noteq> []" and "list_all (good_table_call sch) cls" and "length cls < 2 ^ 30"
  shows "\<exists>t. table_client rng sch cls = Some (t, snd (rows_run sch cls Map.empty)) \<and>
    (\<forall>key. table_Get key t = Inr (fst (rows_run sch cls Map.empty) key)) \<and>
    Scan t = Inr (row_list (fst (rows_run sch cls Map.empty)))"
  using table_client_inv [OF assms, of rng] table_invD(1) table_Get_view Scan_view by blast

definition example_calls :: "table_call list" where
  "example_calls =
     [CallInsert (str ''1'') [(str ''id'', GoInt 1), (str ''name'', GoString (str ''Ada'')), (str ''ok'', GoBool True), (str ''raw'', GoNil)],
      CallInsert (str ''2'') [(str ''id'', GoInt 2), (str ''name'', GoString (str ''Ada'')), (str ''ok'', GoNil), (str ''raw'', GoNil)],
      CallInsert (str ''2'') [(str ''id'', GoInt 2), (str ''name'', GoString (str ''Bob'')), (str ''ok'', GoBool True), (str ''raw'', GoNil)],
      CallDelete (str ''3'')]"

lemmas example_eval = example_simps example_calls_def good_row_def row_typed_def has_type_def row_get_def row_key_def key_name_def
  canonical_def canonical_value_def constraint_def indexValue_def

lemma row_bytes_length: "length (row_bytes sch r) = null_bytes sch + sum_list (map (\<lambda>c. length (column_bytes r c)) (Columns sch))"
  by (simp add: row_bytes_def length_concat comp_def)

lemma example_client:
  "validate example_schema = Inr ()" "Columns example_schema \<noteq> []" "list_all (good_table_call example_schema) example_calls"
  "length example_calls < 2 ^ 30"
  by (simp_all add: validate_def example_eval Sprint_def dec_int_def dec_nat.simps small_def rec_len_def row_bytes_length
      PageSize_def HeaderSize_def recordHeaderSize_def null_bytes_def column_bytes_def value_bytes_def encode_value_def)

lemma example_rows:
  "rows_run example_schema example_calls Map.empty =
     ([str ''1'' \<mapsto> [(str ''id'', GoInt 1), (str ''name'', GoString (str ''Ada'')), (str ''ok'', GoBool True), (str ''raw'', GoNil)],
       str ''2'' \<mapsto> [(str ''id'', GoInt 2), (str ''name'', GoString (str ''Bob'')), (str ''ok'', GoBool True), (str ''raw'', GoNil)]],
      [Some 1, None, Some 1, Some 1])"
  by (simp add: example_eval conflict_def)

theorem table_refines_rows_witness:
  "\<exists>t. table_client (\<lambda>p. []) example_schema example_calls = Some (t, [Some 1, None, Some 1, Some 1]) \<and>
     table_Get (str ''3'') t = Inr None"
  using table_refines_rows [OF example_client, of "\<lambda>p. []"] by (auto simp: example_rows str_def)

text \<open>UNIQUE columns. In a new table, after inserts and deletes, no two rows that \<open>Scan\<close> returns share a non-null value of a
  UNIQUE column.\<close>

theorem table_unique:
  assumes "validate sch = Inr ()" and "Columns sch \<noteq> []" and "list_all (good_table_call sch) cls" and "length cls < 2 ^ 30"
    and c: "c \<in> set (Columns sch)" "Unique (constraint sch (col_Name c))"
  shows "\<exists>t res rs. table_client rng sch cls = Some (t, res) \<and> Scan t = Inr rs \<and>
    distinct (filter (\<lambda>v. v \<noteq> GoNil) (map (\<lambda>r. indexValue (row_get r (col_Name c))) rs))"
proof -
  let ?m = "fst (rows_run sch cls Map.empty)" and ?n = "col_Name c"
  from table_client_inv [OF assms(1-4), of rng] obtain t where
    t: "table_client rng sch cls = Some (t, snd (rows_run sch cls Map.empty))" "table_inv sch (2 ^ 31) t ?m" by blast
  let ?v = "\<lambda>k. indexValue (row_get (the (?m k)) ?n)"
  have "distinct (map ?v (filter (\<lambda>k. ?v k \<noteq> GoNil) (sorted_list_of_set (dom ?m))))"
    unfolding distinct_map
  proof (intro conjI inj_onI)
    fix k k'
    assume "k \<in> set (filter (\<lambda>k. ?v k \<noteq> GoNil) (sorted_list_of_set (dom ?m)))"
      "k' \<in> set (filter (\<lambda>k. ?v k \<noteq> GoNil) (sorted_list_of_set (dom ?m)))" "?v k = ?v k'"
    then obtain r r' where "?m k = Some r" "?m k' = Some r'" "row_get r ?n \<noteq> GoNil"
      "indexValue (row_get r ?n) = indexValue (row_get r' ?n)"
      using table_invD(6) [OF t(2)] by (auto simp: indexValue_nil)
    then show "k = k'" using table_invD(5) [OF t(2)] c unfolding unique_rows_def by blast
  qed simp
  then have "distinct (filter (\<lambda>v. v \<noteq> GoNil) (map (\<lambda>r. indexValue (row_get r ?n)) (row_list ?m)))"
    by (simp add: row_list_def filter_map comp_def)
  with t Scan_view [OF table_invD(1) [OF t(2)]] show ?thesis by blast
qed

theorem table_unique_witness:
  "\<exists>t res rs. table_client (\<lambda>p. []) example_schema example_calls = Some (t, res) \<and> Scan t = Inr rs \<and>
    distinct (filter (\<lambda>v. v \<noteq> GoNil) (map (\<lambda>r. indexValue (row_get r (str ''name''))) rs))"
  using table_unique [OF example_client, of "\<lparr>col_Name = str ''name'', col_Type = StringType\<rparr>" "\<lambda>p. []"]
  by (simp add: example_simps constraint_def)

text \<open>C25: Lookups by value. Take a new table with a valid schema, on a disk without I/O failures, and fewer than \<open>2 ^ 30\<close> inserts
  and deletes, by key and by condition, where a row that is inserted stands under its own key, fits on a page and holds values whose stored form
  prints the same. Then for a column with a secondary index, \<open>Find\<close> returns exactly the rows of a full scan whose value has the same
  rendering, whatever the order in which the keys are visited.\<close>

theorem Find_filters_scan:
  assumes "validate sch = Inr ()" and "Columns sch \<noteq> []" and "list_all (good_table_call sch) cls" and "length cls < 2 ^ 30"
    and n: "n \<in> col_Name ` set (tl (Columns sch))" and ord: "\<And>ks. mset (ord ks) = mset ks"
  shows "\<exists>t res found rs. table_client rng sch cls = Some (t, res) \<and> Find ord n v t = Inr found \<and> Scan t = Inr rs \<and>
    mset found = mset (filter (\<lambda>r. indexValue (row_get r n) = indexValue v) rs)"
proof -
  let ?m = "fst (rows_run sch cls Map.empty)"
  from table_client_inv [OF assms(1-4), of rng] obtain t where
    t: "table_client rng sch cls = Some (t, snd (rows_run sch cls Map.empty))" "table_inv sch (2 ^ 31) t ?m" by blast
  note view = table_invD(1) [OF t(2)]
  let ?p = "\<lambda>r. indexValue (row_get r n) = indexValue v" and ?f = "\<lambda>k. the (?m k)"
  from Find_keys [OF view _ ord] n table_invD(2) [OF t(2)] obtain ks where ks: "Find ord n v t = Inr (map ?f ks)" "distinct ks"
    "set ks = {k. \<exists>r. ?m k = Some r \<and> ?p r}" by blast
  have "set ks = set (filter (\<lambda>k. ?p (?f k)) (sorted_list_of_set (dom ?m)))"
    using ks(3) table_invD(6) [OF t(2)] by auto
  then have "mset ks = mset (filter (\<lambda>k. ?p (?f k)) (sorted_list_of_set (dom ?m)))"
    using ks(2) by (subst set_eq_iff_mset_eq_distinct [symmetric]) auto
  then have "mset (map ?f ks) = mset (map ?f (filter (\<lambda>k. ?p (?f k)) (sorted_list_of_set (dom ?m))))"
    by (simp only: mset_map)
  then have "mset (map ?f ks) = mset (filter ?p (row_list ?m))"
    by (simp add: row_list_def filter_map comp_def)
  with t(1) ks(1) Scan_view [OF view] show ?thesis by blast
qed

theorem Find_filters_scan_witness:
  "\<exists>t res found rs. table_client (\<lambda>p. []) example_schema example_calls = Some (t, res) \<and>
    Find rev (str ''ok'') (GoBool True) t = Inr found \<and> Scan t = Inr rs \<and>
    mset found = mset (filter (\<lambda>r. indexValue (row_get r (str ''ok'')) = indexValue (GoBool True)) rs)"
  by (rule Find_filters_scan [OF example_client]) (simp_all add: example_simps)



section \<open>Closing and opening again\<close>

definition reopen_table :: "range_order \<Rightarrow> Table \<Rightarrow> Table result" where
  "reopen_table rng t =
     (case table_Close rng t of
        (t', Inl err) \<Rightarrow> Inl err
      | (t', Inr u) \<Rightarrow> snd (OpenTable rng (disk_of (store t')) (schema t)))"

text \<open>C27: Reopening a table. Take a new table with a valid schema, on a disk without I/O failures, and fewer than \<open>2 ^ 30\<close>
  inserts and deletes, by key and by condition, where a row that is inserted stands under its own key, fits on a page and holds values whose stored
  form prints the same. Then closing the table and opening it again with the same schema succeeds, and the new table reads the same rows: the same
  \<open>Get\<close>, the same \<open>Scan\<close>, and lookups by value through the rebuilt secondary indexes return the same rows.\<close>

theorem table_reopen:
  assumes "validate sch = Inr ()" and "Columns sch \<noteq> []" and "list_all (good_table_call sch) cls" and "length cls < 2 ^ 30"
    and rng: "range_ok rng" and n: "n \<in> col_Name ` set (tl (Columns sch))" and ord: "\<And>ks. mset (ord ks) = mset ks"
  shows "\<exists>t res t' found found'. table_client rng sch cls = Some (t, res) \<and> reopen_table rng t = Inr t' \<and>
    (\<forall>key. table_Get key t' = table_Get key t) \<and> Scan t' = Scan t \<and>
    Find ord n v t = Inr found \<and> Find ord n v t' = Inr found' \<and> mset found' = mset found"
proof -
  let ?m = "fst (rows_run sch cls Map.empty)"
  from table_client_inv [OF assms(1-4), of rng] obtain t where
    t: "table_client rng sch cls = Some (t, snd (rows_run sch cls Map.empty))" "table_inv sch (2 ^ 31) t ?m" by blast
  note D = table_invD [OF t(2)]
  from t(2) obtain c h where st: "table_state t c h ?m" "length h \<le> 2 ^ 31" by (auto simp: table_inv_def)
  have "length (chain_log c) < 2 ^ 64" using st table_stateD(2) [OF st(1)] by (auto simp: session_def)
  from reopen_fine [OF sessionD(1) [OF table_stateD(2) [OF st(1)]] rng session_page_chain [OF table_stateD(2) [OF st(1)]] this]
  obtain s' where s': "reopen rng (store t) = Inr s'" "rep s' [] (chain_log c) (log_map h)" by blast
  have "stored_rows s' sch ?m"
    using s'(2) table_stateD(4) [OF st(1)] D(2) by (auto simp: stored_rows_def rep_def core_def)
  from NewTable_view [OF this D(3) assms(2) D(4)] obtain t' where t': "NewTable s' sch = Inr t'" "schema t' = sch" "table_view t' ?m" by blast
  have "reopen_table rng t = Inr t'"
    using s'(1) t'(1) D(2)
    by (auto simp: reopen_table_def reopen_def table_Close_def on_store_def OpenTable_def split: prod.splits sum.splits)
  moreover obtain ks ks' where "Find ord n v t = Inr (map (\<lambda>k. the (?m k)) ks)" "Find ord n v t' = Inr (map (\<lambda>k. the (?m k)) ks')"
    "distinct ks" "distinct ks'" "set ks = set ks'"
    using Find_keys [OF D(1) _ ord] Find_keys [OF t'(3) _ ord] n D(2) t'(2) by (metis (no_types, lifting))
  moreover from this have "mset ks' = mset ks" by (simp add: set_eq_iff_mset_eq_distinct)
  then have "mset (map (\<lambda>k. the (?m k)) ks') = mset (map (\<lambda>k. the (?m k)) ks)" by (simp only: mset_map)
  moreover have "\<forall>key. table_Get key t' = table_Get key t" "Scan t' = Scan t"
    by (simp_all add: table_Get_view [OF D(1)] table_Get_view [OF t'(3)] Scan_view [OF D(1)] Scan_view [OF t'(3)])
  ultimately show ?thesis using t(1) by blast
qed

theorem table_reopen_witness:
  "\<exists>t res t' found found'. table_client (\<lambda>b. map fst (items b)) example_schema example_calls = Some (t, res) \<and>
    reopen_table (\<lambda>b. map fst (items b)) t = Inr t' \<and> (\<forall>key. table_Get key t' = table_Get key t) \<and> Scan t' = Scan t \<and>
    Find rev (str ''ok'') (GoBool True) t = Inr found \<and> Find rev (str ''ok'') (GoBool True) t' = Inr found' \<and> mset found' = mset found"
  by (rule table_reopen [OF example_client]) (simp_all add: example_simps range_ok_def)

section \<open>Indexes that fall behind\<close>

lemma Find_empty:
  assumes t: "table_view t m" and n: "n \<in> col_Name ` set (tl (Columns (schema t)))" and ord: "\<And>ks. mset (ord ks) = mset ks"
    and "Find ord n v t = Inr []"
  shows "map_of (column_index n (secondary t)) (indexValue v) = None"
proof -
  let ?i = "column_index n (secondary t)" and ?v = "indexValue v"
  from Find_keys [OF t n ord, of v] assms(4) have "{k. \<exists>r. m k = Some r \<and> indexValue (row_get r n) = ?v} = {}" by auto
  then have "keys_of ?i ?v = []" unfolding indexesD(1) [OF table_viewD(4) [OF t] n, symmetric] by simp
  then show ?thesis using indexesD(2) [OF table_viewD(4) [OF t]] by (simp add: index_wf_keys)
qed

text \<open>C28: Batches bypass the indexes. \<open>ApplyRowsBatch\<close>, with which a transaction commits, stores a new row under a
  new key, but no secondary index learns of it: a lookup by a value that no earlier row has still finds nothing.\<close>

theorem batch_skips_index:
  assumes "validate sch = Inr ()" and "Columns sch \<noteq> []" and "list_all (good_table_call sch) cls" and "length cls < 2 ^ 30"
    and "table_client rng sch cls = Some (t, res)" and n: "n \<in> col_Name ` set (tl (Columns sch))" and ord: "\<And>ks. mset (ord ks) = mset ks"
    and typed: "row_typed sch r" and good: "good_row sch key r" and "Find ord n (row_get r n) t = Inr []"
  shows "\<exists>t'. ApplyRowsBatch tid [(key, \<lparr>tr_Row = r, tr_Deleted = False\<rparr>)] t = (t', Inr ()) \<and>
    table_Get key t' = Inr (Some (canonical sch r)) \<and> Find ord n (row_get r n) t' = Inr []"
proof -
  let ?m = "fst (rows_run sch cls Map.empty)" and ?b = "row_bytes sch r"
  from table_client_inv [OF assms(1-4), of rng] assms(5) have inv: "table_inv sch (2 ^ 31) t ?m" by auto
  then obtain c h where st: "table_state t c h ?m" "length h + card (dom ?m) \<le> 2 ^ 31" by (auto simp: table_inv_def)
  note D = table_invD [OF inv]
  let ?op = "\<lparr>Key = key, Value = ?b, Delete = False\<rparr>"
  have sm: "small (flagLive, key, ?b)" using good by (simp add: good_row_def)
  from session_call [OF table_stateD(2) [OF st(1)], of "DoBatch tid [?op]"] sm st(2) obtain s c' where
    s: "ApplyBatch tid [?op] (store t) = (s, Inr ())" "session s c' (h @ [(flagLive, key, ?b)])" by (auto simp: op_log_def)
  have "decode sch ?b = Inr (canonical sch r)"
    using short_small [OF typed D(3) sm] by (intro decode_row_bytes [OF D(3) typed]) auto
  then have "stored_rows s sch (?m(key \<mapsto> canonical sch r))"
    using D(2) by (intro stored_write [OF _ table_stateD(2) [OF st(1)] s(2), of sch ?m])
      (use table_viewD(6) [OF D(1)] in \<open>simp_all add: log_step_def decodes_def\<close>)
  then have "table_Get key (t\<lparr>store := s\<rparr>) = Inr (Some (canonical sch r))"
    using table_Get_stored [of "t\<lparr>store := s\<rparr>"] D(2) by simp
  moreover have "ApplyRowsBatch tid [(key, \<lparr>tr_Row = r, tr_Deleted = False\<rparr>)] t = (t\<lparr>store := s\<rparr>, Inr ())"
    using s(1) D(2) encode_ok [OF D(3) typed] by (simp add: ApplyRowsBatch_def on_store_def)
  moreover have "Find ord n (row_get r n) (t\<lparr>store := s\<rparr>) = Inr []"
    using Find_empty [OF D(1) _ ord assms(10)] n D(2) by (simp add: Find_def)
  ultimately show ?thesis by blast
qed

theorem batch_skips_index_witness:
  "\<exists>t res t'. table_client (\<lambda>p. []) example_schema example_calls = Some (t, res) \<and>
     ApplyRowsBatch 1 [(str ''5'', \<lparr>tr_Row = [(str ''id'', GoInt 5), (str ''name'', GoString (str ''Cy'')), (str ''ok'', GoNil), (str ''raw'', GoNil)],
       tr_Deleted = False\<rparr>)] t = (t', Inr ()) \<and> Find rev (str ''name'') (GoString (str ''Cy'')) t' = Inr []"
proof -
  let ?r = "[(str ''id'', GoInt 5), (str ''name'', GoString (str ''Cy'')), (str ''ok'', GoNil), (str ''raw'', GoNil)]"
  let ?m = "fst (rows_run example_schema example_calls Map.empty)"
  from table_client_inv [OF example_client, of "\<lambda>p. []"] obtain t res where
    t: "table_client (\<lambda>p. []) example_schema example_calls = Some (t, res)" "table_inv example_schema (2 ^ 31) t ?m" by blast
  have n: "str ''name'' \<in> col_Name ` set (tl (Columns example_schema))" by (simp add: example_simps)
  have get: "row_get ?r (str ''name'') = GoString (str ''Cy'')" by (simp add: row_get_def str_def)
  have "{k. \<exists>r. ?m k = Some r \<and> indexValue (row_get r (str ''name'')) = indexValue (GoString (str ''Cy''))} = {}"
    by (auto simp: example_rows row_get_def indexValue_def str_def split: if_splits)
  with Find_keys [OF table_invD(1) [OF t(2)], of "str ''name''" rev "GoString (str ''Cy'')"] n table_invD(2) [OF t(2)]
  have none: "Find rev (str ''name'') (row_get ?r (str ''name'')) t = Inr []" by (auto simp: get)
  have typed: "row_typed example_schema ?r" by (simp add: example_eval)
  have good: "good_row example_schema (str ''5'') ?r"
    by (simp add: example_eval Sprint_def dec_int_def dec_nat.simps small_def rec_len_def row_bytes_length
      PageSize_def HeaderSize_def recordHeaderSize_def null_bytes_def column_bytes_def value_bytes_def encode_value_def)
  from batch_skips_index [OF example_client t(1) n _ typed good none, of 1] t(1) show ?thesis by (auto simp: get)
qed

lemma get_all_map_filter:
  "(\<And>k. get k = Inr (g k)) \<Longrightarrow> get_all get ks = Inr (List.map_filter g ks)"
  by (induction ks) (auto simp: List.map_filter_simps split: option.splits)

lemma Insert_success:
  assumes "stored_rows (store t) (schema t) m" and "schema_ok (schema t)" and "keyed (schema t) m"
    and "table_Insert key r t = (t', Inr ())"
  shows "row_typed (schema t) r" "\<not> conflict (schema t) m key r"
  using assms(4) encode_error [OF assms(2), of r]
  by (auto simp: table_Insert_def validateConstraints_stored [OF assms(1,3)] split: sum.splits if_splits)

text \<open>C29: Stale entries. When a value is stored in a form that prints differently, such as an integer in a FLOAT column or an
  empty byte slice, its index entry survives the next insert under the same key: a lookup by the
  old value returns the new row, whatever the new row holds.\<close>

theorem stale_index_entry:
  assumes "validate sch = Inr ()" and "Columns sch \<noteq> []" and "list_all (good_table_call sch) cls" and "length cls < 2 ^ 30"
    and "table_client rng sch cls = Some (t, res)" and c: "c \<in> set (tl (Columns sch))" and ord: "\<And>ks. mset (ord ks) = mset ks"
    and "table_Get key t = Inr None"
    and i1: "table_Insert key r t = (t1, Inr ())" and i2: "table_Insert key r2 t1 = (t2, Inr ())"
    and sm: "small (flagLive, key, row_bytes sch r)" "small (flagLive, key, row_bytes sch r2)"
    and rk: "row_key sch (canonical sch r) = key"
    and differs: "indexValue (canonical_value (col_Type c) (row_get r (col_Name c))) \<noteq> indexValue (row_get r (col_Name c))"
  shows "\<exists>found. Find ord (col_Name c) (row_get r (col_Name c)) t2 = Inr found \<and> canonical sch r2 \<in> set found"
proof -
  let ?m = "fst (rows_run sch cls Map.empty)" and ?r = "canonical sch r" and ?r2 = "canonical sch r2"
  let ?cs = "tl (Columns sch)" and ?n = "col_Name c" and ?v = "indexValue (row_get r (col_Name c))"
  from table_client_inv [OF assms(1-4), of rng] assms(5) have inv: "table_inv sch (2 ^ 31) t ?m" by auto
  then obtain c0 h where st: "table_state t c0 h ?m" "length h + card (dom ?m) \<le> 2 ^ 31" by (auto simp: table_inv_def)
  note D = table_invD [OF inv]
  have sr: "stored_rows (store t) (schema t) ?m" "schema t = sch" using table_viewD(6) [OF D(1)] D(2) by auto
  have none: "?m key = None" using assms(8) table_Get_view [OF D(1), of key] by simp
  have cc: "c \<in> set (Columns sch)" using c by (metis list.set_sel(2) assms(2))
  have ok1: "row_typed (schema t) r" "\<not> conflict (schema t) ?m key r"
    using Insert_success [OF sr(1) _ _ i1] D(3,4) sr(2) by auto
  from Insert_exec [OF sr(1) table_stateD(2) [OF st(1)] _ _ ok1(1) _ ok1(2)] sm(1) D(3,4) st(2) i1 none obtain s1 c1 where
    t1: "t1 = t\<lparr>store := s1, secondary := index_columns (add_key key) ?cs r (secondary t)\<rparr>"
    "session s1 c1 (h @ [(flagLive, key, row_bytes sch r)])" "stored_rows s1 sch (?m(key \<mapsto> ?r))"
    by (auto simp: sr(2))
  let ?m1 = "?m(key \<mapsto> ?r)"
  have k1: "keyed sch ?m1" using D(4) rk by (intro keyed_updates)
  have sr1: "stored_rows (store t1) (schema t1) ?m1" "schema t1 = sch" using t1(1,3) sr(2) by auto
  have ok2: "row_typed (schema t1) r2" "\<not> conflict (schema t1) ?m1 key r2"
    using Insert_success [OF sr1(1) _ _ i2] D(3) k1 sr1(2) by auto
  have "session (store t1) c1 (h @ [(flagLive, key, row_bytes sch r)])" using t1(1,2) by simp
  from Insert_exec [OF sr1(1) this _ _ ok2(1) _ ok2(2)] t1(1) sm(2) D(3) k1 st(2) i2 obtain s2 where
    t2: "t2 = t1\<lparr>store := s2, secondary := index_columns (add_key key) ?cs r2 (index_columns (remove_key key) ?cs ?r (secondary t1))\<rparr>"
    "stored_rows s2 sch (?m1(key \<mapsto> ?r2))"
    by (auto simp: sr(2))
  have dist: "distinct (map col_Name ?cs)" using D(3) by (intro tl_distinct) (simp add: schema_ok_def)
  have "key \<in> set (keys_of (column_index ?n (secondary t1)) ?v)"
    using c by (simp add: t1(1) adding.keys_columns [OF dist])
  moreover have "?v \<noteq> indexValue (row_get ?r ?n)" using differs row_get_canonical [OF D(3) cc] by simp
  ultimately have "key \<in> set (keys_of (column_index ?n (secondary t2)) ?v)"
    by (auto simp: t2(1) adding.keys_columns [OF dist] removing.keys_columns [OF dist])
  then obtain ks where ks: "map_of (column_index ?n (secondary t2)) ?v = Some ks" "key \<in> set ks"
    by (cases "map_of (column_index ?n (secondary t2)) ?v") (simp_all add: keys_of_def)
  define m2 where "m2 = ?m1(key \<mapsto> ?r2)"
  have "table_Get k t2 = Inr (m2 k)" for k
    using table_Get_stored [of t2 m2] t2 t1(1) sr(2) by (simp add: m2_def)
  then have "Find ord ?n (row_get r ?n) t2 = Inr (List.map_filter m2 (ord ks))"
    using get_all_map_filter [of "\<lambda>k. table_Get k t2" m2] by (simp add: Find_def ks(1))
  moreover have "?r2 \<in> set (List.map_filter m2 (ord ks))"
    using ks(2) mset_eq_setD [OF ord, of ks] by (force simp: List.map_filter_def m2_def)
  ultimately show ?thesis by blast
qed

definition blob_schema :: Schema where
  "blob_schema =
     \<lparr>Columns = [\<lparr>col_Name = str ''id'', col_Type = IntType\<rparr>, \<lparr>col_Name = str ''raw'', col_Type = BytesType\<rparr>], Constraints = []\<rparr>"

definition blob_row :: "bytes option \<Rightarrow> row" where
  "blob_row b = [(str ''id'', GoInt 1), (str ''raw'', GoBytes b)]"

lemma blob_free: "\<not> conflict blob_schema m key r"
  by (simp add: blob_schema_def conflict_def constraint_def)

lemma blob_key: "row_key blob_schema (canonical blob_schema (blob_row (Some []))) = str ''1''"
  by (simp add: blob_schema_def blob_row_def example_eval Sprint_def dec_int_def dec_nat.simps)

lemma blob_typed: "row_typed blob_schema (blob_row (Some []))" "row_typed blob_schema (blob_row (Some [7]))"
  by (simp_all add: blob_schema_def blob_row_def example_eval)

lemma blob_small:
  "small (flagLive, str ''1'', row_bytes blob_schema (blob_row (Some [])))"
  "small (flagLive, str ''1'', row_bytes blob_schema (blob_row (Some [7])))"
  by (simp_all add: blob_schema_def blob_row_def example_eval small_def rec_len_def row_bytes_length
      PageSize_def HeaderSize_def recordHeaderSize_def null_bytes_def column_bytes_def value_bytes_def encode_value_def)

lemmas blob_eval = blob_typed blob_small blob_key blob_free

theorem stale_index_entry_witness:
  "\<exists>t t1 t2 found. table_client (\<lambda>p. []) blob_schema [] = Some (t, []) \<and>
     table_Insert (str ''1'') (blob_row (Some [])) t = (t1, Inr ()) \<and> table_Insert (str ''1'') (blob_row (Some [7])) t1 = (t2, Inr ()) \<and>
     Find rev (str ''raw'') (GoBytes (Some [])) t2 = Inr found \<and> canonical blob_schema (blob_row (Some [7])) \<in> set found"
proof -
  let ?k = "str ''1''" and ?r = "blob_row (Some [])" and ?r2 = "blob_row (Some [7])"
  have v: "validate blob_schema = Inr ()" "Columns blob_schema \<noteq> []" "list_all (good_table_call blob_schema) []" "length ([] :: table_call list) < 2 ^ 30"
    by (simp_all add: validate_def blob_schema_def type_defs str_def)
  from table_client_inv [OF v, of "\<lambda>p. []"] obtain t where t: "table_client (\<lambda>p. []) blob_schema [] = Some (t, [])"
    "table_inv blob_schema (2 ^ 31) t Map.empty" by auto
  then obtain c h where st: "table_state t c h Map.empty" "length h \<le> 2 ^ 31" by (auto simp: table_inv_def)
  note D = table_invD [OF t(2)]
  have one: "schema_ok (schema t)" "keyed (schema t) Map.empty" "row_typed (schema t) ?r" "small (flagLive, ?k, row_bytes (schema t) ?r)"
    "\<not> conflict (schema t) Map.empty ?k ?r" "length h + 1 < 2 ^ 32 - 1"
    using D(2-4) st(2) blob_eval by simp_all
  from Insert_exec [OF table_viewD(6) [OF D(1)] table_stateD(2) [OF st(1)] one]
  obtain s1 c1 sec1 where t1: "table_Insert ?k ?r t = (t\<lparr>store := s1, secondary := sec1\<rparr>, Inr ())"
    "session s1 c1 (h @ [(flagLive, ?k, row_bytes blob_schema ?r)])" "stored_rows s1 blob_schema [?k \<mapsto> canonical blob_schema ?r]"
    unfolding D(2) by blast
  let ?t1 = "t\<lparr>store := s1, secondary := sec1\<rparr>"
  have two: "stored_rows (store ?t1) (schema ?t1) [?k \<mapsto> canonical blob_schema ?r]"
    "session (store ?t1) c1 (h @ [(flagLive, ?k, row_bytes blob_schema ?r)])" "schema_ok (schema ?t1)"
    "keyed (schema ?t1) [?k \<mapsto> canonical blob_schema ?r]" "row_typed (schema ?t1) ?r2"
    "small (flagLive, ?k, row_bytes (schema ?t1) ?r2)" "\<not> conflict (schema ?t1) [?k \<mapsto> canonical blob_schema ?r] ?k ?r2"
    "length (h @ [(flagLive, ?k, row_bytes blob_schema ?r)]) + 1 < 2 ^ 32 - 1"
    using t1 D(2,3) st(2) blob_eval by (simp_all add: keyed_def)
  from Insert_exec [OF two] obtain t2 where t2: "table_Insert ?k ?r2 ?t1 = (t2, Inr ())" by blast
  let ?c = "\<lparr>col_Name = str ''raw'', col_Type = BytesType\<rparr>"
  have get: "table_Get ?k t = Inr None" using table_Get_view [OF D(1)] by simp
  have c: "?c \<in> set (tl (Columns blob_schema))" by (simp add: blob_schema_def)
  have differs: "indexValue (canonical_value (col_Type ?c) (row_get ?r (col_Name ?c))) \<noteq> indexValue (row_get ?r (col_Name ?c))"
    by (simp add: blob_row_def row_get_def canonical_value_def indexValue_def str_def)
  have ord: "\<And>ks :: bytes list. mset (rev ks) = mset ks" by simp
  have "row_get ?r (col_Name ?c) = GoBytes (Some [])" by (simp add: blob_row_def row_get_def str_def)
  with stale_index_entry [OF v t(1) c ord get t1(1) t2 blob_eval(3-5) differs]
  have "\<exists>found. Find rev (str ''raw'') (GoBytes (Some [])) t2 = Inr found \<and> canonical blob_schema ?r2 \<in> set found" by simp
  with t(1) t1(1) t2 show ?thesis by blast
qed

end
