(* ===== verification/Catalog.thy ===== *)
theory Catalog
  imports Table
begin

text \<open>
  The table catalog of \<^verbatim>\<open>kv/catalog.go\<close>: the registered tables in memory and the file that holds
  them. The file is what \<^verbatim>\<open>encoding/json\<close> decodes from it: nothing, a list of entries, or bytes that do
  not decode. Writing entries and reading them back gives them with every string made valid UTF-8, which
  can make different names equal. \<open>save\<close> creates, writes, syncs
  and closes a temporary file and renames it; each of these calls may fail, and the old file then
  stays.
\<close>

section \<open>State\<close>

record CatalogEntry =
  ce_Name :: bytes
  ce_Path :: bytes
  ce_Schema :: Schema

datatype catalog_data = NoCatalog | CatalogEntries "CatalogEntry list" | CatalogCorrupt

record catalog_file =
  cat_data :: catalog_data
  cat_faults :: "io_outcome list"

record Catalog =
  cat_file :: catalog_file
  cat_entries :: "(bytes \<times> CatalogEntry) list"

type_synonym 'a catalog_op = "Catalog \<Rightarrow> (Catalog, 'a) outcome"

section \<open>Entries as JSON\<close>

text \<open>
  A value marshalled by \<^verbatim>\<open>encoding/json\<close> and unmarshalled again: in a string every invalid byte has become
  U+FFFD. The keys of a map are written in order, so of two that have become equal the last one's value
  stays; the order of an association list has no meaning, and it is left as it is where no key changes.
\<close>

definition json_constraint :: "ColumnConstraint \<Rightarrow> ColumnConstraint" where
  "json_constraint c =
     c\<lparr>References :=
         map_option (\<lambda>r. \<lparr>ref_Table = ToValidUTF8 (ref_Table r), ref_Column = ToValidUTF8 (ref_Column r)\<rparr>) (References c)\<rparr>"

definition json_constraints :: "(bytes \<times> ColumnConstraint) list \<Rightarrow> (bytes \<times> ColumnConstraint) list" where
  "json_constraints cs =
     (if list_all (\<lambda>(k, c). valid_utf8 k) cs then map (\<lambda>(k, c). (k, json_constraint c)) cs
      else fold (\<lambda>(k, c). AList.update (ToValidUTF8 k) (json_constraint c)) (sort_key fst cs) [])"

definition json_schema :: "Schema \<Rightarrow> Schema" where
  "json_schema s =
     \<lparr>Columns = map (\<lambda>c. c\<lparr>col_Name := ToValidUTF8 (col_Name c)\<rparr>) (Columns s), Constraints = json_constraints (Constraints s)\<rparr>"

definition json_entry :: "CatalogEntry \<Rightarrow> CatalogEntry" where
  "json_entry x =
     \<lparr>ce_Name = ToValidUTF8 (ce_Name x), ce_Path = ToValidUTF8 (ce_Path x), ce_Schema = json_schema (ce_Schema x)\<rparr>"

section \<open>Operations\<close>

definition cat_call :: "catalog_file \<Rightarrow> catalog_file \<times> db_error option" where
  "cat_call f =
     (f\<lparr>cat_faults := tl (cat_faults f)\<rparr>, case cat_faults f of IoFail n # _ \<Rightarrow> Some ErrIO | _ \<Rightarrow> None)"

definition on_file :: "(catalog_file \<Rightarrow> (catalog_file, 'a) outcome) \<Rightarrow> 'a catalog_op" where
  "on_file f c = (case f (cat_file c) of (g, r) \<Rightarrow> (c\<lparr>cat_file := g\<rparr>, r))"

fun load_entries :: "CatalogEntry list \<Rightarrow> (bytes \<times> CatalogEntry) list \<Rightarrow> (bytes \<times> CatalogEntry) list result" where
  "load_entries [] es = Inr es"
| "load_entries (x # xs) es =
     (if ce_Name x = [] \<or> ce_Path x = [] then Inl (ErrMsg ''invalid catalog entry'' [])
      else if map_of es (ce_Name x) \<noteq> None then Inl (ErrMsg ''duplicate catalog table %q'' [ce_Name x])
      else (case validate (ce_Schema x) of
              Inl err \<Rightarrow> Inl (ErrCtx ''catalog table %q'' err)
            | Inr u \<Rightarrow> load_entries xs (AList.update (ce_Name x) x es)))"

definition OpenCatalog :: "catalog_file \<Rightarrow> (catalog_file, Catalog) outcome" where
  "OpenCatalog f =
     (case cat_data f of
        NoCatalog \<Rightarrow> (f, Inr \<lparr>cat_file = f, cat_entries = []\<rparr>)
      | d \<Rightarrow>
          seqR (check ''read catalog'' (cat_call f)) (\<lambda>f u.
            case d of
              CatalogEntries xs \<Rightarrow>
                (case load_entries xs [] of
                   Inl err \<Rightarrow> (f, Inl err)
                 | Inr es \<Rightarrow> (f, Inr \<lparr>cat_file = f, cat_entries = es\<rparr>))
            | _ \<Rightarrow> (f, Inl (ErrMsg ''decode catalog'' []))))"

text \<open>The names are distinct, so every way of sorting gives the same list.\<close>

definition Entries :: "Catalog \<Rightarrow> CatalogEntry list" where
  "Entries c = map snd (sort_key fst (cat_entries c))"

definition save :: "unit catalog_op" where
  "save c =
     seqR (on_file (\<lambda>f. check ''create catalog temp file'' (cat_call f)) c) (\<lambda>c u.
     seqR (on_file (\<lambda>f. check ''write catalog'' (cat_call f)) c) (\<lambda>c u.
     seqR (on_file (\<lambda>f. check ''sync catalog'' (cat_call f)) c) (\<lambda>c u.
     seqR (on_file (\<lambda>f. check [] (cat_call f)) c) (\<lambda>c u.
     seqR (on_file (\<lambda>f. check ''replace catalog'' (cat_call f)) c) (\<lambda>c u.
       (c\<lparr>cat_file := (cat_file c)\<lparr>cat_data := CatalogEntries (map json_entry (Entries c))\<rparr>\<rparr>, Inr ()))))))"

definition catalog_Set :: "CatalogEntry \<Rightarrow> unit catalog_op" where
  "catalog_Set x c =
     (if ce_Name x = [] \<or> ce_Path x = [] then (c, Inl (ErrMsg ''catalog table name and path are required'' []))
      else (case validate (ce_Schema x) of
              Inl err \<Rightarrow> (c, Inl err)
            | Inr u \<Rightarrow> save (c\<lparr>cat_entries := AList.update (ce_Name x) x (cat_entries c)\<rparr>)))"

definition catalog_Delete :: "bytes \<Rightarrow> unit catalog_op" where
  "catalog_Delete name c = save (c\<lparr>cat_entries := AList.delete name (cat_entries c)\<rparr>)"

end
