(* ===== verification/Catalog_Correct.thy ===== *)
theory Catalog_Correct
  imports Catalog Table_Format "HOL-Library.Multiset"
begin

text \<open>
  What the catalog keeps, in memory and on disk, over any sequence of calls with any failures of the
  file system.
\<close>

section \<open>Entries\<close>

definition good_entry :: "CatalogEntry \<Rightarrow> bool" where
  "good_entry x \<longleftrightarrow> ce_Name x \<noteq> [] \<and> ce_Path x \<noteq> [] \<and> validate (ce_Schema x) = Inr ()"

definition entries_ok :: "(bytes \<times> CatalogEntry) list \<Rightarrow> bool" where
  "entries_ok es \<longleftrightarrow> distinct (map fst es) \<and> (\<forall>(n, x) \<in> set es. n = ce_Name x \<and> good_entry x)"

lemma load_entries_ok:
  "entries_ok (acc @ es) \<Longrightarrow> load_entries (map snd es) acc = Inr (acc @ es)"
proof (induction es arbitrary: acc)
  case (Cons e es)
  obtain n x where e: "e = (n, x)" by (cases e)
  have x: "n = ce_Name x" "good_entry x" "n \<notin> fst ` set acc" using Cons.prems by (auto simp: entries_ok_def e)
  then have "map_of acc (ce_Name x) = None" by (simp add: map_of_eq_None_iff)
  moreover have "load_entries (map snd es) (acc @ [(n, x)]) = Inr ((acc @ [(n, x)]) @ es)"
    using Cons.prems by (intro Cons.IH) (simp add: e)
  ultimately show ?case using x by (simp add: e good_entry_def update_new)
qed simp

lemma entries_sorted:
  assumes "entries_ok es"
  shows "entries_ok (sort_key fst es)" "map_of (sort_key fst es) = map_of es"
proof -
  have "mset (map fst (sort_key fst es)) = mset (map fst es)" by (simp only: mset_map mset_sort)
  then have d: "distinct (map fst (sort_key fst es))" using assms mset_eq_imp_distinct_iff [of "map fst (sort_key fst es)" "map fst es"] by (simp add: entries_ok_def)
  with assms show "entries_ok (sort_key fst es)" by (simp add: entries_ok_def)
  show "map_of (sort_key fst es) = map_of es"
    using d assms by (subst map_of_inject_set) (simp_all add: entries_ok_def)
qed

lemma set_update_subset: "set (AList.update k v al) \<subseteq> insert (k, v) (set al)"
  by (induction al) auto

lemma set_delete_subset: "set (AList.delete k al) \<subseteq> set al"
  by (auto simp: AList.delete_eq)

lemma entries_update: "entries_ok es \<Longrightarrow> good_entry x \<Longrightarrow> entries_ok (AList.update (ce_Name x) x es)"
  using set_update_subset [of "ce_Name x" x es] by (fastforce simp: entries_ok_def distinct_update)

lemma entries_delete: "entries_ok es \<Longrightarrow> entries_ok (AList.delete n es)"
  using set_delete_subset [of n es] by (fastforce simp: entries_ok_def distinct_delete)

section \<open>Entries of valid UTF-8\<close>

definition utf8_constraint :: "bytes \<times> ColumnConstraint \<Rightarrow> bool" where
  "utf8_constraint kc \<longleftrightarrow>
     valid_utf8 (fst kc) \<and>
     (case References (snd kc) of None \<Rightarrow> True | Some r \<Rightarrow> valid_utf8 (ref_Table r) \<and> valid_utf8 (ref_Column r))"

definition utf8_entry :: "CatalogEntry \<Rightarrow> bool" where
  "utf8_entry x \<longleftrightarrow>
     valid_utf8 (ce_Name x) \<and> valid_utf8 (ce_Path x) \<and> list_all (\<lambda>c. valid_utf8 (col_Name c)) (Columns (ce_Schema x)) \<and>
     list_all utf8_constraint (Constraints (ce_Schema x))"

lemma json_constraint_utf8: "utf8_constraint (k, c) \<Longrightarrow> json_constraint c = c"
  by (auto simp: utf8_constraint_def json_constraint_def valid_utf8_def split: option.splits)

lemma json_entry_utf8:
  assumes "utf8_entry x"
  shows "json_entry x = x"
proof -
  let ?cs = "Constraints (ce_Schema x)"
  have "map (\<lambda>c. c\<lparr>col_Name := ToValidUTF8 (col_Name c)\<rparr>) (Columns (ce_Schema x)) = Columns (ce_Schema x)"
    using assms by (intro map_idI) (simp add: utf8_entry_def list_all_iff valid_utf8_def)
  moreover have "list_all (\<lambda>(k, c). valid_utf8 k) ?cs"
    using assms by (auto simp: utf8_entry_def list_all_iff utf8_constraint_def)
  moreover have "map (\<lambda>(k, c). (k, json_constraint c)) ?cs = ?cs"
    using assms json_constraint_utf8 by (intro map_idI) (fastforce simp: utf8_entry_def list_all_iff)
  ultimately show ?thesis using assms by (simp add: json_entry_def json_schema_def json_constraints_def utf8_entry_def valid_utf8_def)
qed

section \<open>Calls\<close>

datatype catalog_call = CallSet CatalogEntry | CallRemove bytes

fun catalog_exec :: "catalog_call \<Rightarrow> unit catalog_op" where
  "catalog_exec (CallSet x) = catalog_Set x"
| "catalog_exec (CallRemove n) = catalog_Delete n"

fun catalog_run :: "catalog_call list \<Rightarrow> Catalog \<Rightarrow> Catalog \<times> bool list" where
  "catalog_run [] c = (c, [])"
| "catalog_run (cl # cls) c =
     (case catalog_exec cl c of
        (c', r) \<Rightarrow> (case catalog_run cls c' of (c'', oks) \<Rightarrow> (c'', (r = Inr ()) # oks)))"

fun utf8_call :: "catalog_call \<Rightarrow> bool" where
  "utf8_call (CallSet x) = utf8_entry x"
| "utf8_call (CallRemove n) = True"

text \<open>The specification: a map in memory, which every valid call changes, and a map on disk, which follows when the call succeeds.\<close>

type_synonym registry = "bytes \<rightharpoonup> CatalogEntry"

fun call_map :: "catalog_call \<Rightarrow> registry \<Rightarrow> registry" where
  "call_map (CallSet x) m = (if good_entry x then m(ce_Name x \<mapsto> x) else m)"
| "call_map (CallRemove n) m = m(n := None)"

fun spec_run :: "catalog_call list \<Rightarrow> bool list \<Rightarrow> registry \<Rightarrow> registry \<Rightarrow> registry \<times> registry" where
  "spec_run (cl # cls) (good # oks) mem disk = spec_run cls oks (call_map cl mem) (if good then call_map cl mem else disk)"
| "spec_run cls oks mem disk = (mem, disk)"

definition reload :: "Catalog \<Rightarrow> registry option" where
  "reload c =
     (case snd (OpenCatalog ((cat_file c)\<lparr>cat_faults := []\<rparr>)) of
        Inl err \<Rightarrow> None
      | Inr c' \<Rightarrow> Some (map_of (cat_entries c')))"

definition catalog_rep :: "Catalog \<Rightarrow> registry \<Rightarrow> registry \<Rightarrow> bool" where
  "catalog_rep c mem disk \<longleftrightarrow>
     entries_ok (cat_entries c) \<and> list_all utf8_entry (map snd (cat_entries c)) \<and> map_of (cat_entries c) = mem \<and>
     (cat_data (cat_file c) = NoCatalog \<and> disk = Map.empty \<or>
      (\<exists>es. entries_ok es \<and> cat_data (cat_file c) = CatalogEntries (map snd es) \<and> map_of es = disk))"

lemma reload_rep: "catalog_rep c mem disk \<Longrightarrow> reload c = Some disk"
  using load_entries_ok [of "[]"]
  by (auto simp: catalog_rep_def reload_def OpenCatalog_def seqR_def check_def cat_call_def)

lemma file_call:
  "on_file (\<lambda>f. check w (cat_call f)) c =
     (c\<lparr>cat_file := (cat_file c)\<lparr>cat_faults := tl (cat_faults (cat_file c))\<rparr>\<rparr>,
      case cat_faults (cat_file c) of IoFail n # _ \<Rightarrow> Inl (if w = [] then ErrIO else ErrCtx w ErrIO) | _ \<Rightarrow> Inr ())"
  by (auto simp: on_file_def check_def cat_call_def split: list.splits io_outcome.splits)

text \<open>Saving writes the entries or leaves the file as it was.\<close>

definition saves :: "Catalog \<Rightarrow> (Catalog, unit) outcome \<Rightarrow> bool" where
  "saves c m \<longleftrightarrow>
     cat_entries (fst m) = cat_entries c \<and>
     cat_data (cat_file (fst m)) = (if snd m = Inr () then CatalogEntries (map json_entry (Entries c)) else cat_data (cat_file c))"

lemma saves_call:
  assumes "\<And>c2. cat_entries c2 = cat_entries c \<Longrightarrow> cat_data (cat_file c2) = cat_data (cat_file c) \<Longrightarrow> saves c (f c2 ())"
    and "cat_entries c' = cat_entries c" "cat_data (cat_file c') = cat_data (cat_file c)"
  shows "saves c (seqR (on_file (\<lambda>f. check w (cat_call f)) c') f)"
  using assms by (auto simp: file_call saves_def seqR_def split: list.splits io_outcome.splits)

lemma save_saves: "saves c (save c)"
  unfolding save_def by (intro saves_call) (simp_all add: saves_def Entries_def)

lemma rep_saved:
  assumes "entries_ok (cat_entries c)" and "list_all utf8_entry (map snd (cat_entries c))" and "catalog_rep c0 mem0 disk" and "cat_data (cat_file c) = cat_data (cat_file c0)"
  shows "catalog_rep (fst (save c)) (map_of (cat_entries c)) (if snd (save c) = Inr () then map_of (cat_entries c) else disk)"
proof -
  have "map json_entry (Entries c) = map snd (sort_key fst (cat_entries c))"
    using assms(2) unfolding Entries_def by (intro map_idI) (auto simp: list_all_iff intro!: json_entry_utf8)
  with save_saves [of c] assms entries_sorted [OF assms(1)] show ?thesis by (auto simp: saves_def catalog_rep_def)
qed

lemma exec_rep:
  assumes "catalog_rep c mem disk" and "utf8_call cl"
  shows "catalog_rep (fst (catalog_exec cl c)) (call_map cl mem) (if snd (catalog_exec cl c) = Inr () then call_map cl mem else disk)"
proof (cases cl)
  case (CallSet x)
  show ?thesis
  proof (cases "good_entry x")
    case True
    let ?c = "c\<lparr>cat_entries := AList.update (ce_Name x) x (cat_entries c)\<rparr>"
    have e: "catalog_exec cl c = save ?c" using True by (simp add: CallSet catalog_Set_def good_entry_def)
    have m: "map_of (cat_entries ?c) = call_map cl mem" using assms True by (simp add: CallSet catalog_rep_def update_conv')
    have "entries_ok (cat_entries ?c)" using assms entries_update [of "cat_entries c" x] True by (simp add: catalog_rep_def)
    moreover have "list_all utf8_entry (map snd (cat_entries ?c))"
      using assms set_update_subset [of "ce_Name x" x "cat_entries c"] by (fastforce simp: catalog_rep_def list_all_iff CallSet)
    ultimately have "catalog_rep (fst (save ?c)) (map_of (cat_entries ?c)) (if snd (save ?c) = Inr () then map_of (cat_entries ?c) else disk)"
      using assms(1) by (rule rep_saved) simp
    from this [unfolded m] show ?thesis unfolding e by simp
  next
    case False
    then have "\<exists>err. catalog_exec cl c = (c, Inl err)"
      by (cases "validate (ce_Schema x)") (simp_all add: CallSet catalog_Set_def good_entry_def)
    with False assms show ?thesis by (auto simp: CallSet)
  qed
next
  case (CallRemove n)
  let ?c = "c\<lparr>cat_entries := AList.delete n (cat_entries c)\<rparr>"
  have e: "catalog_exec cl c = save ?c" by (simp add: CallRemove catalog_Delete_def)
  have m: "map_of (cat_entries ?c) = call_map cl mem" using assms by (simp add: CallRemove catalog_rep_def delete_conv')
  have "entries_ok (cat_entries ?c)" using assms entries_delete [of "cat_entries c" n] by (simp add: catalog_rep_def)
  moreover have "list_all utf8_entry (map snd (cat_entries ?c))"
    using assms set_delete_subset [of n "cat_entries c"] by (fastforce simp: catalog_rep_def list_all_iff)
  ultimately have "catalog_rep (fst (save ?c)) (map_of (cat_entries ?c)) (if snd (save ?c) = Inr () then map_of (cat_entries ?c) else disk)"
    using assms(1) by (rule rep_saved) simp
  from this [unfolded m] show ?thesis unfolding e by simp
qed

lemma run_rep:
  "catalog_rep c mem disk \<Longrightarrow> list_all utf8_call cls \<Longrightarrow> catalog_run cls c = (c', oks) \<Longrightarrow> spec_run cls oks mem disk = (mem', disk') \<Longrightarrow> catalog_rep c' mem' disk'"
proof (induction cls arbitrary: c mem disk oks)
  case (Cons cl cls)
  obtain c1 r where e: "catalog_exec cl c = (c1, r)" by (cases "catalog_exec cl c")
  obtain oks' where run: "catalog_run cls c1 = (c', oks')" "oks = (r = Inr ()) # oks'"
    using Cons.prems(3) by (auto simp: e split: prod.splits)
  have "utf8_call cl" "list_all utf8_call cls" using Cons.prems(2) by simp_all
  with Cons.IH [OF exec_rep [OF Cons.prems(1), of cl, unfolded e fst_conv snd_conv] _ run(1)] run(2) Cons.prems(4) show ?case by simp
qed simp

text \<open>
  Names that are not valid UTF-8 may become one name in the file. Two tables registered under such names
  are a catalog that does not open again.
\<close>

definition example_entry :: "bytes \<Rightarrow> CatalogEntry" where
  "example_entry n = \<lparr>ce_Name = n, ce_Path = str ''/tmp/t'', ce_Schema = \<lparr>Columns = [\<lparr>col_Name = str ''id'', col_Type = IntType\<rparr>], Constraints = []\<rparr>\<rparr>"

lemma same_name: "ToValidUTF8 [0xFE] = [0xEF, 0xBF, 0xBD]" "ToValidUTF8 [0xFF] = [0xEF, 0xBF, 0xBD]"
  by (simp_all add: ToValidUTF8_def decode_rune_def lead_info_def RuneError_def encode_rune_def)

lemma catalog_names_collide:
  "case catalog_run [CallSet (example_entry [0xFE]), CallSet (example_entry [0xFF])] \<lparr>cat_file = \<lparr>cat_data = NoCatalog, cat_faults = []\<rparr>, cat_entries = []\<rparr> of
     (c, oks) \<Rightarrow> oks = [True, True] \<and> reload c = None"
proof -
  have good: "validate (ce_Schema (example_entry n)) = Inr ()" for n
    by (simp add: example_entry_def str_def validate_def IntType_def StringType_def TimestampType_def)
  have entry: "ce_Name (example_entry n) = n" "ce_Path (example_entry n) \<noteq> []" for n
    by (simp_all add: example_entry_def str_def)
  have json: "ce_Name (json_entry (example_entry n)) = ToValidUTF8 n" for n by (simp add: json_entry_def example_entry_def)
  have saved: "save \<lparr>cat_file = \<lparr>cat_data = d, cat_faults = []\<rparr>, cat_entries = es\<rparr> =
    (\<lparr>cat_file = \<lparr>cat_data = CatalogEntries (map json_entry (map snd (sort_key fst es))), cat_faults = []\<rparr>, cat_entries = es\<rparr>, Inr ())" for d es
    by (simp add: save_def file_call seqR_def Entries_def)
  let ?es = "[([0xFE :: u8], example_entry [0xFE]), ([0xFF], example_entry [0xFF])]"
  have "sort_key fst ?es = ?es" "sort_key fst (butlast ?es) = butlast ?es" by simp_all
  then have "catalog_run [CallSet (example_entry [0xFE]), CallSet (example_entry [0xFF])]
      \<lparr>cat_file = \<lparr>cat_data = NoCatalog, cat_faults = []\<rparr>, cat_entries = []\<rparr> =
    (\<lparr>cat_file = \<lparr>cat_data = CatalogEntries (map json_entry (map snd ?es)), cat_faults = []\<rparr>, cat_entries = ?es\<rparr>, [True, True])"
    by (simp add: catalog_Set_def entry good saved)
  moreover have "\<exists>err. load_entries (map json_entry (map snd ?es)) [] = Inl err"
    by (auto simp: json same_name split: sum.split)
  ultimately show ?thesis by (auto simp: reload_def OpenCatalog_def seqR_def check_def cat_call_def)
qed

text \<open>C36: The catalog. Over any calls and any failures of the file system, from a database without a catalog, where the strings
  of the entries that are set (names, paths, columns, constraints) are valid UTF-8: the entries in memory are what the valid calls
  make of them, and the file, opened again, holds the entries as of the last call that returned without error. So a call that
  fails changes the entries in memory but not the file.\<close>

theorem catalog_refines_maps:
  assumes "list_all utf8_call cls"
    and "catalog_run cls \<lparr>cat_file = \<lparr>cat_data = NoCatalog, cat_faults = fs\<rparr>, cat_entries = []\<rparr> = (c, oks)"
    and "spec_run cls oks Map.empty Map.empty = (mem, disk)"
  shows "map_of (cat_entries c) = mem \<and> reload c = Some disk"
proof -
  have "catalog_rep \<lparr>cat_file = \<lparr>cat_data = NoCatalog, cat_faults = fs\<rparr>, cat_entries = []\<rparr> Map.empty Map.empty"
    by (simp add: catalog_rep_def entries_ok_def)
  from run_rep [OF this assms] reload_rep show ?thesis by (auto simp: catalog_rep_def)
qed

theorem catalog_refines_maps_witness:
  "\<exists>c. catalog_run [CallSet (example_entry (str ''t'')), CallSet (example_entry (str ''u''))]
        \<lparr>cat_file = \<lparr>cat_data = NoCatalog, cat_faults = replicate 5 IoOk @ [IoFail 0]\<rparr>, cat_entries = []\<rparr> = (c, [True, False]) \<and>
     map_of (cat_entries c) = [str ''t'' \<mapsto> example_entry (str ''t''), str ''u'' \<mapsto> example_entry (str ''u'')] \<and>
     reload c = Some [str ''t'' \<mapsto> example_entry (str ''t'')]"
proof -
  let ?c0 = "\<lparr>cat_file = \<lparr>cat_data = NoCatalog, cat_faults = replicate 5 IoOk @ [IoFail 0]\<rparr>, cat_entries = []\<rparr>"
  let ?cls = "[CallSet (example_entry (str ''t'')), CallSet (example_entry (str ''u''))]"
  have good: "good_entry (example_entry (str ''t''))" "good_entry (example_entry (str ''u''))"
    by (simp_all add: good_entry_def example_entry_def str_def validate_def IntType_def StringType_def TimestampType_def)
  have utf8: "list_all utf8_call ?cls"
    by (simp add: utf8_entry_def example_entry_def str_def valid_ascii)
  obtain c where run: "catalog_run ?cls ?c0 = (c, [True, False])"
    using good by (simp add: catalog_Set_def good_entry_def save_def file_call seqR_def numeral_eq_Suc)
  have "spec_run ?cls [True, False] Map.empty Map.empty =
    ([str ''t'' \<mapsto> example_entry (str ''t''), str ''u'' \<mapsto> example_entry (str ''u'')], [str ''t'' \<mapsto> example_entry (str ''t'')])"
    using good by (simp add: example_entry_def)
  from catalog_refines_maps [OF utf8 run this] run show ?thesis by blast
qed

end
