(* ===== verification/Go_Parse.thy ===== *)
theory Go_Parse
  imports Go_Values
begin

text \<open>
  Reading values from text, as the SQL layer uses the Go standard library for it: \<^verbatim>\<open>strconv.Atoi\<close>,
  \<^verbatim>\<open>strconv.ParseFloat\<close> and \<^verbatim>\<open>time.Parse(time.RFC3339, s)\<close>.
\<close>

section \<open>Characters\<close>

definition is_digit :: "u8 \<Rightarrow> bool" where
  "is_digit b \<longleftrightarrow> 48 \<le> b \<and> b \<le> 57"

definition digit :: "u8 \<Rightarrow> nat" where
  "digit b = unat b - 48"

definition is_hex :: "u8 \<Rightarrow> bool" where
  "is_hex b \<longleftrightarrow> is_digit b \<or> 97 \<le> lower_byte b \<and> lower_byte b \<le> 102"

definition hex_digit :: "u8 \<Rightarrow> nat" where
  "hex_digit b = (if is_digit b then digit b else unat (lower_byte b) - 87)"

text \<open>\<^verbatim>\<open>unicode.IsSpace\<close> and \<^verbatim>\<open>unicode.IsLetter\<close> of a byte taken as a code point.\<close>

definition is_space :: "u8 \<Rightarrow> bool" where
  "is_space b \<longleftrightarrow> 9 \<le> b \<and> b \<le> 13 \<or> b = 32 \<or> b = 0x85 \<or> b = 0xA0"

definition is_letter :: "u8 \<Rightarrow> bool" where
  "is_letter b \<longleftrightarrow>
     65 \<le> b \<and> b \<le> 90 \<or> 97 \<le> b \<and> b \<le> 122 \<or> b = 0xAA \<or> b = 0xB5 \<or> b = 0xBA \<or>
     0xC0 \<le> b \<and> b \<noteq> 0xD7 \<and> b \<noteq> 0xF7"

section \<open>Integers\<close>

definition num_error :: "string \<Rightarrow> bytes \<Rightarrow> string \<Rightarrow> db_error" where
  "num_error fn s why = ErrMsg (''strconv.'' @ fn @ '': parsing %q: '' @ why) [s]"

definition err_syntax :: string where
  "err_syntax = ''invalid syntax''"

definition err_range :: string where
  "err_range = ''value out of range''"

fun atoi_digits :: "bytes \<Rightarrow> nat \<Rightarrow> string + nat" where
  "atoi_digits [] n = Inr n"
| "atoi_digits (c # cs) n =
     (if \<not> is_digit c then Inl err_syntax
      else let n' = n * 10 + digit c in if n' \<ge> 2 ^ 64 then Inl err_range else atoi_digits cs n')"

definition Atoi :: "bytes \<Rightarrow> u64 result" where
  "Atoi s =
     (let (neg, ds) = (case s of [] \<Rightarrow> (False, []) | c # cs \<Rightarrow> if c = 43 then (False, cs) else if c = 45 then (True, cs) else (False, s))
      in if ds = [] then Inl (num_error ''Atoi'' s err_syntax)
         else (case atoi_digits ds 0 of
                 Inl why \<Rightarrow> Inl (num_error ''Atoi'' s why)
               | Inr n \<Rightarrow>
                   if neg then (if n > 2 ^ 63 then Inl (num_error ''Atoi'' s err_range) else Inr (- word_of_nat n))
                   else (if n \<ge> 2 ^ 63 then Inl (num_error ''Atoi'' s err_range) else Inr (word_of_nat n))))"

section \<open>Floating-point numbers\<close>

definition split_sign :: "bytes \<Rightarrow> bool \<times> bytes" where
  "split_sign s = (case s of [] \<Rightarrow> (False, []) | c # cs \<Rightarrow> if c = 43 then (False, cs) else if c = 45 then (True, cs) else (False, s))"

definition float_special :: "bytes \<Rightarrow> u64 option" where
  "float_special s =
     (case split_sign s of (neg, cs) \<Rightarrow>
        if map lower_byte cs = str ''inf'' \<or> map lower_byte cs = str ''infinity'' then Some (fp_pack neg 2047 0)
        else if map lower_byte s = str ''nan'' then Some fp_nan
        else None)"

text \<open>
  The mantissa: the number read so far, the digits after the point, whether a point and whether a
  digit was seen; and the unread rest.
\<close>

fun float_mantissa :: "bool \<Rightarrow> bytes \<Rightarrow> nat \<Rightarrow> nat \<Rightarrow> bool \<Rightarrow> bool \<Rightarrow> nat \<times> nat \<times> bool \<times> bytes" where
  "float_mantissa hex [] m frac dot any = (m, frac, any, [])"
| "float_mantissa hex (c # cs) m frac dot any =
     (if c = 95 then float_mantissa hex cs m frac dot any
      else if c = 46 then (if dot then (m, frac, any, c # cs) else float_mantissa hex cs m frac True any)
      else if is_digit c \<or> hex \<and> is_hex c then
        float_mantissa hex cs (m * (if hex then 16 else 10) + hex_digit c) (if dot then frac + 1 else frac) dot True
      else (m, frac, any, c # cs))"

fun float_exponent :: "bytes \<Rightarrow> nat \<Rightarrow> nat option" where
  "float_exponent [] e = Some e"
| "float_exponent (c # cs) e =
     (if c = 95 then float_exponent cs e
      else if is_digit c then float_exponent cs (if e < 10000 then e * 10 + digit c else e)
      else None)"

datatype digit_seen = SawStart | SawDigit | SawUnderscore | SawOther

fun underscore_loop :: "bool \<Rightarrow> digit_seen \<Rightarrow> bytes \<Rightarrow> bool" where
  "underscore_loop hex saw [] \<longleftrightarrow> saw \<noteq> SawUnderscore"
| "underscore_loop hex saw (c # cs) \<longleftrightarrow>
     (if is_digit c \<or> hex \<and> is_hex c then underscore_loop hex SawDigit cs
      else if c = 95 then saw = SawDigit \<and> underscore_loop hex SawUnderscore cs
      else saw \<noteq> SawUnderscore \<and> underscore_loop hex SawOther cs)"

definition underscoreOK :: "bytes \<Rightarrow> bool" where
  "underscoreOK s =
     (let cs = snd (split_sign s)
      in (case cs of
            z # b # ds \<Rightarrow>
              if z = 48 \<and> (lower_byte b = 98 \<or> lower_byte b = 111 \<or> lower_byte b = 120)
              then underscore_loop (lower_byte b = 120) SawDigit ds else underscore_loop False SawStart cs
          | _ \<Rightarrow> underscore_loop False SawStart cs))"

definition float_read :: "bytes \<Rightarrow> (bool \<times> nat \<times> nat) option" where
  "float_read s =
     (let (neg, cs) = split_sign s;
          hex = (case cs of z # b # d # ds \<Rightarrow> z = 48 \<and> lower_byte b = 120 | _ \<Rightarrow> False);
          (m, frac, any, rest) = float_mantissa hex (if hex then drop 2 cs else cs) 0 0 False False;
          ex = (case rest of
                  [] \<Rightarrow> if hex then None else Some 0
                | c # es \<Rightarrow>
                    if lower_byte c \<noteq> (if hex then 112 else 101) then None
                    else (case split_sign es of (eneg, ds) \<Rightarrow>
                            (case ds of
                               [] \<Rightarrow> None
                             | d # _ \<Rightarrow>
                                 if \<not> is_digit d then None
                                 else map_option (\<lambda>e. if eneg then - int e else int e) (float_exponent ds 0))))
      in if \<not> any then None
         else (case ex of
                 None \<Rightarrow> None
               | Some e \<Rightarrow>
                   if 95 \<in> set s \<and> \<not> underscoreOK s then None
                   else if hex then
                     (let k = e - 4 * int frac
                      in Some (neg, if k \<ge> 0 then (m * 2 ^ nat k * 2 ^ 1074, 1) else (m * 2 ^ 1074, 2 ^ nat (- k))))
                   else Some (neg, fp_scaled m (e - int frac))))"

definition ParseFloat :: "bytes \<Rightarrow> u64 result" where
  "ParseFloat s =
     (case float_special s of
        Some f \<Rightarrow> Inr f
      | None \<Rightarrow>
          (case float_read s of
             None \<Rightarrow> Inl (num_error ''ParseFloat'' s err_syntax)
           | Some (neg, n, d) \<Rightarrow>
               (let f = fp_round neg n d
                in if fp_isinf f then Inl (num_error ''ParseFloat'' s err_range) else Inr f)))"

section \<open>Times\<close>

text \<open>
  Two digits, or one where the layout allows it; the fields in order; the offset. The result is the
  instant in nanoseconds since 1970.
\<close>

definition two_digits :: "bool \<Rightarrow> bytes \<Rightarrow> (nat \<times> bytes) option" where
  "two_digits fixed s =
     (case s of
        [] \<Rightarrow> None
      | a # cs \<Rightarrow>
          if \<not> is_digit a then None
          else (case cs of
                  [] \<Rightarrow> if fixed then None else Some (digit a, cs)
                | b # ds \<Rightarrow>
                    if is_digit b then Some (digit a * 10 + digit b, ds)
                    else if fixed then None else Some (digit a, cs)))"

definition expect :: "u8 \<Rightarrow> bytes \<Rightarrow> bytes option" where
  "expect c s = (case s of [] \<Rightarrow> None | d # ds \<Rightarrow> if d = c then Some ds else None)"

definition dec_value :: "bytes \<Rightarrow> nat" where
  "dec_value ds = fold (\<lambda>d n. n * 10 + digit d) ds 0"

definition parse_fraction :: "bytes \<Rightarrow> nat \<times> bytes" where
  "parse_fraction s =
     (case s of
        c # d # ds \<Rightarrow>
          if (c = 46 \<or> c = 44) \<and> is_digit d
          then (let fs = takeWhile is_digit (d # ds); gs = take 9 fs
                in (dec_value gs * 10 ^ (9 - length gs), dropWhile is_digit (d # ds)))
          else (0, s)
      | _ \<Rightarrow> (0, s))"

definition parse_offset :: "bytes \<Rightarrow> (int \<times> bytes) option" where
  "parse_offset s =
     (case s of
        [] \<Rightarrow> None
      | c # cs \<Rightarrow>
          if c = 90 then Some (0, cs)
          else if length s < 6 \<or> s ! 3 \<noteq> 58 then None
          else
            (case (two_digits True (go_slice 1 3 s), two_digits True (go_slice 4 6 s)) of
               (Some (hr, _), Some (mm, _)) \<Rightarrow>
                 if hr > 24 \<or> mm > 60 then None
                 else if c = 43 then Some (int ((hr * 60 + mm) * 60), drop 6 s)
                 else if c = 45 then Some (- int ((hr * 60 + mm) * 60), drop 6 s)
                 else None
             | _ \<Rightarrow> None))"

definition leap_year :: "nat \<Rightarrow> bool" where
  "leap_year y \<longleftrightarrow> y mod 4 = 0 \<and> (y mod 100 \<noteq> 0 \<or> y mod 400 = 0)"

definition days_in :: "nat \<Rightarrow> nat \<Rightarrow> nat" where
  "days_in m y = (if m = 2 then (if leap_year y then 29 else 28) else if m \<in> {4, 6, 9, 11} then 30 else 31)"

text \<open>The days from 1970 to a date of the Gregorian calendar.\<close>

definition days_from_civil :: "nat \<Rightarrow> nat \<Rightarrow> nat \<Rightarrow> int" where
  "days_from_civil y m d =
     (let y' = int y - (if m \<le> 2 then 1 else 0);
          era = y' div 400;
          yoe = y' mod 400;
          mp = (int m + 9) mod 12;
          doy = (153 * mp + 2) div 5 + int d - 1;
          doe = yoe * 365 + yoe div 4 - yoe div 100 + doy
      in era * 146097 + doe - 719468)"

definition parse_clock :: "bytes \<Rightarrow> (nat \<times> nat \<times> nat \<times> nat \<times> bytes) option" where
  "parse_clock s =
     Option.bind (two_digits False s) (\<lambda>(hour, s).
     Option.bind (expect 58 s) (\<lambda>s.
     Option.bind (two_digits True s) (\<lambda>(min, s).
     Option.bind (expect 58 s) (\<lambda>s.
     Option.bind (two_digits True s) (\<lambda>(sec, s).
       if hour \<ge> 24 \<or> min \<ge> 60 \<or> sec \<ge> 60 then None
       else (case parse_fraction s of (ns, s) \<Rightarrow> Some (hour, min, sec, ns, s)))))))"

definition parse_time :: "bytes \<Rightarrow> int option" where
  "parse_time s =
     (if length s < 4 \<or> \<not> list_all is_digit (take 4 s) then None
      else
        (let year = dec_value (take 4 s)
         in Option.bind (expect 45 (drop 4 s)) (\<lambda>s.
            Option.bind (two_digits True s) (\<lambda>(month, s).
            Option.bind (expect 45 s) (\<lambda>s.
            Option.bind (two_digits True s) (\<lambda>(day, s).
            Option.bind (expect 84 s) (\<lambda>s.
            Option.bind (parse_clock s) (\<lambda>(hour, min, sec, ns, s).
            Option.bind (parse_offset s) (\<lambda>(off, s).
              if month < 1 \<or> month > 12 \<or> s \<noteq> [] \<or> day < 1 \<or> day > days_in month year then None
              else Some ((days_from_civil year month day * 86400 + int (hour * 3600 + min * 60 + sec) - off) * 1000000000 + int ns))))))))))"

end
