(* ===== verification/SQL_Lex.thy ===== *)
theory SQL_Lex
  imports Go_Parse
begin

text \<open>
  The lexer of \<^verbatim>\<open>sql/sql.go\<close> and the splitting of a request into statements. The input is a string of
  bytes; the loops read its unread rest.
\<close>

section \<open>Tokens\<close>

datatype TokenType =
    EOF | Keyword | Identifier | Number | String | Boolean | Null | Parameter | Comma | LParen | RParen
  | Equal | NotEqual | Less | Greater | LessEqual | GreaterEqual | Semicolon

record Token =
  Type :: TokenType
  Lexeme :: bytes

abbreviation Tok :: "TokenType \<Rightarrow> bytes \<Rightarrow> Token" where
  "Tok ty s \<equiv> \<lparr>Type = ty, Lexeme = s\<rparr>"

definition countParameters :: "Token list \<Rightarrow> nat" where
  "countParameters ts = length (filter (\<lambda>t. Type t = Parameter) ts)"

definition keyword_list :: "string list" where
  "keyword_list =
     [''SELECT'', ''FROM'', ''WHERE'', ''INSERT'', ''INTO'', ''VALUES'', ''SHOW'', ''TABLES'', ''LIST'', ''CREATE'', ''TABLE'',
      ''ALTER'', ''ADD'', ''COLUMN'', ''DROP'', ''RENAME'', ''TO'', ''UPDATE'', ''SET'', ''DELETE'', ''AND'', ''OR'', ''EXPLAIN'',
      ''ORDER'', ''BY'', ''ASC'', ''DESC'', ''LIMIT'', ''OFFSET'', ''GROUP'', ''COUNT'', ''SUM'', ''AVG'', ''MIN'', ''MAX'', ''BEGIN'',
      ''COMMIT'', ''ROLLBACK'']"

definition word_type :: "bytes \<Rightarrow> TokenType" where
  "word_type word =
     (let upper = ToUpper word;
          typ = (if upper \<in> set (map str keyword_list) then Keyword else Identifier);
          typ = (if upper = str ''TRUE'' \<or> upper = str ''FALSE'' then Boolean else typ);
          typ = (if upper = str ''NULL'' then Null else typ);
          typ = (case Atoi word of Inl err \<Rightarrow> typ | Inr i \<Rightarrow> Number)
      in (case ParseFloat word of Inl err \<Rightarrow> typ | Inr f \<Rightarrow> Number))"

section \<open>Lexing\<close>

definition number_byte :: "u8 \<Rightarrow> bool" where
  "number_byte b \<longleftrightarrow> is_digit b \<or> b = 46"

definition word_byte :: "u8 \<Rightarrow> bool" where
  "word_byte b \<longleftrightarrow> is_letter b \<or> is_digit b \<or> b = 95 \<or> b = 46"

text \<open>The body of a string literal: what it denotes and the rest after the closing quote.\<close>

fun lex_string :: "u8 \<Rightarrow> bytes \<Rightarrow> bytes \<Rightarrow> (bytes \<times> bytes) option" where
  "lex_string quote [] b = None"
| "lex_string quote (c # cs) b =
     (if c = quote then Some (b, cs)
      else if c = 92 \<and> cs \<noteq> [] then lex_string quote (tl cs) (b @ [hd cs])
      else lex_string quote cs (b @ [c]))"

lemma lex_string_rest: "lex_string quote cs b = Some (s, rest) \<Longrightarrow> length rest < length cs"
  by (induction quote cs b rule: lex_string.induct) (fastforce split: if_splits)+

definition unexpected :: "u8 \<Rightarrow> db_error" where
  "unexpected c = ErrMsg ''unexpected character %q'' [[c]]"

text \<open>One token at the front of the input: nothing for a space, or the token and the rest.\<close>

definition lex_one :: "Token list \<Rightarrow> u8 \<Rightarrow> bytes \<Rightarrow> (Token option \<times> bytes) result" where
  "lex_one out c cs =
     (if is_space c then Inr (None, cs)
      else if c = 45 \<and> cs \<noteq> [] \<and> number_byte (hd cs)
      then Inr (Some (Tok Number (c # takeWhile number_byte cs)), dropWhile number_byte cs)
      else if c = 63 then Inr (Some (Tok Parameter (36 # dec_nat (countParameters out))), cs)
      else if c = 44 then Inr (Some (Tok Comma [c]), cs)
      else if c = 40 then Inr (Some (Tok LParen [c]), cs)
      else if c = 41 then Inr (Some (Tok RParen [c]), cs)
      else if c = 61 then Inr (Some (Tok Equal [c]), cs)
      else if c = 33 \<or> c = 60 \<or> c = 62 then
        (if cs \<noteq> [] \<and> hd cs = 61
         then Inr (Some (Tok (if c = 33 then NotEqual else if c = 60 then LessEqual else GreaterEqual) [c, 61]), tl cs)
         else if c = 33 then Inl (unexpected c)
         else Inr (Some (Tok (if c = 60 then Less else Greater) [c]), cs))
      else if c = 59 then Inr (Some (Tok Semicolon [c]), cs)
      else if c = 42 then Inr (Some (Tok Identifier [c]), cs)
      else if c = 39 \<or> c = 34 then
        (case lex_string c cs [] of
           None \<Rightarrow> Inl (ErrMsg ''unterminated string'' [])
         | Some (s, rest) \<Rightarrow> Inr (Some (Tok String s), rest))
      else if word_byte c
      then (let word = c # takeWhile word_byte cs in Inr (Some (Tok (word_type word) word), dropWhile word_byte cs))
      else Inl (unexpected c))"

lemma lex_one_rest: "lex_one out c cs = Inr (t, rest) \<Longrightarrow> length rest \<le> length cs"
  using length_dropWhile_le [of number_byte cs] length_dropWhile_le [of word_byte cs]
  by (auto simp: lex_one_def Let_def dest!: lex_string_rest split: if_splits option.splits)

function lex_loop :: "bytes \<Rightarrow> Token list \<Rightarrow> Token list result" where
  "lex_loop [] out = Inr (out @ [Tok EOF []])"
| "lex_loop (c # cs) out =
     (case lex_one out c cs of
        Inl err \<Rightarrow> Inl err
      | Inr (None, rest) \<Rightarrow> lex_loop rest out
      | Inr (Some t, rest) \<Rightarrow> lex_loop rest (out @ [t]))"
  by pat_completeness auto
termination
  by (relation "measure (\<lambda>(cs, out). length cs)") (auto dest: lex_one_rest)

definition Lex :: "bytes \<Rightarrow> Token list result" where
  "Lex input = lex_loop input []"

section \<open>Splitting a request\<close>

text \<open>The state of the loop: the open quote, the current part and the parts found.\<close>

fun split_loop :: "bytes \<Rightarrow> u8 option \<Rightarrow> bytes \<Rightarrow> bytes list \<Rightarrow> bytes list" where
  "split_loop [] quote part out = (let x = TrimSpace part in if x \<noteq> [] then out @ [x] else out)"
| "split_loop (c # cs) quote part out =
     (case quote of
        Some q \<Rightarrow> split_loop cs (if c = q then None else Some q) (part @ [c]) out
      | None \<Rightarrow>
          if c = 39 \<or> c = 34 then split_loop cs (Some c) (part @ [c]) out
          else if c = 59
          then split_loop cs None [] (let x = TrimSpace part in if x \<noteq> [] then out @ [x] else out)
          else split_loop cs None (part @ [c]) out)"

definition splitStatements :: "bytes \<Rightarrow> bytes list" where
  "splitStatements s = split_loop s None [] []"

end
