(* ===== verification/SQL_Parse.thy ===== *)
theory SQL_Parse
  imports SQL_Lex Table
begin

text \<open>
  The parser of \<^verbatim>\<open>sql/sql.go\<close>. Its state is the list of the tokens not yet taken, without the
  closing \<open>EOF\<close>: the empty list is the position at \<open>EOF\<close>, which \<open>take\<close> never passes. The
  recursion through parentheses carries a bound; \<open>Diverge\<close> stands for a bound that was too small,
  and \<open>Parse\<close> chooses it so that this does not happen.
\<close>

section \<open>Statements\<close>

datatype Condition =
  Condition (Column: bytes) (Operator: bytes) (CValue: val) (Left: "Condition option") (Right: "Condition option") (Logic: bytes)

record Select =
  sel_Columns :: "bytes list"
  sel_Table :: bytes
  sel_Where :: "Condition option"
  sel_OrderBy :: bytes
  sel_Desc :: bool
  sel_Limit :: u64
  sel_Offset :: u64
  sel_GroupBy :: "bytes list"
  sel_JoinTable :: bytes
  sel_JoinLeft :: bytes
  sel_JoinRight :: bytes

record Insert =
  ins_Table :: bytes
  ins_Columns :: "bytes list"
  ins_Values :: "val list"

record CreateTable =
  cre_Table :: bytes
  cre_Columns :: "Column list"
  cre_Constraints :: "(bytes \<times> ColumnConstraint) list"

record AlterTable =
  alt_Table :: bytes
  alt_Action :: string
  alt_Name :: bytes
  alt_NewName :: bytes
  alt_Column :: Column

record Update =
  upd_Table :: bytes
  upd_Set :: "(bytes \<times> val) list"
  upd_Where :: "Condition option"

record Delete =
  del_Table :: bytes
  del_Where :: "Condition option"

datatype Statement =
    Begin
  | Commit
  | Rollback
  | Explain Statement
  | ExplainTable bytes
  | StSelect Select
  | StInsert Insert
  | ListTables
  | StUpdate Update
  | StDelete Delete
  | DropTable bytes
  | StAlter AlterTable
  | StCreate CreateTable

section \<open>The parser state\<close>

type_synonym 'a parsed = "('a \<times> Token list) result"

definition cur :: "Token list \<Rightarrow> Token" where
  "cur ts = (case ts of [] \<Rightarrow> Tok EOF [] | t # us \<Rightarrow> t)"

definition take_token :: "Token list \<Rightarrow> Token list" where
  "take_token ts = tl ts"

text \<open>\<^verbatim>\<open>p.t[p.p+1]\<close>, which panics at the last token.\<close>

definition next_token :: "Token list \<Rightarrow> Token result" where
  "next_token ts = (case ts of [] \<Rightarrow> Inl Panic | t # us \<Rightarrow> Inr (cur us))"

definition is_word :: "string \<Rightarrow> Token list \<Rightarrow> bool" where
  "is_word w ts \<longleftrightarrow> EqualFold (Lexeme (cur ts)) (str w)"

definition pseq :: "'a parsed \<Rightarrow> ('a \<Rightarrow> Token list \<Rightarrow> 'b parsed) \<Rightarrow> 'b parsed" where
  "pseq m f = (case m of Inl err \<Rightarrow> Inl err | Inr (a, ts) \<Rightarrow> f a ts)"

definition want :: "string \<Rightarrow> Token list \<Rightarrow> unit parsed" where
  "want s ts =
     (if \<not> is_word s ts then Inl (ErrMsg ''expected %s, got %s'' [str s, Lexeme (cur ts)])
      else Inr ((), take_token ts))"

text \<open>Taking a token as a name.\<close>

definition name :: "Token list \<Rightarrow> bytes parsed" where
  "name ts = Inr (Lexeme (cur ts), take_token ts)"

definition sql_value :: "Token \<Rightarrow> val result" where
  "sql_value t =
     (if Type t = Parameter then
        (case Atoi (if take 1 (Lexeme t) = [36] then drop 1 (Lexeme t) else Lexeme t) of
           Inl err \<Rightarrow> Inl (ErrMsg ''invalid parameter'' [])
         | Inr i \<Rightarrow> Inr (GoParam (unat i)))
      else if Type t = Number then
        (if 46 \<in> set (Lexeme t)
         then (case ParseFloat (Lexeme t) of Inl err \<Rightarrow> Inl err | Inr f \<Rightarrow> Inr (GoFloat f))
         else (case Atoi (Lexeme t) of Inl err \<Rightarrow> Inl err | Inr i \<Rightarrow> Inr (GoInt i)))
      else if Type t = String then Inr (GoString (Lexeme t))
      else if Type t = Boolean then Inr (GoBool (EqualFold (Lexeme t) (str ''true'')))
      else if Type t = Null then Inr GoNil
      else Inl (ErrMsg ''expected value'' []))"

definition value_token :: "Token list \<Rightarrow> val parsed" where
  "value_token ts = (case sql_value (cur ts) of Inl err \<Rightarrow> Inl err | Inr v \<Rightarrow> Inr (v, take_token ts))"

section \<open>Lists\<close>

text \<open>
  \<open>comma_list p\<close> is a loop that parses an item, stops unless a comma follows, and goes on after the
  comma. It ends because an item never gives tokens back; a loop whose item did would be \<open>Diverge\<close>.
\<close>

function comma_list :: "(Token list \<Rightarrow> 'a parsed) \<Rightarrow> Token list \<Rightarrow> 'a list parsed" where
  "comma_list p ts =
     (case p ts of
        Inl err \<Rightarrow> Inl err
      | Inr (x, us) \<Rightarrow>
          if Type (cur us) \<noteq> Comma then Inr ([x], us)
          else if length us \<le> length ts then pseq (comma_list p (take_token us)) (\<lambda>xs ws. Inr (x # xs, ws))
          else Inl Diverge)"
  by pat_completeness auto
termination
  by (relation "measure (\<lambda>(p, ts). length ts)") (auto simp: take_token_def cur_def split: list.splits)

declare comma_list.simps [simp del]

section \<open>Conditions\<close>

definition both :: "string \<Rightarrow> Condition \<Rightarrow> Condition \<Rightarrow> Condition" where
  "both op left right = Condition [] [] GoNil (Some left) (Some right) (str op)"

definition comparison :: "TokenType \<Rightarrow> bool" where
  "comparison ty \<longleftrightarrow> ty \<in> {Equal, NotEqual, Less, Greater, LessEqual, GreaterEqual}"

definition parse_test :: "Token list \<Rightarrow> Condition parsed" where
  "parse_test ts =
     pseq (name ts) (\<lambda>col ts.
       if is_word ''IS'' ts then
         (let ts = take_token ts;
              negated = is_word ''NOT'' ts;
              ts = (if negated then take_token ts else ts)
          in if \<not> is_word ''NULL'' ts then Inl (ErrMsg ''expected NULL after IS'' [])
             else Inr (Condition col (str (if negated then ''IS NOT NULL'' else ''IS NULL'')) GoNil None None [], take_token ts))
       else if \<not> comparison (Type (cur ts)) then Inl (ErrMsg ''expected comparison operator'' [])
       else pseq (value_token (take_token ts)) (\<lambda>v us. Inr (Condition col (Lexeme (cur ts)) v None None [], us)))"

fun parseOr :: "nat \<Rightarrow> Token list \<Rightarrow> Condition parsed"
  and or_loop :: "nat \<Rightarrow> Condition \<Rightarrow> Token list \<Rightarrow> Condition parsed"
  and parseAnd :: "nat \<Rightarrow> Token list \<Rightarrow> Condition parsed"
  and and_loop :: "nat \<Rightarrow> Condition \<Rightarrow> Token list \<Rightarrow> Condition parsed"
  and parsePrimary :: "nat \<Rightarrow> Token list \<Rightarrow> Condition parsed" where
  "parseOr 0 ts = Inl Diverge"
| "parseOr (Suc n) ts = pseq (parseAnd n ts) (\<lambda>left ts. or_loop n left ts)"
| "or_loop 0 left ts = Inl Diverge"
| "or_loop (Suc n) left ts =
     (if is_word ''OR'' ts
      then pseq (parseAnd n (take_token ts)) (\<lambda>right ts. or_loop n (both ''OR'' left right) ts)
      else Inr (left, ts))"
| "parseAnd 0 ts = Inl Diverge"
| "parseAnd (Suc n) ts = pseq (parsePrimary n ts) (\<lambda>left ts. and_loop n left ts)"
| "and_loop 0 left ts = Inl Diverge"
| "and_loop (Suc n) left ts =
     (if is_word ''AND'' ts
      then pseq (parsePrimary n (take_token ts)) (\<lambda>right ts. and_loop n (both ''AND'' left right) ts)
      else Inr (left, ts))"
| "parsePrimary 0 ts = Inl Diverge"
| "parsePrimary (Suc n) ts =
     (if Type (cur ts) = LParen
      then pseq (parseOr n (take_token ts)) (\<lambda>c ts. pseq (want '')'' ts) (\<lambda>u ts. Inr (c, ts)))
      else parse_test ts)"

definition condition_bound :: "Token list \<Rightarrow> nat" where
  "condition_bound ts = 4 * length ts + 4"

definition condition :: "Token list \<Rightarrow> Condition option parsed" where
  "condition ts =
     (if \<not> is_word ''WHERE'' ts then Inr (None, ts)
      else pseq (parseOr (condition_bound ts) (take_token ts)) (\<lambda>c ts. Inr (Some c, ts)))"

section \<open>The statements\<close>

definition column_type :: "bytes \<Rightarrow> u8 result" where
  "column_type typ =
     (let u = ToUpper typ
      in if u = str ''INT'' then Inr IntType
         else if u = str ''STRING'' \<or> u = str ''TEXT'' then Inr StringType
         else if u = str ''BOOL'' \<or> u = str ''BOOLEAN'' then Inr BoolType
         else if u = str ''FLOAT'' \<or> u = str ''REAL'' \<or> u = str ''DOUBLE'' then Inr FloatType
         else if u = str ''BYTES'' \<or> u = str ''BLOB'' then Inr BytesType
         else if u = str ''TIMESTAMP'' then Inr TimestampType
         else Inl (ErrMsg ''unknown type %q'' [typ]))"

definition column_def :: "Token list \<Rightarrow> Column parsed" where
  "column_def ts =
     pseq (name ts) (\<lambda>n ts.
     pseq (name ts) (\<lambda>typ ts.
       case column_type typ of Inl err \<Rightarrow> Inl err | Inr ct \<Rightarrow> Inr (\<lparr>col_Name = n, col_Type = ct\<rparr>, ts)))"

definition constraint_word :: "Token list \<Rightarrow> bool" where
  "constraint_word ts \<longleftrightarrow> is_word ''NOT'' ts \<or> is_word ''UNIQUE'' ts \<or> is_word ''REFERENCES'' ts"

definition constraint_one :: "ColumnConstraint \<Rightarrow> Token list \<Rightarrow> ColumnConstraint parsed" where
  "constraint_one c ts =
     (let us = take_token ts
      in if is_word ''NOT'' ts then pseq (want ''NULL'' us) (\<lambda>u us. Inr (c\<lparr>NotNull := True\<rparr>, us))
         else if is_word ''UNIQUE'' ts then Inr (c\<lparr>Unique := True\<rparr>, us)
         else
           pseq (name us) (\<lambda>rt us.
           pseq (want ''('' us) (\<lambda>u us.
           pseq (name us) (\<lambda>rc us.
           pseq (want '')'' us) (\<lambda>u us.
             Inr (c\<lparr>References := Some \<lparr>ref_Table = rt, ref_Column = rc\<rparr>\<rparr>, us))))))"

lemma cur_word: "is_word w ts \<Longrightarrow> w \<noteq> [] \<Longrightarrow> ts \<noteq> []"
  by (auto simp: is_word_def cur_def str_def)

lemma constraint_one_rest: "constraint_word ts \<Longrightarrow> constraint_one c ts = Inr (d, us) \<Longrightarrow> length us < length ts"
  by (cases ts) (auto simp: constraint_one_def constraint_word_def pseq_def want_def name_def take_token_def Let_def
      dest: cur_word split: if_splits sum.splits)

function constraints_loop :: "ColumnConstraint \<Rightarrow> Token list \<Rightarrow> ColumnConstraint parsed" where
  "constraints_loop c ts =
     (if constraint_word ts
      then (case constraint_one c ts of Inl err \<Rightarrow> Inl err | Inr (d, us) \<Rightarrow> constraints_loop d us)
      else Inr (c, ts))"
  by pat_completeness auto
termination
  by (relation "measure (\<lambda>(c, ts). length ts)") (auto dest: constraint_one_rest)

declare constraints_loop.simps [simp del]

definition create_column :: "Token list \<Rightarrow> (Column \<times> ColumnConstraint) parsed" where
  "create_column ts =
     pseq (column_def ts) (\<lambda>c ts.
     pseq (constraints_loop \<lparr>NotNull = False, Unique = False, References = None\<rparr> ts) (\<lambda>cc ts. Inr ((c, cc), ts)))"

definition createStmt :: "Token list \<Rightarrow> Statement parsed" where
  "createStmt ts =
     pseq (want ''TABLE'' (take_token ts)) (\<lambda>u ts.
     pseq (name ts) (\<lambda>table ts.
     pseq (want ''('' ts) (\<lambda>u ts.
     pseq (comma_list create_column ts) (\<lambda>cs ts.
     pseq (want '')'' ts) (\<lambda>u ts.
       Inr (StCreate \<lparr>cre_Table = table, cre_Columns = map fst cs,
              cre_Constraints = fold (\<lambda>(c, cc). AList.update (col_Name c) cc) cs []\<rparr>, ts))))))"

definition dropStmt :: "Token list \<Rightarrow> Statement parsed" where
  "dropStmt ts =
     (let ts = take_token ts
      in if is_word ''TABLE'' ts then pseq (name (take_token ts)) (\<lambda>n ts. Inr (DropTable n, ts))
         else Inl (ErrMsg ''expected TABLE'' []))"

definition no_column :: Column where
  "no_column = \<lparr>col_Name = [], col_Type = 0\<rparr>"

definition alterStmt :: "Token list \<Rightarrow> Statement parsed" where
  "alterStmt ts =
     pseq (want ''TABLE'' (take_token ts)) (\<lambda>u ts.
     pseq (name ts) (\<lambda>t ts.
     pseq (name ts) (\<lambda>act ts.
       let action = ToUpper act
       in if action = str ''ADD'' then
            pseq (want ''COLUMN'' ts) (\<lambda>u ts.
            pseq (column_def ts) (\<lambda>c ts.
              Inr (StAlter \<lparr>alt_Table = t, alt_Action = ''add'', alt_Name = [], alt_NewName = [], alt_Column = c\<rparr>, ts)))
          else if action = str ''DROP'' then
            pseq (want ''COLUMN'' ts) (\<lambda>u ts.
            pseq (name ts) (\<lambda>n ts.
              Inr (StAlter \<lparr>alt_Table = t, alt_Action = ''drop'', alt_Name = n, alt_NewName = [], alt_Column = no_column\<rparr>, ts)))
          else if action = str ''RENAME'' then
            pseq (want ''COLUMN'' ts) (\<lambda>u ts.
            pseq (name ts) (\<lambda>n ts.
            pseq (want ''TO'' ts) (\<lambda>u ts.
            pseq (name ts) (\<lambda>nn ts.
              Inr (StAlter \<lparr>alt_Table = t, alt_Action = ''rename'', alt_Name = n, alt_NewName = nn, alt_Column = no_column\<rparr>, ts)))))
          else Inl (ErrMsg ''unsupported ALTER action'' []))))"

definition assignment :: "Token list \<Rightarrow> (bytes \<times> val) parsed" where
  "assignment ts =
     pseq (name ts) (\<lambda>n ts.
     pseq (want ''='' ts) (\<lambda>u ts.
     pseq (value_token ts) (\<lambda>v ts. Inr ((n, v), ts))))"

definition updateStmt :: "Token list \<Rightarrow> Statement parsed" where
  "updateStmt ts =
     pseq (name (take_token ts)) (\<lambda>t ts.
     pseq (want ''SET'' ts) (\<lambda>u ts.
     pseq (comma_list assignment ts) (\<lambda>sets ts.
     pseq (condition ts) (\<lambda>w ts.
       Inr (StUpdate \<lparr>upd_Table = t, upd_Set = fold (\<lambda>(n, v). AList.update n v) sets [], upd_Where = w\<rparr>, ts)))))"

definition deleteStmt :: "Token list \<Rightarrow> Statement parsed" where
  "deleteStmt ts =
     pseq (want ''FROM'' (take_token ts)) (\<lambda>u ts.
     pseq (name ts) (\<lambda>t ts.
     pseq (condition ts) (\<lambda>w ts. Inr (StDelete \<lparr>del_Table = t, del_Where = w\<rparr>, ts))))"

definition isAggregateName :: "bytes \<Rightarrow> bool" where
  "isAggregateName s \<longleftrightarrow> ToUpper s \<in> {str ''COUNT'', str ''SUM'', str ''AVG'', str ''MIN'', str ''MAX''}"

definition select_column :: "Token list \<Rightarrow> bytes parsed" where
  "select_column ts =
     (if isAggregateName (Lexeme (cur ts)) then
        (case next_token ts of
           Inl err \<Rightarrow> Inl err
         | Inr nt \<Rightarrow>
             if Type nt = LParen then
               pseq (name (take_token (take_token ts))) (\<lambda>arg us.
               pseq (want '')'' us) (\<lambda>u us. Inr (ToUpper (Lexeme (cur ts)) @ [40] @ arg @ [41], us)))
             else name ts)
      else name ts)"

definition join_clause :: "Token list \<Rightarrow> (bytes \<times> bytes \<times> bytes) parsed" where
  "join_clause ts =
     (case (if is_word ''JOIN'' ts then Inr True
            else if is_word ''INNER'' ts
            then (case next_token ts of Inl err \<Rightarrow> Inl err | Inr nt \<Rightarrow> Inr (EqualFold (Lexeme nt) (str ''JOIN'')))
            else Inr False) of
        Inl err \<Rightarrow> Inl err
      | Inr False \<Rightarrow> Inr (([], [], []), ts)
      | Inr True \<Rightarrow>
          (let ts = (if is_word ''INNER'' ts then take_token ts else ts)
           in pseq (name (take_token ts)) (\<lambda>table ts.
              pseq (want ''ON'' ts) (\<lambda>u ts.
              pseq (name ts) (\<lambda>left ts.
              pseq (want ''='' ts) (\<lambda>u ts.
              pseq (name ts) (\<lambda>right ts. Inr ((table, left, right), ts))))))))"

definition group_clause :: "Token list \<Rightarrow> bytes list parsed" where
  "group_clause ts =
     (if is_word ''GROUP'' ts
      then pseq (want ''BY'' (take_token ts)) (\<lambda>u ts. comma_list name ts)
      else Inr ([], ts))"

definition order_clause :: "Token list \<Rightarrow> (bytes \<times> bool) parsed" where
  "order_clause ts =
     (if is_word ''ORDER'' ts then
        pseq (want ''BY'' (take_token ts)) (\<lambda>u ts.
        pseq (name ts) (\<lambda>col ts.
          if is_word ''ASC'' ts \<or> is_word ''DESC'' ts then Inr ((col, is_word ''DESC'' ts), take_token ts)
          else Inr ((col, False), ts)))
      else Inr (([], False), ts))"

text \<open>The type assertion \<^verbatim>\<open>n.(int)\<close> panics on any other value.\<close>

definition int_clause :: "string \<Rightarrow> u64 \<Rightarrow> Token list \<Rightarrow> u64 parsed" where
  "int_clause w dflt ts =
     (if is_word w ts then
        (case sql_value (cur (take_token ts)) of
           Inl err \<Rightarrow> Inl err
         | Inr (GoInt i) \<Rightarrow> Inr (i, take_token (take_token ts))
         | Inr v \<Rightarrow> Inl Panic)
      else Inr (dflt, ts))"

definition selectStmt :: "Token list \<Rightarrow> Statement parsed" where
  "selectStmt ts =
     pseq (comma_list select_column (take_token ts)) (\<lambda>cols ts.
     pseq (want ''FROM'' ts) (\<lambda>u ts.
     pseq (name ts) (\<lambda>table ts.
     pseq (join_clause ts) (\<lambda>(jt, jl, jr) ts.
     pseq (condition ts) (\<lambda>w ts.
     pseq (group_clause ts) (\<lambda>groups ts.
     pseq (order_clause ts) (\<lambda>(by_col, desc) ts.
     pseq (int_clause ''LIMIT'' (- 1) ts) (\<lambda>limit ts.
     pseq (int_clause ''OFFSET'' 0 ts) (\<lambda>off ts.
       Inr (StSelect \<lparr>sel_Columns = cols, sel_Table = table, sel_Where = w, sel_OrderBy = by_col, sel_Desc = desc,
              sel_Limit = limit, sel_Offset = off, sel_GroupBy = groups, sel_JoinTable = jt, sel_JoinLeft = jl,
              sel_JoinRight = jr\<rparr>, ts))))))))))"

definition insertStmt :: "Token list \<Rightarrow> Statement parsed" where
  "insertStmt ts =
     pseq (want ''INTO'' (take_token ts)) (\<lambda>u ts.
     pseq (name ts) (\<lambda>table ts.
     pseq (want ''('' ts) (\<lambda>u ts.
     pseq (comma_list name ts) (\<lambda>cols ts.
     pseq (want '')'' ts) (\<lambda>u ts.
     pseq (want ''VALUES'' ts) (\<lambda>u ts.
     pseq (want ''('' ts) (\<lambda>u ts.
     pseq (comma_list value_token ts) (\<lambda>vals ts.
     pseq (want '')'' ts) (\<lambda>u ts.
       if length cols \<noteq> length vals then Inl (ErrMsg ''column/value count mismatch'' [])
       else Inr (StInsert \<lparr>ins_Table = table, ins_Columns = cols, ins_Values = vals\<rparr>, ts))))))))))"

definition tablesStmt :: "string \<Rightarrow> Token list \<Rightarrow> Statement parsed" where
  "tablesStmt w ts =
     pseq (want w ts) (\<lambda>u ts. pseq (want ''TABLES'' ts) (\<lambda>u ts. Inr (ListTables, ts)))"

definition at_end :: "Token list \<Rightarrow> bool" where
  "at_end ts \<longleftrightarrow> Type (cur ts) = EOF \<or> Type (cur ts) = Semicolon"

definition explainStmt :: "Token list \<Rightarrow> Statement parsed" where
  "explainStmt ts =
     (let ts = take_token ts; wrap = (\<lambda>m. pseq m (\<lambda>s ts. Inr (Explain s, ts)))
      in if at_end ts then Inl (ErrMsg ''expected statement after EXPLAIN'' [])
         else if is_word ''TABLE'' ts then
           (let ts = take_token ts
            in if at_end ts then Inl (ErrMsg ''expected table name after EXPLAIN TABLE'' [])
               else pseq (name ts) (\<lambda>t ts. Inr (ExplainTable t, ts)))
         else if is_word ''SELECT'' ts then wrap (selectStmt ts)
         else if is_word ''INSERT'' ts then wrap (insertStmt ts)
         else if is_word ''UPDATE'' ts then wrap (updateStmt ts)
         else if is_word ''DELETE'' ts then wrap (deleteStmt ts)
         else Inl (ErrMsg ''EXPLAIN supports SELECT, INSERT, UPDATE, or DELETE'' []))"

definition statement :: "Token list \<Rightarrow> Statement parsed" where
  "statement ts =
     (if is_word ''BEGIN'' ts then Inr (Begin, take_token ts)
      else if is_word ''COMMIT'' ts then Inr (Commit, take_token ts)
      else if is_word ''ROLLBACK'' ts then Inr (Rollback, take_token ts)
      else if is_word ''EXPLAIN'' ts then explainStmt ts
      else if is_word ''SELECT'' ts then selectStmt ts
      else if is_word ''INSERT'' ts then insertStmt ts
      else if is_word ''CREATE'' ts then createStmt ts
      else if is_word ''DROP'' ts then dropStmt ts
      else if is_word ''ALTER'' ts then alterStmt ts
      else if is_word ''UPDATE'' ts then updateStmt ts
      else if is_word ''DELETE'' ts then deleteStmt ts
      else if is_word ''SHOW'' ts then tablesStmt ''SHOW'' ts
      else if is_word ''LIST'' ts then tablesStmt ''LIST'' ts
      else Inl (ErrMsg ''expected SELECT, INSERT, CREATE, ALTER, DROP, UPDATE, DELETE, SHOW TABLES, or LIST TABLES'' []))"

definition parse_tokens :: "Token list \<Rightarrow> Statement result" where
  "parse_tokens ts =
     (case statement ts of
        Inl err \<Rightarrow> Inl err
      | Inr (s, us) \<Rightarrow>
          (let us = (if Type (cur us) = Semicolon then take_token us else us)
           in if Type (cur us) \<noteq> EOF then Inl (ErrMsg ''unexpected token after ;: %s'' [Lexeme (cur us)]) else Inr s))"

definition Parse :: "bytes \<Rightarrow> Statement result" where
  "Parse input = (case Lex input of Inl err \<Rightarrow> Inl err | Inr ts \<Rightarrow> parse_tokens (butlast ts))"

end
