(* ===== verification/SQL_Query.thy ===== *)
theory SQL_Query
  imports SQL_Parse
begin

text \<open>
  The parts of the SQL executor that compute with rows only: comparison, conditions, conversion of
  values, joins, aggregates, ordering and paging, and the binding of parameters.
\<close>

section \<open>Values\<close>

definition number :: "val \<Rightarrow> u64 option" where
  "number v = (case v of GoInt i \<Rightarrow> Some (fp_of_int i) | GoFloat f \<Rightarrow> Some f | _ \<Rightarrow> None)"

definition three_way :: "bool \<Rightarrow> bool \<Rightarrow> int" where
  "three_way lt gt = (if lt then - 1 else if gt then 1 else 0)"

text \<open>The integer case of the source comes after the numeric one and is never reached.\<close>

definition compare :: "val \<Rightarrow> val \<Rightarrow> int" where
  "compare a b =
     (case (number a, number b) of
        (Some x, Some y) \<Rightarrow> three_way (fp_less x y) (fp_less y x)
      | _ \<Rightarrow>
          (case (a, b) of
             (GoString x, GoString y) \<Rightarrow> three_way (x < y) (x > y)
           | (GoBool x, GoBool y) \<Rightarrow> if x = y then 0 else if \<not> x then - 1 else 1
           | _ \<Rightarrow> three_way (Sprint a < Sprint b) (Sprint a > Sprint b)))"

fun after_dot :: "bytes \<Rightarrow> bytes option" where
  "after_dot [] = None"
| "after_dot (c # cs) = (if c = 46 then Some cs else after_dot cs)"

definition lookupColumn :: "row \<Rightarrow> bytes \<Rightarrow> val option" where
  "lookupColumn r n =
     (case map_of r n of
        Some v \<Rightarrow> Some v
      | None \<Rightarrow> (case after_dot n of None \<Rightarrow> None | Some m \<Rightarrow> map_of r m))"

definition lookup :: "row \<Rightarrow> bytes \<Rightarrow> val" where
  "lookup r n = (case lookupColumn r n of None \<Rightarrow> GoNil | Some v \<Rightarrow> v)"

definition test_operator :: "bytes \<Rightarrow> int \<Rightarrow> bool" where
  "test_operator op c =
     (if op = str ''='' then c = 0
      else if op = str ''!='' then c \<noteq> 0
      else if op = str ''<'' then c < 0
      else if op = str ''>'' then c > 0
      else if op = str ''<='' then c \<le> 0
      else if op = str ''>='' then c \<ge> 0
      else False)"

fun match :: "Condition option \<Rightarrow> row \<Rightarrow> bool" where
  "match None r = True"
| "match (Some (Condition col op v left right logic)) r =
     (if logic = str ''AND'' then match left r \<and> match right r
      else if logic = str ''OR'' then match left r \<or> match right r
      else
        (let x = lookup r col
         in if op = str ''IS NULL'' then x = GoNil
            else if op = str ''IS NOT NULL'' then x \<noteq> GoNil
            else if x = GoNil \<or> v = GoNil then False
            else test_operator op (compare x v)))"

definition columnTypeName :: "u8 \<Rightarrow> string" where
  "columnTypeName ty =
     (if ty = IntType then ''INT'' else if ty = StringType then ''STRING'' else if ty = BoolType then ''BOOL''
      else if ty = FloatType then ''FLOAT'' else if ty = BytesType then ''BYTES'' else if ty = TimestampType then ''TIMESTAMP''
      else ''UNKNOWN'')"

definition wrong_type :: "u8 \<Rightarrow> db_error" where
  "wrong_type ty = ErrMsg ''value has wrong type for %s'' [str (columnTypeName ty)]"

definition coerceValue :: "val \<Rightarrow> u8 \<Rightarrow> val result" where
  "coerceValue v ty =
     (if v = GoNil then Inr GoNil
      else if ty = FloatType then
        (case v of GoInt i \<Rightarrow> Inr (GoFloat (fp_of_int i)) | GoFloat f \<Rightarrow> Inr v | _ \<Rightarrow> Inl (wrong_type ty))
      else if ty = BytesType then
        (case v of GoString s \<Rightarrow> Inr (GoBytes (Some s)) | GoBytes b \<Rightarrow> Inr v | _ \<Rightarrow> Inl (wrong_type ty))
      else if ty = TimestampType then
        (case v of
           GoString s \<Rightarrow>
             (case parse_time s of None \<Rightarrow> Inl (ErrMsg ''invalid timestamp %q'' [s]) | Some ns \<Rightarrow> Inr (GoTime (UTC ns)))
         | GoTime t \<Rightarrow> Inr v
         | _ \<Rightarrow> Inl (wrong_type ty))
      else Inr v)"

section \<open>Parameters\<close>

definition value_params :: "val \<Rightarrow> nat" where
  "value_params v = (case v of GoParam n \<Rightarrow> Suc n | _ \<Rightarrow> 0)"

fun cond_params :: "Condition option \<Rightarrow> nat" where
  "cond_params None = 0"
| "cond_params (Some (Condition col op v left right logic)) =
     max (value_params v) (max (cond_params left) (cond_params right))"

fun countStatementParameters :: "Statement \<Rightarrow> nat" where
  "countStatementParameters (StInsert q) = fold max (map value_params (ins_Values q)) 0"
| "countStatementParameters (StUpdate q) = fold max (map (value_params \<circ> snd) (upd_Set q)) (cond_params (upd_Where q))"
| "countStatementParameters (StDelete q) = cond_params (del_Where q)"
| "countStatementParameters (StSelect q) = cond_params (sel_Where q)"
| "countStatementParameters (Explain s) = countStatementParameters s"
| "countStatementParameters s = 0"

definition bind_value :: "val list \<Rightarrow> val \<Rightarrow> val" where
  "bind_value args v = (case v of GoParam n \<Rightarrow> args ! n | _ \<Rightarrow> v)"

fun bind_cond :: "val list \<Rightarrow> Condition option \<Rightarrow> Condition option" where
  "bind_cond args None = None"
| "bind_cond args (Some (Condition col op v left right logic)) =
     Some (Condition col op (bind_value args v) (bind_cond args left) (bind_cond args right) logic)"

fun bind_all :: "val list \<Rightarrow> Statement \<Rightarrow> Statement" where
  "bind_all args (StInsert q) = StInsert (q\<lparr>ins_Values := map (bind_value args) (ins_Values q)\<rparr>)"
| "bind_all args (StUpdate q) =
     StUpdate (q\<lparr>upd_Set := map (\<lambda>(k, v). (k, bind_value args v)) (upd_Set q), upd_Where := bind_cond args (upd_Where q)\<rparr>)"
| "bind_all args (StDelete q) = StDelete (q\<lparr>del_Where := bind_cond args (del_Where q)\<rparr>)"
| "bind_all args (StSelect q) = StSelect (q\<lparr>sel_Where := bind_cond args (sel_Where q)\<rparr>)"
| "bind_all args (Explain s) = Explain (bind_all args s)"
| "bind_all args s = s"

text \<open>A parameter without an argument is an index out of range.\<close>

definition bindStatement :: "Statement \<Rightarrow> val list \<Rightarrow> Statement result" where
  "bindStatement s args =
     (if countStatementParameters s > length args then Inl Panic else Inr (bind_all args s))"

section \<open>Joins\<close>

definition join_rows :: "bytes \<Rightarrow> row \<Rightarrow> row \<Rightarrow> row" where
  "join_rows table a b =
     fold (\<lambda>(k, v) n. if map_of n k \<noteq> None then AList.update (table @ [46] @ k) v n else AList.update k v n) b a"

definition bucket :: "bytes \<Rightarrow> val \<Rightarrow> row list \<Rightarrow> row list" where
  "bucket col key rows = filter (\<lambda>b. indexValue (lookup b col) = key) rows"

definition join_all :: "bytes \<Rightarrow> bytes \<Rightarrow> bytes \<Rightarrow> row list \<Rightarrow> row list \<Rightarrow> row list" where
  "join_all table left right rows jr =
     concat (map (\<lambda>a.
       map (join_rows table a)
         (filter (\<lambda>b. compare (lookup a left) (lookup b right) = 0) (bucket right (indexValue (lookup a left)) jr))) rows)"

section \<open>Aggregates\<close>

definition has_prefix :: "string \<Rightarrow> bytes \<Rightarrow> bool" where
  "has_prefix p s \<longleftrightarrow> take (length p) s = str p"

definition isAggregate :: "bytes \<Rightarrow> bool" where
  "isAggregate s \<longleftrightarrow>
     (let u = ToUpper s
      in has_prefix ''COUNT('' u \<or> has_prefix ''SUM('' u \<or> has_prefix ''AVG('' u \<or> has_prefix ''MIN('' u \<or> has_prefix ''MAX('' u)"

text \<open>
  \<^verbatim>\<open>%#v\<close> renders an integer and a floating-point number as numbers, which may coincide; the values of all other
  types are told apart from them and, but for \<open>indexValue\<close>, from each other.
\<close>

definition sharp :: "val \<Rightarrow> bytes + val" where
  "sharp v = (case v of GoInt i \<Rightarrow> Inl (dec_int (sint i)) | GoFloat f \<Rightarrow> Inl (FormatFloat f) | _ \<Rightarrow> Inr (indexValue v))"

definition groupKey :: "bytes list \<Rightarrow> row \<Rightarrow> (bytes + val) list" where
  "groupKey cols r = map (\<lambda>c. sharp (row_get r c)) cols"

definition allInts :: "val list \<Rightarrow> bool" where
  "allInts vs \<longleftrightarrow> list_all (\<lambda>v. case v of GoInt i \<Rightarrow> True | _ \<Rightarrow> False) vs"

fun sum_values :: "bytes \<Rightarrow> val list \<Rightarrow> u64 \<Rightarrow> u64 result" where
  "sum_values expr [] acc = Inr acc"
| "sum_values expr (v # vs) acc =
     (case number v of
        None \<Rightarrow> Inl (ErrMsg ''aggregate %s requires numeric column'' [expr])
      | Some n \<Rightarrow> sum_values expr vs (fp_add acc n))"

definition best_value :: "bool \<Rightarrow> val \<Rightarrow> val list \<Rightarrow> val" where
  "best_value least v vs =
     fold (\<lambda>v best. if (if least then compare v best < 0 else compare v best > 0) then v else best) vs v"

definition aggregate_values :: "bytes \<Rightarrow> val list \<Rightarrow> val result" where
  "aggregate_values expr vals =
     (let u = ToUpper expr
      in if has_prefix ''COUNT'' u then Inr (GoInt (word_of_nat (length vals)))
         else (case vals of
                 [] \<Rightarrow> Inr GoNil
               | v # vs \<Rightarrow>
                   if has_prefix ''MIN'' u \<or> has_prefix ''MAX'' u then Inr (best_value (has_prefix ''MIN'' u) v vs)
                   else
                     (case sum_values expr vals 0 of
                        Inl err \<Rightarrow> Inl err
                      | Inr acc \<Rightarrow>
                          (let acc = (if has_prefix ''AVG'' u then fp_div acc (fp_of_int (word_of_nat (length vals))) else acc)
                           in if has_prefix ''SUM'' u \<and> allInts vals then Inr (GoInt (fp_to_int acc)) else Inr (GoFloat acc)))))"

fun index_of :: "u8 \<Rightarrow> bytes \<Rightarrow> nat option" where
  "index_of b [] = None"
| "index_of b (c # cs) = (if c = b then Some 0 else map_option Suc (index_of b cs))"

definition aggregate_column :: "row list \<Rightarrow> bytes \<Rightarrow> row \<Rightarrow> row result" where
  "aggregate_column rows expr out =
     (case index_of 40 expr of
        None \<Rightarrow>
          (case rows of
             [] \<Rightarrow> Inl (ErrMsg ''group column %q has no rows'' [expr])
           | r # rs \<Rightarrow> Inr (AList.update expr (row_get r expr) out))
      | Some open \<Rightarrow>
          if length expr - 1 < open + 1 then Inl Panic
          else
            (let col = TrimSpace (go_slice (open + 1) (length expr - 1) expr)
             in if col = str ''*'' then
                  Inr (if has_prefix ''COUNT'' (ToUpper expr) then AList.update expr (GoInt (word_of_nat (length rows))) out else out)
                else
                  (case aggregate_values expr (filter (\<lambda>v. v \<noteq> GoNil) (map (\<lambda>r. row_get r col) rows)) of
                     Inl err \<Rightarrow> Inl err
                   | Inr v \<Rightarrow> Inr (AList.update expr v out))))"

fun aggregate_columns :: "row list \<Rightarrow> bytes list \<Rightarrow> row \<Rightarrow> row result" where
  "aggregate_columns rows [] out = Inr out"
| "aggregate_columns rows (e # es) out =
     (case aggregate_column rows e out of Inl err \<Rightarrow> Inl err | Inr out' \<Rightarrow> aggregate_columns rows es out')"

definition aggregateRow :: "bytes list \<Rightarrow> bytes list \<Rightarrow> row list \<Rightarrow> row result" where
  "aggregateRow cols groups rows =
     aggregate_columns rows cols
       (case rows of [] \<Rightarrow> [] | r # rs \<Rightarrow> fold (\<lambda>c. AList.update c (row_get r c)) groups [])"

section \<open>Ordering and paging\<close>

record Result =
  res_Columns :: "bytes list"
  res_Rows :: "row list"
  res_Affected :: nat

definition no_result :: Result where
  "no_result = \<lparr>res_Columns = [], res_Rows = [], res_Affected = 0\<rparr>"

definition affected :: "nat \<Rightarrow> Result" where
  "affected n = no_result\<lparr>res_Affected := n\<rparr>"

text \<open>
  \<^verbatim>\<open>sort.SliceStable\<close> moves each element to the left while it is less than its left neighbour (it
  sorts blocks of twenty elements this way and merges them, which gives the same list whenever the
  comparison is a strict weak order). The sorted prefix is kept in reverse.
\<close>

fun move_left :: "('a \<Rightarrow> 'a \<Rightarrow> bool) \<Rightarrow> 'a \<Rightarrow> 'a list \<Rightarrow> 'a list" where
  "move_left lt x [] = [x]"
| "move_left lt x (y # ys) = (if lt x y then y # move_left lt x ys else x # y # ys)"

definition SliceStable :: "('a \<Rightarrow> 'a \<Rightarrow> bool) \<Rightarrow> 'a list \<Rightarrow> 'a list" where
  "SliceStable lt xs = rev (fold (move_left lt) xs [])"

definition row_less :: "Select \<Rightarrow> row \<Rightarrow> row \<Rightarrow> bool" where
  "row_less q a b =
     (let c = compare (row_get a (sel_OrderBy q)) (row_get b (sel_OrderBy q))
      in if sel_Desc q then c > 0 else c < 0)"

text \<open>The sum of start and limit wraps, and a slice whose end lies before its start panics.\<close>

definition page_rows :: "u64 \<Rightarrow> u64 \<Rightarrow> 'a list \<Rightarrow> 'a list result" where
  "page_rows offset limit rows =
     (let n = length rows;
          start = (if sint offset < 0 then 0 else min (nat (sint offset)) n);
          last = word_of_nat start + limit;
          stop = (if sint limit \<ge> 0 \<and> sint last < int n then sint last else int n)
      in if stop < int start then Inl Panic else Inr (go_slice start (nat stop) rows))"

definition applyPagingAndOrder :: "Result \<Rightarrow> Select \<Rightarrow> Result result" where
  "applyPagingAndOrder out q =
     (let rows = (if sel_OrderBy q \<noteq> [] then SliceStable (row_less q) (res_Rows out) else res_Rows out)
      in case page_rows (sel_Offset q) (sel_Limit q) rows of
           Inl err \<Rightarrow> Inl err
         | Inr rs \<Rightarrow> Inr (out\<lparr>res_Rows := rs\<rparr>))"

section \<open>Queries on rows\<close>

text \<open>The groups, in the order of their first rows.\<close>

definition group_rows :: "bytes list \<Rightarrow> row list \<Rightarrow> ((bytes + val) list \<times> row list) list" where
  "group_rows cols rows =
     fold (\<lambda>r groups.
       let key = groupKey cols r
       in AList.update key ((case map_of groups key of None \<Rightarrow> [] | Some rs \<Rightarrow> rs) @ [r]) groups) rows []"

fun aggregate_groups :: "bytes list \<Rightarrow> bytes list \<Rightarrow> row list list \<Rightarrow> row list result" where
  "aggregate_groups cols by [] = Inr []"
| "aggregate_groups cols by (g # gs) =
     (case aggregateRow cols by g of
        Inl err \<Rightarrow> Inl err
      | Inr r \<Rightarrow> (case aggregate_groups cols by gs of Inl err \<Rightarrow> Inl err | Inr rs \<Rightarrow> Inr (r # rs)))"

definition unknown_column :: "bytes \<Rightarrow> db_error" where
  "unknown_column c = ErrMsg ''unknown column %q'' [c]"

fun select_row :: "bytes list \<Rightarrow> row \<Rightarrow> row \<Rightarrow> row result" where
  "select_row [] r selected = Inr selected"
| "select_row (c # cs) r selected =
     (if lookupColumn r c = None then Inl (unknown_column c)
      else select_row cs r (AList.update c (lookup r c) selected))"

fun select_all :: "bytes list \<Rightarrow> row list \<Rightarrow> row list result" where
  "select_all cols [] = Inr []"
| "select_all cols (r # rs) =
     (case select_row cols r [] of
        Inl err \<Rightarrow> Inl err
      | Inr x \<Rightarrow> (case select_all cols rs of Inl err \<Rightarrow> Inl err | Inr xs \<Rightarrow> Inr (x # xs)))"

fun check_groups :: "bytes list \<Rightarrow> row list \<Rightarrow> unit result" where
  "check_groups [] rows = Inr ()"
| "check_groups (c # cs) rows =
     (if (\<exists>r \<in> set rows. lookup r c = GoNil) then Inl (unknown_column c) else check_groups cs rows)"

definition query_columns :: "Select \<Rightarrow> Schema \<Rightarrow> bytes list" where
  "query_columns q sch = (if sel_Columns q = [str ''*''] then map col_Name (Columns sch) else sel_Columns q)"

definition query_rows :: "Select \<Rightarrow> Schema \<Rightarrow> row list \<Rightarrow> Result result" where
  "query_rows q sch rows =
     (let cols = query_columns q sch;
          filtered = filter (match (sel_Where q)) rows;
          aggregate = list_ex isAggregate cols
      in case check_groups (sel_GroupBy q) filtered of
           Inl err \<Rightarrow> Inl err
         | Inr u \<Rightarrow>
             (case (if aggregate \<or> sel_GroupBy q \<noteq> [] then
                      (let groups = map snd (group_rows (sel_GroupBy q) filtered)
                       in aggregate_groups cols (sel_GroupBy q)
                            (if groups = [] \<and> aggregate \<and> sel_GroupBy q = [] then [[]] else groups))
                    else select_all cols filtered) of
                Inl err \<Rightarrow> Inl err
              | Inr rs \<Rightarrow> applyPagingAndOrder (no_result\<lparr>res_Columns := cols, res_Rows := rs\<rparr>) q))"

end
