(* ===== verification/SQL_Exec.thy ===== *)
theory SQL_Exec
  imports SQL_Query Catalog
begin

text \<open>
  The executor of \<^verbatim>\<open>sql/sql.go\<close>. Tables are shared by pointer: the registry, open transactions and
  other connections refer to a table by its position in \<open>heap\<close>, and a dropped table is
  closed but stays there. The rows that a transaction holds are shared in the same way: \<^verbatim>\<open>UPDATE\<close>
  changes the map of a row in place, and the same map may be the pending write of several keys, so
  pending writes refer to \<open>tx_heap\<close>.

  What the operating system and the runtime choose is an argument: \<open>env\<close> gives the order of a range
  over a map (by its keys; two ranges over the same map in one statement use the same order), the
  order in which a flush visits the buffer pool, and the name and the files of a new temporary file.
  The result that some operations return along with an error is dropped.
\<close>

section \<open>State\<close>

record transactionWrite =
  tw_row :: "nat option"
  tw_deleted :: bool

record transactionTableState =
  ts_table :: nat
  ts_readAt :: u64
  ts_rollback :: "row list"
  ts_writes :: "(bytes \<times> transactionWrite) list"

record transaction =
  tx_id :: u64
  tx_commit :: u64
  tx_tables :: "transactionTableState list"
  tx_heap :: "row list"

record Executor =
  heap :: "Table list"
  closed :: "nat list"
  Tables :: "(bytes \<times> nat) list"
  ex_Catalog :: "Catalog option"
  tx :: "transaction option"
  nextTransactionID :: u64
  nextCommitSequence :: u64
  temp_files :: nat

record env =
  key_order :: key_order
  flush_order :: range_order
  temp_file :: "nat \<Rightarrow> (bytes \<times> disk) result"

type_synonym 'a exec_op = "Executor \<Rightarrow> (Executor, 'a) outcome"

definition ranged :: "env \<Rightarrow> (bytes \<times> 'a) list \<Rightarrow> (bytes \<times> 'a) list" where
  "ranged en m = List.map_filter (\<lambda>k. map_option (Pair k) (map_of m k)) (key_order en (map fst m))"

definition ErrClosed :: db_error where
  "ErrClosed = ErrMsg ''file already closed'' []"

text \<open>An operation that writes to the table at an address; the write fails if the table is closed.\<close>

definition on_table :: "nat \<Rightarrow> 'a table_op \<Rightarrow> 'a exec_op" where
  "on_table a f e =
     (if a \<in> set (closed e) then (e, Inl ErrClosed)
      else (case f (heap e ! a) of (t, r) \<Rightarrow> (e\<lparr>heap := (heap e)[a := t]\<rparr>, r)))"

definition set_table :: "nat \<Rightarrow> Table \<Rightarrow> Executor \<Rightarrow> Executor" where
  "set_table a t e = e\<lparr>heap := (heap e)[a := t]\<rparr>"

definition counted :: "(Table \<Rightarrow> Table \<times> nat \<times> db_error option) \<Rightarrow> nat table_op" where
  "counted f t = (case f t of (t', n, None) \<Rightarrow> (t', Inr n) | (t', n, Some err) \<Rightarrow> (t', Inl err))"

definition unknown_table :: "bytes \<Rightarrow> db_error" where
  "unknown_table n = ErrMsg ''unknown table %q'' [n]"

definition table :: "bytes \<Rightarrow> Executor \<Rightarrow> nat result" where
  "table n e =
     (case map_of (Tables e) (ToLower n) of None \<Rightarrow> Inl (unknown_table n) | Some a \<Rightarrow> Inr a)"

section \<open>The rows a statement sees\<close>

definition tx_state :: "nat \<Rightarrow> Executor \<Rightarrow> transactionTableState option" where
  "tx_state a e = (case tx e of None \<Rightarrow> None | Some x \<Rightarrow> find (\<lambda>st. ts_table st = a) (tx_tables x))"

fun overlay :: "(bytes \<times> transactionWrite) list \<Rightarrow> nat list \<Rightarrow> (bytes \<times> nat) list \<Rightarrow> nat list" where
  "overlay [] rows byKey = rows"
| "overlay ((key, w) # ws) rows byKey =
     (if tw_deleted w then
        (case map_of byKey key of
           None \<Rightarrow> overlay ws rows byKey
         | Some i \<Rightarrow>
             overlay ws (take i rows @ drop (Suc i) rows) (map (\<lambda>(k, j). (k, if j > i then j - 1 else j)) byKey))
      else
        (case map_of byKey key of
           Some i \<Rightarrow> overlay ws (rows[i := the (tw_row w)]) byKey
         | None \<Rightarrow> overlay ws (rows @ [the (tw_row w)]) (AList.update key (length rows) byKey)))"

text \<open>
  The rows of a table in a transaction: the snapshot, read into new maps, with the pending writes
  over it. An error of the scan is ignored, and the scan then gives no rows.
\<close>

definition tx_rows :: "env \<Rightarrow> Table \<Rightarrow> transactionTableState \<Rightarrow> row list \<Rightarrow> row list \<times> nat list" where
  "tx_rows en t st h =
     (let rows = (case ScanAt (key_order en (map fst (versions (store t)))) (ts_readAt st) t of Inl err \<Rightarrow> [] | Inr rs \<Rightarrow> rs);
          addrs = [length h ..< length h + length rows];
          byKey = fold (\<lambda>(i, r). AList.update (row_key (schema t) r) i) (List.enumerate 0 rows) []
      in (h @ rows, overlay (ranged en (ts_writes st)) addrs byKey))"

definition exec_rows :: "env \<Rightarrow> nat \<Rightarrow> Executor \<Rightarrow> row list result" where
  "exec_rows en a e =
     (case tx_state a e of
        Some st \<Rightarrow> (case tx_rows en (heap e ! a) st (tx_heap (the (tx e))) of (h, addrs) \<Rightarrow> Inr (map ((!) h) addrs))
      | None \<Rightarrow> Scan (heap e ! a))"

definition refRows :: "env \<Rightarrow> nat \<Rightarrow> Executor \<Rightarrow> row list" where
  "refRows en a e = (case exec_rows en a e of Inl err \<Rightarrow> [] | Inr rs \<Rightarrow> rs)"

fun write_state :: "nat \<Rightarrow> bytes \<Rightarrow> transactionWrite \<Rightarrow> transactionTableState list \<Rightarrow> transactionTableState list" where
  "write_state a key w [] = []"
| "write_state a key w (st # sts) =
     (if ts_table st = a then st\<lparr>ts_writes := AList.update key w (ts_writes st)\<rparr> # sts else st # write_state a key w sts)"

definition recordWrite :: "nat \<Rightarrow> bytes \<Rightarrow> nat option \<Rightarrow> bool \<Rightarrow> Executor \<Rightarrow> Executor" where
  "recordWrite a key row deleted e =
     (case tx e of
        None \<Rightarrow> e
      | Some x \<Rightarrow> e\<lparr>tx := Some (x\<lparr>tx_tables := write_state a key \<lparr>tw_row = row, tw_deleted = deleted\<rparr> (tx_tables x)\<rparr>)\<rparr>)"

section \<open>Transactions\<close>

definition inTransaction :: "Executor \<Rightarrow> bool" where
  "inTransaction e \<longleftrightarrow> tx e \<noteq> None"

fun begin_tables :: "nat list \<Rightarrow> transactionTableState list \<Rightarrow> transactionTableState list exec_op" where
  "begin_tables [] sts e = (e, Inr sts)"
| "begin_tables (a # as) sts e =
     (case table_Snapshot (heap e ! a) of
        (t, readAt) \<Rightarrow>
          (let e = set_table a t e
           in case Scan t of
                Inl err \<Rightarrow> (e, Inl err)
              | Inr rows \<Rightarrow>
                  begin_tables as (sts @ [\<lparr>ts_table = a, ts_readAt = readAt, ts_rollback = rows, ts_writes = []\<rparr>]) e))"

definition begin_tx :: "env \<Rightarrow> Result exec_op" where
  "begin_tx en e =
     (if inTransaction e then (e, Inl (ErrMsg ''transaction already in progress'' []))
      else
        (let tid = nextTransactionID e + 1
         in seqR (begin_tables (map snd (ranged en (Tables e))) [] (e\<lparr>nextTransactionID := tid\<rparr>)) (\<lambda>e sts.
              (e\<lparr>tx := Some \<lparr>tx_id = tid, tx_commit = 0, tx_tables = sts, tx_heap = []\<rparr>\<rparr>, Inr no_result))))"

text \<open>The first key written by the transaction that changed after its snapshot.\<close>

definition conflict_key :: "env \<Rightarrow> Executor \<Rightarrow> transactionTableState \<Rightarrow> bytes option" where
  "conflict_key en e st =
     find (\<lambda>key. table_ChangedSince (ts_readAt st) key (heap e ! ts_table st)) (map fst (ranged en (ts_writes st)))"

fun find_conflict :: "env \<Rightarrow> Executor \<Rightarrow> transactionTableState list \<Rightarrow> bytes option" where
  "find_conflict en e [] = None"
| "find_conflict en e (st # sts) =
     (case conflict_key en e st of None \<Rightarrow> find_conflict en e sts | Some key \<Rightarrow> Some key)"

definition batch_rows :: "row list \<Rightarrow> (bytes \<times> transactionWrite) list \<Rightarrow> (bytes \<times> TransactionRow) list" where
  "batch_rows h ws =
     map (\<lambda>(key, w). (key, \<lparr>tr_Row = (case tw_row w of None \<Rightarrow> [] | Some i \<Rightarrow> h ! i), tr_Deleted = tw_deleted w\<rparr>)) ws"

fun apply_states :: "env \<Rightarrow> u64 \<Rightarrow> row list \<Rightarrow> transactionTableState list \<Rightarrow> unit exec_op" where
  "apply_states en sq h [] e = (e, Inr ())"
| "apply_states en sq h (st # sts) e =
     seqR (on_table (ts_table st) (ApplyRowsBatch sq (batch_rows h (ranged en (ts_writes st)))) e) (\<lambda>e u.
       apply_states en sq h sts e)"

definition release_state :: "transactionTableState \<Rightarrow> Executor \<Rightarrow> Executor" where
  "release_state st e = set_table (ts_table st) (table_ReleaseSnapshot (ts_readAt st) (heap e ! ts_table st)) e"

definition commit_tx :: "env \<Rightarrow> Result exec_op" where
  "commit_tx en e =
     (case tx e of
        None \<Rightarrow> (e, Inl (ErrMsg ''no transaction in progress'' []))
      | Some x \<Rightarrow>
          (case find_conflict en e (tx_tables x) of
             Some key \<Rightarrow> (e, Inl (ErrMsg ''transaction conflict on key %q'' [key]))
           | None \<Rightarrow>
               (let sq = nextCommitSequence e + 1;
                    e = e\<lparr>nextCommitSequence := sq, tx := Some (x\<lparr>tx_commit := sq\<rparr>)\<rparr>
                in seqR (apply_states en sq (tx_heap x) (tx_tables x) e) (\<lambda>e u.
                     ((fold release_state (tx_tables x) e)\<lparr>tx := None\<rparr>, Inr no_result)))))"

text \<open>On a closed table only the deletion of no rows succeeds.\<close>

definition delete_all :: "nat \<Rightarrow> unit exec_op" where
  "delete_all a e =
     (if a \<in> set (closed e) \<and> Scan (heap e ! a) = Inr [] then (e, Inr ())
      else seqR (on_table a (counted (DeleteWhere (\<lambda>r. True))) e) (\<lambda>e n. (e, Inr ())))"

fun insert_rows :: "nat \<Rightarrow> row list \<Rightarrow> unit exec_op" where
  "insert_rows a [] e = (e, Inr ())"
| "insert_rows a (r # rs) e =
     seqR (on_table a (\<lambda>t. table_Insert (row_key (schema t) r) r t) e) (\<lambda>e u. insert_rows a rs e)"

fun rollback_states :: "transactionTableState list \<Rightarrow> unit exec_op" where
  "rollback_states [] e = (e, Inr ())"
| "rollback_states (st # sts) e =
     seqR (delete_all (ts_table st) e) (\<lambda>e u.
     seqR (insert_rows (ts_table st) (ts_rollback st) e) (\<lambda>e u. rollback_states sts e))"

definition rollback_tx :: "Result exec_op" where
  "rollback_tx e =
     (case tx e of
        None \<Rightarrow> (e, Inl (ErrMsg ''no transaction in progress'' []))
      | Some x \<Rightarrow>
          seqR (rollback_states (tx_tables x) e) (\<lambda>e u.
            ((fold release_state (tx_tables x) e)\<lparr>tx := None\<rparr>, Inr no_result)))"

end
