(* ===== verification/SQL_Statements.thy ===== *)
theory SQL_Statements
  imports SQL_Exec
begin

text \<open>
  The statements of the executor of \<^verbatim>\<open>sql/sql.go\<close>, the execution of a request that holds several of
  them, and prepared statements.
\<close>

section \<open>INSERT\<close>

definition column_named :: "bytes \<Rightarrow> Schema \<Rightarrow> Column option" where
  "column_named n sch = find (\<lambda>c. EqualFold (col_Name c) n) (Columns sch)"

text \<open>The parser makes sure that there are as many values as columns.\<close>

fun insert_values :: "Schema \<Rightarrow> (bytes \<times> val) list \<Rightarrow> row \<Rightarrow> row result" where
  "insert_values sch [] r = Inr r"
| "insert_values sch ((c, v) # cvs) r =
     (case (case column_named c sch of None \<Rightarrow> Inr v | Some sc \<Rightarrow> coerceValue v (col_Type sc)) of
        Inl err \<Rightarrow> Inl err
      | Inr v' \<Rightarrow> insert_values sch cvs (AList.update c v' r))"

definition next_id :: "bytes \<Rightarrow> row list \<Rightarrow> u64" where
  "next_id n rows =
     fold (\<lambda>r next. case row_get r n of GoInt i \<Rightarrow> if sint i \<ge> sint next then i + 1 else next | _ \<Rightarrow> next) rows 1"

text \<open>The key of a new row, and the row with an automatic key added.\<close>

definition insert_key :: "env \<Rightarrow> nat \<Rightarrow> row \<Rightarrow> Executor \<Rightarrow> (val \<times> row) result" where
  "insert_key en a r e =
     (case Columns (schema (heap e ! a)) of
        [] \<Rightarrow> Inl (ErrMsg ''table has no columns'' [])
      | c # cs \<Rightarrow>
          (case map_of r (col_Name c) of
             Some key \<Rightarrow> Inr (key, r)
           | None \<Rightarrow>
               if col_Type c \<noteq> IntType then Inl (ErrMsg ''insert must include key column %q'' [col_Name c])
               else (case exec_rows en a e of
                       Inl err \<Rightarrow> Inl err
                     | Inr rows \<Rightarrow>
                         (let next = GoInt (next_id (col_Name c) rows) in Inr (next, AList.update (col_Name c) next r)))))"

fun check_references :: "env \<Rightarrow> Schema \<Rightarrow> Column list \<Rightarrow> row \<Rightarrow> Executor \<Rightarrow> unit result" where
  "check_references en sch [] r e = Inr ()"
| "check_references en sch (c # cs) r e =
     (let v = row_get r (col_Name c)
      in case References (constraint sch (col_Name c)) of
           None \<Rightarrow> check_references en sch cs r e
         | Some ref \<Rightarrow>
             if v = GoNil then check_references en sch cs r e
             else (case table (ref_Table ref) e of
                     Inl err \<Rightarrow> Inl err
                   | Inr b \<Rightarrow>
                       if list_ex (\<lambda>rr. row_get rr (ref_Column ref) \<noteq> GoNil \<and> compare (row_get rr (ref_Column ref)) v = 0)
                            (refRows en b e)
                       then check_references en sch cs r e
                       else Inl (ErrMsg ''foreign key constraint failed: %s'' [col_Name c])))"

definition new_row :: "row \<Rightarrow> Executor \<Rightarrow> Executor \<times> nat" where
  "new_row r e =
     (case tx e of
        None \<Rightarrow> (e, 0)
      | Some x \<Rightarrow> (e\<lparr>tx := Some (x\<lparr>tx_heap := tx_heap x @ [r]\<rparr>)\<rparr>, length (tx_heap x)))"

definition exec_insert :: "env \<Rightarrow> Insert \<Rightarrow> Result exec_op" where
  "exec_insert en q e =
     (case table (ins_Table q) e of
        Inl err \<Rightarrow> (e, Inl err)
      | Inr a \<Rightarrow>
          (let sch = schema (heap e ! a)
           in case insert_values sch (zip (ins_Columns q) (ins_Values q)) [] of
                Inl err \<Rightarrow> (e, Inl err)
              | Inr r0 \<Rightarrow>
                  (case insert_key en a r0 e of
                     Inl err \<Rightarrow> (e, Inl err)
                   | Inr (key, r) \<Rightarrow>
                       (case check_references en sch (Columns sch) r e of
                          Inl err \<Rightarrow> (e, Inl err)
                        | Inr u \<Rightarrow>
                            if inTransaction e then
                              (case new_row r e of (e, i) \<Rightarrow> (recordWrite a (Sprint key) (Some i) False e, Inr (affected 1)))
                            else
                              seqR (on_table a (table_Insert (Sprint key) r) e) (\<lambda>e u. (e, Inr (affected 1)))))))"

section \<open>UPDATE and DELETE\<close>

fun coerce_set :: "Schema \<Rightarrow> (bytes \<times> val) list \<Rightarrow> row \<Rightarrow> row result" where
  "coerce_set sch [] r = Inr r"
| "coerce_set sch ((n, v) # nvs) r =
     (case column_named n sch of
        None \<Rightarrow> Inl (unknown_column n)
      | Some c \<Rightarrow>
          (case coerceValue v (col_Type c) of
             Inl err \<Rightarrow> Inl err
           | Inr cv \<Rightarrow> coerce_set sch nvs (AList.update n cv r)))"

definition put_row :: "nat \<Rightarrow> row \<Rightarrow> Executor \<Rightarrow> Executor" where
  "put_row i r e = e\<lparr>tx := map_option (\<lambda>x. x\<lparr>tx_heap := (tx_heap x)[i := r]\<rparr>) (tx e)\<rparr>"

text \<open>The loop of an \<^verbatim>\<open>UPDATE\<close> in a transaction: each row is changed in place and becomes a pending write.\<close>

fun update_pending :: "Condition option \<Rightarrow> row \<Rightarrow> nat \<Rightarrow> nat list \<Rightarrow> nat \<Rightarrow> Executor \<Rightarrow> Executor \<times> nat" where
  "update_pending w assigned a [] n e = (e, n)"
| "update_pending w assigned a (i # is) n e =
     (let r = tx_heap (the (tx e)) ! i
      in if \<not> match w r then update_pending w assigned a is n e
         else
           (let r' = fold (\<lambda>(k, v). AList.update k v) assigned r;
                key = row_key (schema (heap e ! a)) r'
            in update_pending w assigned a is (Suc n) (recordWrite a key (Some i) False (put_row i r' e))))"

fun delete_pending :: "Condition option \<Rightarrow> nat \<Rightarrow> row list \<Rightarrow> nat \<Rightarrow> Executor \<Rightarrow> Executor \<times> nat" where
  "delete_pending w a [] n e = (e, n)"
| "delete_pending w a (r # rs) n e =
     (if \<not> match w r then delete_pending w a rs n e
      else delete_pending w a rs (Suc n) (recordWrite a (row_key (schema (heap e ! a)) r) None True e))"

text \<open>
  In a transaction a table that was created after \<^verbatim>\<open>BEGIN\<close> has no state: its rows are read, and
  the changes are lost. Outside one, the loop is that of \<open>update_rows\<close>.
\<close>

definition exec_update :: "env \<Rightarrow> Update \<Rightarrow> Result exec_op" where
  "exec_update en q e =
     (case table (upd_Table q) e of
        Inl err \<Rightarrow> (e, Inl err)
      | Inr a \<Rightarrow>
          (let t = heap e ! a
           in case coerce_set (schema t) (ranged en (upd_Set q)) [] of
                Inl err \<Rightarrow> (e, Inl err)
              | Inr assigned \<Rightarrow>
                  (case (tx e, tx_state a e) of
                     (Some x, Some st) \<Rightarrow>
                       (case tx_rows en t st (tx_heap x) of
                          (h, addrs) \<Rightarrow>
                            (case update_pending (upd_Where q) assigned a addrs 0 (e\<lparr>tx := Some (x\<lparr>tx_heap := h\<rparr>)\<rparr>) of
                               (e, n) \<Rightarrow> (e, Inr (affected n))))
                   | (Some x, None) \<Rightarrow>
                       (case Scan t of
                          Inl err \<Rightarrow> (e, Inl err)
                        | Inr rows \<Rightarrow> (e, Inr (affected (length (filter (match (upd_Where q)) rows)))))
                   | _ \<Rightarrow>
                       (case Scan t of
                          Inl err \<Rightarrow> (e, Inl err)
                        | Inr rows \<Rightarrow>
                            seqR (on_table a (counted (update_rows (match (upd_Where q)) assigned rows 0)) e)
                              (\<lambda>e n. (e, Inr (affected n)))))))"

definition exec_delete :: "env \<Rightarrow> Delete \<Rightarrow> Result exec_op" where
  "exec_delete en q e =
     (case table (del_Table q) e of
        Inl err \<Rightarrow> (e, Inl err)
      | Inr a \<Rightarrow>
          (case exec_rows en a e of
             Inl err \<Rightarrow> (e, Inl err)
           | Inr rows \<Rightarrow>
               if inTransaction e then
                 (case delete_pending (del_Where q) a rows 0 e of (e, n) \<Rightarrow> (e, Inr (affected n)))
               else
                 seqR (on_table a (counted (delete_rows (match (del_Where q)) rows 0)) e)
                   (\<lambda>e n. (e, Inr (affected n)))))"

section \<open>SELECT\<close>

definition isIndexedEquality :: "Table \<Rightarrow> Condition option \<Rightarrow> bool" where
  "isIndexedEquality t w =
     (case w of
        None \<Rightarrow> False
      | Some c \<Rightarrow>
          Operator c = str ''='' \<and> Column c \<noteq> [] \<and> Left c = None \<and> Right c = None \<and> CValue c \<noteq> GoNil \<and>
          HasIndex (Column c) t)"

text \<open>The rows of the first table: through the index, if there is one for the condition.\<close>

definition source_rows :: "env \<Rightarrow> Select \<Rightarrow> nat \<Rightarrow> Executor \<Rightarrow> row list result" where
  "source_rows en q a e =
     (let t = heap e ! a; rows = exec_rows en a e;
          reading = (\<lambda>m. case m of Inl err \<Rightarrow> Inl (ErrCtx ''reading table'' err) | Inr rs \<Rightarrow> Inr rs)
      in if \<not> inTransaction e \<and> sel_JoinTable q = [] \<and> isIndexedEquality t (sel_Where q) then
           (case Find (key_order en) (Column (the (sel_Where q))) (CValue (the (sel_Where q))) t of
              Inl err \<Rightarrow> Inl err
            | Inr found \<Rightarrow> (case rows of Inl err \<Rightarrow> reading rows | Inr rs \<Rightarrow> Inr found))
         else reading rows)"

definition join_source :: "env \<Rightarrow> Select \<Rightarrow> row list \<Rightarrow> Executor \<Rightarrow> row list result" where
  "join_source en q rows e =
     (if sel_JoinTable q = [] then Inr rows
      else (case table (sel_JoinTable q) e of
              Inl err \<Rightarrow> Inl err
            | Inr b \<Rightarrow>
                (case exec_rows en b e of
                   Inl err \<Rightarrow> Inl err
                 | Inr jr \<Rightarrow> Inr (join_all (sel_JoinTable q) (sel_JoinLeft q) (sel_JoinRight q) rows jr))))"

definition selectRows :: "env \<Rightarrow> Select \<Rightarrow> Executor \<Rightarrow> Result result" where
  "selectRows en q e =
     (case table (sel_Table q) e of
        Inl err \<Rightarrow> Inl err
      | Inr a \<Rightarrow>
          (case source_rows en q a e of
             Inl err \<Rightarrow> Inl err
           | Inr rows \<Rightarrow>
               (case join_source en q rows e of
                  Inl err \<Rightarrow> Inl err
                | Inr rows' \<Rightarrow> query_rows q (schema (heap e ! a)) rows')))"

section \<open>Tables\<close>

definition on_catalog :: "unit catalog_op \<Rightarrow> unit exec_op" where
  "on_catalog f e =
     (case ex_Catalog e of
        None \<Rightarrow> (e, Inr ())
      | Some c \<Rightarrow> (case f c of (c', r) \<Rightarrow> (e\<lparr>ex_Catalog := Some c'\<rparr>, r)))"

definition close_table :: "env \<Rightarrow> nat \<Rightarrow> unit exec_op" where
  "close_table en a e =
     (case on_table a (table_Close (flush_order en)) e of (e', r) \<Rightarrow> (e'\<lparr>closed := a # closed e'\<rparr>, r))"

definition exec_drop :: "env \<Rightarrow> bytes \<Rightarrow> Result exec_op" where
  "exec_drop en q e =
     (let n = ToLower q
      in case map_of (Tables e) n of
           None \<Rightarrow> (e, Inl (unknown_table q))
         | Some a \<Rightarrow>
             seqR (on_catalog (catalog_Delete n) (e\<lparr>Tables := AList.delete n (Tables e)\<rparr>)) (\<lambda>e u.
             seqR (close_table en a e) (\<lambda>e u. (e, Inr (affected 1)))))"

definition altered_schema :: "AlterTable \<Rightarrow> Schema \<Rightarrow> Schema" where
  "altered_schema q s =
     (if alt_Action q = ''add'' then s\<lparr>Columns := Columns s @ [alt_Column q]\<rparr>
      else if alt_Action q = ''drop'' then
        s\<lparr>Columns := filter (\<lambda>x. \<not> EqualFold (col_Name x) (alt_Name q)) (Columns s),
          Constraints := AList.delete (alt_Name q) (Constraints s)\<rparr>
      else if alt_Action q = ''rename'' then
        s\<lparr>Columns := map (\<lambda>c. if EqualFold (col_Name c) (alt_Name q) then c\<lparr>col_Name := alt_NewName q\<rparr> else c) (Columns s),
          Constraints :=
            (case map_of (Constraints s) (alt_Name q) of
               None \<Rightarrow> Constraints s
             | Some cc \<Rightarrow> AList.update (alt_NewName q) cc (AList.delete (alt_Name q) (Constraints s)))\<rparr>
      else s)"

definition registered_path :: "bytes \<Rightarrow> Catalog \<Rightarrow> bytes" where
  "registered_path n c = (case find (\<lambda>x. ce_Name x = n) (Entries c) of None \<Rightarrow> [] | Some x \<Rightarrow> ce_Path x)"

definition exec_alter :: "env \<Rightarrow> AlterTable \<Rightarrow> Result exec_op" where
  "exec_alter en q e =
     (case table (alt_Table q) e of
        Inl err \<Rightarrow> (e, Inl err)
      | Inr a \<Rightarrow>
          (let s = altered_schema q (schema (heap e ! a)); n = ToLower (alt_Table q)
           in seqR (on_table a (Alter s) e) (\<lambda>e u.
              seqR (on_catalog (\<lambda>c. catalog_Set \<lparr>ce_Name = n, ce_Path = registered_path n c, ce_Schema = s\<rparr> c) e) (\<lambda>e u.
                (e, Inr (affected 1))))))"

definition create_columns :: "Column list \<Rightarrow> Column list" where
  "create_columns cs =
     (if list_ex (\<lambda>c. EqualFold (col_Name c) (str ''id'')) cs then cs
      else \<lparr>col_Name = str ''id'', col_Type = IntType\<rparr> # cs)"

text \<open>A new table is opened on a new temporary file, as \<open>OpenTable\<close> opens one on an existing file.\<close>

definition exec_create :: "env \<Rightarrow> CreateTable \<Rightarrow> Result exec_op" where
  "exec_create en q e =
     (let n = ToLower (cre_Table q)
      in if map_of (Tables e) n \<noteq> None then (e, Inl (ErrMsg ''table %q already exists'' [cre_Table q]))
         else
           (let i = temp_files e; e = e\<lparr>temp_files := Suc i\<rparr>
            in case temp_file en i of
                 Inl err \<Rightarrow> (e, Inl err)
               | Inr (path, d) \<Rightarrow>
                   (case snd (OpenTable (flush_order en) d
                       \<lparr>Columns = create_columns (cre_Columns q), Constraints = cre_Constraints q\<rparr>) of
                      Inl err \<Rightarrow> (e, Inl err)
                    | Inr t \<Rightarrow>
                        (let a = length (heap e); e = e\<lparr>heap := heap e @ [t], Tables := AList.update n a (Tables e)\<rparr>
                         in case on_catalog (catalog_Set \<lparr>ce_Name = n, ce_Path = path, ce_Schema = schema t\<rparr>) e of
                              (e, Inl err) \<Rightarrow> (fst (close_table en a (e\<lparr>Tables := AList.delete n (Tables e)\<rparr>)), Inl err)
                            | (e, Inr u) \<Rightarrow> (e, Inr (affected 1))))))"

definition listTables :: "Executor \<Rightarrow> Result" where
  "listTables e =
     no_result\<lparr>res_Columns := [str ''table_name''],
       res_Rows := map (\<lambda>n. [(str ''table_name'', GoString n)]) (sort (map fst (Tables e)))\<rparr>"

section \<open>EXPLAIN\<close>

fun join_with :: "bytes \<Rightarrow> bytes list \<Rightarrow> bytes" where
  "join_with sep [] = []"
| "join_with sep [x] = x"
| "join_with sep (x # xs) = x @ sep @ join_with sep xs"

definition mapKeys :: "(bytes \<times> 'a) list \<Rightarrow> bytes" where
  "mapKeys m = join_with (str '', '') (sort (map fst m))"

definition select_plan :: "env \<Rightarrow> Select \<Rightarrow> Executor \<Rightarrow> bytes" where
  "select_plan en q e =
     (let estimate =
            (case table (sel_Table q) e of
               Inl err \<Rightarrow> str ''rows=?''
             | Inr a \<Rightarrow>
                 (case exec_rows en a e of Inl err \<Rightarrow> str ''rows=?'' | Inr rs \<Rightarrow> str ''rows='' @ dec_nat (length rs)));
          through_index =
            (case table (sel_Table q) e of Inl err \<Rightarrow> False | Inr a \<Rightarrow> isIndexedEquality (heap e ! a) (sel_Where q));
          scan = str (if through_index then ''Index Scan'' else ''Seq Scan'');
          condition_text =
            (case sel_Where q of
               None \<Rightarrow> str ''none''
             | Some w \<Rightarrow>
                 if through_index then str ''index condition: '' @ Column w @ str '' = '' @ Sprint (CValue w)
                 else str ''apply WHERE predicate'')
      in scan @ str '' on '' @ sel_Table q @ str ''; '' @ estimate @ str ''; filter: '' @ condition_text @
         str ''; projection: '' @ join_with (str '', '') (sel_Columns q))"

definition explain :: "env \<Rightarrow> Statement \<Rightarrow> Executor \<Rightarrow> Result result" where
  "explain en s e =
     (let plan = (\<lambda>text. Inr (no_result\<lparr>res_Columns := [str ''plan''], res_Rows := [[(str ''plan'', GoString text)]]\<rparr>))
      in case s of
           StSelect q \<Rightarrow> plan (select_plan en q e)
         | StInsert q \<Rightarrow> plan (str ''Insert into '' @ ins_Table q @ str ''; columns: '' @ join_with (str '', '') (ins_Columns q))
         | StUpdate q \<Rightarrow> plan (str ''Seq Scan on '' @ upd_Table q @ str ''; update columns: '' @ mapKeys (upd_Set q))
         | StDelete q \<Rightarrow> plan (str ''Seq Scan on '' @ del_Table q @ str ''; delete matching rows'')
         | _ \<Rightarrow> Inl (ErrMsg ''unsupported statement for EXPLAIN'' []))"

definition explainTable :: "bytes \<Rightarrow> Executor \<Rightarrow> Result result" where
  "explainTable n e =
     (case table n e of
        Inl err \<Rightarrow> Inl err
      | Inr a \<Rightarrow>
          (let sch = schema (heap e ! a)
           in Inr (no_result\<lparr>res_Columns := [str ''column'', str ''type'', str ''nullable'', str ''unique''],
                res_Rows := map (\<lambda>c. [(str ''column'', GoString (col_Name c)), (str ''type'', GoString (str (columnTypeName (col_Type c)))),
                  (str ''nullable'', GoBool (\<not> NotNull (constraint sch (col_Name c)))),
                  (str ''unique'', GoBool (Unique (constraint sch (col_Name c))))]) (Columns sch)\<rparr>)))"

section \<open>Requests\<close>

fun executeStatement :: "env \<Rightarrow> Statement \<Rightarrow> Result exec_op" where
  "executeStatement en Begin e = begin_tx en e"
| "executeStatement en Commit e = commit_tx en e"
| "executeStatement en Rollback e = rollback_tx e"
| "executeStatement en (Explain s) e = (e, explain en s e)"
| "executeStatement en (ExplainTable n) e = (e, explainTable n e)"
| "executeStatement en (StInsert q) e = exec_insert en q e"
| "executeStatement en (StSelect q) e = (e, selectRows en q e)"
| "executeStatement en ListTables e = (e, Inr (listTables e))"
| "executeStatement en (StUpdate q) e = exec_update en q e"
| "executeStatement en (StDelete q) e = exec_delete en q e"
| "executeStatement en (DropTable n) e = exec_drop en n e"
| "executeStatement en (StAlter q) e = exec_alter en q e"
| "executeStatement en (StCreate q) e = exec_create en q e"

definition executeOne :: "env \<Rightarrow> bytes \<Rightarrow> Result exec_op" where
  "executeOne en input e =
     (case Parse input of Inl err \<Rightarrow> (e, Inl err) | Inr s \<Rightarrow> executeStatement en s e)"

fun parse_parts :: "bytes list \<Rightarrow> bool \<Rightarrow> bool result" where
  "parse_parts [] control = Inr control"
| "parse_parts (p # ps) control =
     (case Parse p of
        Inl err \<Rightarrow> Inl err
      | Inr s \<Rightarrow> parse_parts ps (control \<or> s = Begin \<or> s = Commit \<or> s = Rollback))"

fun execute_parts :: "env \<Rightarrow> bytes list \<Rightarrow> Result \<Rightarrow> Result exec_op" where
  "execute_parts en [] out e = (e, Inr out)"
| "execute_parts en (p # ps) out e = seqR (executeOne en p e) (\<lambda>e out. execute_parts en ps out e)"

fun snap_tables :: "nat list \<Rightarrow> Executor \<Rightarrow> (nat \<times> row list) list result" where
  "snap_tables [] e = Inr []"
| "snap_tables (a # as) e =
     (case Scan (heap e ! a) of
        Inl err \<Rightarrow> Inl err
      | Inr rows \<Rightarrow> (case snap_tables as e of Inl err \<Rightarrow> Inl err | Inr snaps \<Rightarrow> Inr ((a, rows) # snaps)))"

text \<open>The errors of restoring a table are ignored.\<close>

definition restore_table :: "nat \<times> row list \<Rightarrow> Executor \<Rightarrow> Executor" where
  "restore_table snap e =
     fold (\<lambda>r e. fst (on_table (fst snap) (\<lambda>t. table_Insert (row_key (schema t) r) r t) e)) (snd snap)
       (fst (delete_all (fst snap) e))"

definition execute_batch :: "env \<Rightarrow> bytes list \<Rightarrow> Result exec_op" where
  "execute_batch en parts e =
     (case snap_tables (map snd (ranged en (Tables e))) e of
        Inl err \<Rightarrow> (e, Inl err)
      | Inr snaps \<Rightarrow>
          (case execute_parts en parts no_result e of
             (e', Inl err) \<Rightarrow>
               if err = Panic \<or> err = Diverge then (e', Inl err)
               else (fold restore_table snaps e', Inl (ErrCtx ''transaction rolled back'' err))
           | (e', Inr out) \<Rightarrow> (e', Inr out)))"

definition Execute :: "env \<Rightarrow> bytes \<Rightarrow> Result exec_op" where
  "Execute en input e =
     (let parts = splitStatements input
      in if parts = [] then (e, Inl (ErrMsg ''empty request'' []))
         else (case parse_parts parts False of
                 Inl err \<Rightarrow> (e, Inl err)
               | Inr control \<Rightarrow>
                   if length parts = 1 then executeOne en (hd parts) e
                   else if inTransaction e \<or> control then execute_parts en parts no_result e
                   else execute_batch en parts e))"

section \<open>Prepared statements\<close>

record PreparedStatement =
  prep_statement :: Statement
  prep_parameters :: nat

definition Prepare :: "bytes \<Rightarrow> PreparedStatement result" where
  "Prepare input =
     (case Parse input of
        Inl err \<Rightarrow> Inl err
      | Inr s \<Rightarrow> Inr \<lparr>prep_statement = s, prep_parameters = countStatementParameters s\<rparr>)"

definition prepared_Execute :: "env \<Rightarrow> PreparedStatement \<Rightarrow> val list \<Rightarrow> Result exec_op" where
  "prepared_Execute en p args e =
     (if length args \<noteq> prep_parameters p then
        (e, Inl (ErrMsg ''expected %d parameters, got %d'' [dec_nat (prep_parameters p), dec_nat (length args)]))
      else (case bindStatement (prep_statement p) args of
              Inl err \<Rightarrow> (e, Inl err)
            | Inr s \<Rightarrow> executeStatement en s e))"

definition NewExecutor :: "Executor \<Rightarrow> Executor" where
  "NewExecutor e = e\<lparr>ex_Catalog := None, tx := None\<rparr>"

end
