(* ===== verification/Table_Log.thy ===== *)
theory Table_Log
  imports Table_Correct
begin

text \<open>
  A table as the log of its writes. The secondary indexes play no part here: a commit of a transaction
  leaves them behind, and what the rows are does not depend on them. The log at a sequence number gives
  the rows of a snapshot, the whole log the rows now.
\<close>

section \<open>Rows in stored form\<close>

lemma canonical_row:
  assumes ok: "schema_ok sch" and typed: "row_typed sch r" and sm: "small (flagLive, key, row_bytes sch r)"
  shows "decode sch (row_bytes sch r) = Inr (canonical sch r)" "canonical sch (canonical sch r) = canonical sch r"
    "row_typed sch (canonical sch r)" "row_bytes sch (canonical sch r) = row_bytes sch r"
proof -
  show d: "decode sch (row_bytes sch r) = Inr (canonical sch r)"
    using short_small [OF typed ok sm] by (intro decode_row_bytes [OF ok typed]) auto
  note shape = decode_shape [OF ok d]
  show "canonical sch (canonical sch r) = canonical sch r" by (rule shape(2))
  have nil: "row_get (canonical sch r) (col_Name c) = GoNil \<longleftrightarrow> row_get r (col_Name c) = GoNil" if "c \<in> set (Columns sch)" for c
    using shape(4) [OF that] row_bytes_null(1) [OF ok that, of r] by (auto simp: has_type_def)
  have "value_ok sch (canonical sch r) c" if c: "c \<in> set (Columns sch)" for c
  proof -
    have "col_Name c \<in> fst ` set (canonical sch r)" using c by (force simp: canonical_def)
    then obtain v where "map_of (canonical sch r) (col_Name c) = Some v" by (metis map_of_eq_None_iff not_None_eq)
    moreover have "value_ok sch r c" using typed c by (simp add: row_typed_iff)
    ultimately show ?thesis using shape(4) [OF c] row_bytes_null(1) [OF ok c, of r]
      by (auto simp: value_ok_def row_get_def has_type_def split: if_splits)
  qed
  then show "row_typed sch (canonical sch r)" by (simp add: row_typed_iff canonical_def)
  have "null_columns sch (canonical sch r) (Columns sch) = null_columns sch r (Columns sch)"
    using nil by (auto simp: null_columns_def intro!: arg_cong [of _ _ "map _"] filter_cong)
  with shape(6) show "row_bytes sch (canonical sch r) = row_bytes sch r" by (simp add: row_bytes_def)
qed

section \<open>The rows of a log\<close>

text \<open>A live record holds a row in stored form under its key.\<close>

definition row_rec :: "Schema \<Rightarrow> log_rec \<Rightarrow> bool" where
  "row_rec sch l \<longleftrightarrow>
     (case l of (flag, key, b) \<Rightarrow>
        flag = flagLive \<longrightarrow> (\<exists>r. row_typed sch r \<and> canonical sch r = r \<and> b = row_bytes sch r \<and> row_key sch r = key))"

definition log_rows :: "Schema \<Rightarrow> log_rec list \<Rightarrow> rows" where
  "log_rows sch h key =
     (case log_map h key of
        None \<Rightarrow> None
      | Some b \<Rightarrow> (case decode sch b of Inl err \<Rightarrow> None | Inr r \<Rightarrow> Some r))"

definition row_log :: "Schema \<Rightarrow> log_rec list \<Rightarrow> bool" where
  "row_log sch h \<longleftrightarrow> schema_ok sch \<and> Columns sch \<noteq> [] \<and> (\<forall>l \<in> set h. row_rec sch l \<and> small l)"

lemma row_log_append: "row_log sch (h @ h') \<longleftrightarrow> row_log sch h \<and> row_log sch h'"
  by (auto simp: row_log_def)

lemma row_log_take: "row_log sch h \<Longrightarrow> row_log sch (take n h)"
  by (auto simp: row_log_def dest: in_set_takeD)

lemma row_log_map:
  assumes h: "row_log sch h" and b: "log_map h key = Some b"
  obtains r where "log_rows sch h key = Some r" "row_typed sch r" "canonical sch r = r" "row_key sch r = key" "b = row_bytes sch r"
    "small (flagLive, key, row_bytes sch r)" "decode sch b = Inr r"
proof -
  have "row_rec sch (flagLive, key, b)" "small (flagLive, key, b)"
    using h log_map_Some [OF b] by (auto simp: row_log_def)
  then obtain r where r: "row_typed sch r" "canonical sch r = r" "b = row_bytes sch r" "row_key sch r = key"
    "small (flagLive, key, row_bytes sch r)" by (auto simp: row_rec_def)
  have "decode sch b = Inr r" using canonical_row(1) [of sch r key] r h by (simp add: row_log_def)
  with r b show thesis by (intro that) (simp_all add: log_rows_def)
qed

lemma log_rows_Some:
  assumes "row_log sch h" and "log_rows sch h key = Some r"
  shows "row_typed sch r" "canonical sch r = r" "row_key sch r = key" "log_map h key = Some (row_bytes sch r)"
    "small (flagLive, key, row_bytes sch r)"
proof -
  from assms(2) obtain b where b: "log_map h key = Some b" by (auto simp: log_rows_def split: option.splits)
  from row_log_map [OF assms(1) b] assms(2) b
  show "row_typed sch r" "canonical sch r = r" "row_key sch r = key" "log_map h key = Some (row_bytes sch r)"
    "small (flagLive, key, row_bytes sch r)" by (metis option.inject)+
qed

lemma log_rows_decodes: "row_log sch h \<Longrightarrow> decodes sch (log_map h key) (log_rows sch h key)"
  by (cases "log_map h key") (auto simp: decodes_def log_rows_def elim: row_log_map)

lemma log_rows_keyed: "row_log sch h \<Longrightarrow> keyed sch (log_rows sch h)"
  using log_rows_Some(3) by (auto simp: keyed_def)

lemma log_rows_Nil [simp]: "log_rows sch [] = Map.empty"
  by (simp add: log_rows_def fun_eq_iff)

lemma log_rows_live:
  assumes "row_log sch h" and "row_typed sch r" and "small (flagLive, key, row_bytes sch r)"
  shows "log_rows sch (h @ [(flagLive, key, row_bytes sch r)]) = (log_rows sch h)(key \<mapsto> canonical sch r)"
  using canonical_row(1) [OF _ assms(2,3)] assms(1) by (auto simp: log_rows_def log_step_def row_log_def fun_eq_iff)

lemma log_rows_tombstone: "log_rows sch (h @ [(flagTombstone, key, [])]) = (log_rows sch h)(key := None)"
  by (auto simp: log_rows_def log_step_def flagLive_def flagTombstone_def fun_eq_iff)

lemma row_rec_live:
  assumes "schema_ok sch" and "row_typed sch r" and "small (flagLive, key, row_bytes sch r)" and "row_key sch (canonical sch r) = key"
  shows "row_rec sch (flagLive, key, row_bytes sch r)"
  using canonical_row [OF assms(1-3)] assms(4) by (auto simp: row_rec_def intro!: exI [of _ "canonical sch r"])

lemma row_rec_tombstone [simp]: "row_rec sch (flagTombstone, key, [])"
  by (simp add: row_rec_def flagLive_def flagTombstone_def)

section \<open>Operations on a log\<close>

definition table_log :: "Table \<Rightarrow> log_rec list \<Rightarrow> bool" where
  "table_log t h \<longleftrightarrow> row_log (schema t) h \<and> (\<exists>c. session (store t) c h)"

lemma table_logD:
  assumes "table_log t h"
  shows "row_log (schema t) h" "schema_ok (schema t)" "Columns (schema t) \<noteq> []" "history (store t) h"
    "stored_rows (store t) (schema t) (log_rows (schema t) h)" "keyed (schema t) (log_rows (schema t) h)"
    "finite (dom (log_rows (schema t) h))" "Scan t = Inr (row_list (log_rows (schema t) h))"
    "table_Get key t = Inr (log_rows (schema t) h key)"
proof -
  from assms obtain c where h: "row_log (schema t) h" and s: "session (store t) c h" by (auto simp: table_log_def)
  show "row_log (schema t) h" "schema_ok (schema t)" "Columns (schema t) \<noteq> []" "history (store t) h"
    using h sessionD(5) [OF s] by (simp_all add: row_log_def)
  show st: "stored_rows (store t) (schema t) (log_rows (schema t) h)"
    using log_rows_decodes [OF h] sessionD(3,4) [OF s] by (simp add: stored_rows_def)
  show "keyed (schema t) (log_rows (schema t) h)" using h by (rule log_rows_keyed)
  show "finite (dom (log_rows (schema t) h))" by (rule stored_keys(2) [OF st])
  show "Scan t = Inr (row_list (log_rows (schema t) h))" by (rule Scan_stored [OF st])
  show "table_Get key t = Inr (log_rows (schema t) h key)" by (rule table_Get_stored [OF st])
qed

lemma table_log_store: "table_log t h \<Longrightarrow> session s c h \<Longrightarrow> table_log (t\<lparr>store := s, secondary := x\<rparr>) h"
  by (auto simp: table_log_def)

lemma log_Insert:
  assumes t: "table_log t h" and typed: "row_typed (schema t) r" and sm: "small (flagLive, key, row_bytes (schema t) r)"
    and key: "row_key (schema t) (canonical (schema t) r) = key"
    and free: "\<not> conflict (schema t) (log_rows (schema t) h) key r" and few: "length h + 1 < 2 ^ 32 - 1"
  shows "\<exists>t'. table_Insert key r t = (t', Inr ()) \<and> schema t' = schema t \<and> table_log t' (h @ [(flagLive, key, row_bytes (schema t) r)])"
proof -
  from t obtain c where "session (store t) c h" by (auto simp: table_log_def)
  from Insert_exec [OF table_logD(5) [OF t] this table_logD(2,6) [OF t] typed sm free few] obtain s sec c' where
    s: "table_Insert key r t = (t\<lparr>store := s, secondary := sec\<rparr>, Inr ())" "session s c' (h @ [(flagLive, key, row_bytes (schema t) r)])"
    by blast
  have "row_log (schema t) (h @ [(flagLive, key, row_bytes (schema t) r)])"
    using table_logD(1) [OF t] row_rec_live [OF table_logD(2) [OF t] typed sm key] sm by (simp add: row_log_def)
  with s show ?thesis by (auto simp: table_log_def)
qed

lemma log_Delete:
  assumes t: "table_log t h" and r: "log_rows (schema t) h key = Some r" and few: "length h + 1 < 2 ^ 32 - 1"
  shows "\<exists>t'. table_Delete key t = (t', Inr ()) \<and> schema t' = schema t \<and> table_log t' (h @ [(flagTombstone, key, [])])"
proof -
  from t obtain c where c: "session (store t) c h" by (auto simp: table_log_def)
  have sm: "small (flagTombstone, key, [])"
    using log_rows_Some(5) [OF table_logD(1) [OF t] r] by (simp add: small_def rec_len_def)
  from session_Delete [OF c this few] obtain s c' where
    s: "store_Delete key (store t) = (s, Inr ())" "session s c' (h @ [(flagTombstone, key, [])])" by blast
  have "row_log (schema t) (h @ [(flagTombstone, key, [])])" using table_logD(1) [OF t] sm by (simp add: row_log_def)
  moreover have "table_Delete key t = (unindexRow key r (t\<lparr>store := s\<rparr>), Inr ())"
    using on_store_eq [where f = "store_Delete key", OF s(1)] r by (simp add: table_Delete_def table_logD(9) [OF t])
  ultimately show ?thesis using s(2) by (auto simp: table_log_def unindexRow_def)
qed

lemma log_delete_rows:
  "table_log t h \<Longrightarrow> distinct ks \<Longrightarrow> set ks \<subseteq> dom (log_rows (schema t) h) \<Longrightarrow> length h + length ks < 2 ^ 32 - 1 \<Longrightarrow>
     \<exists>t'. delete_rows (\<lambda>r. True) (map (\<lambda>k. the (log_rows (schema t) h k)) ks) n t = (t', n + length ks, None) \<and>
       schema t' = schema t \<and> table_log t' (h @ map (\<lambda>k. (flagTombstone, k, [])) ks)"
proof (induction ks arbitrary: t h n)
  case (Cons k ks)
  let ?m = "log_rows (schema t) h"
  from Cons.prems(3) obtain r where r: "?m k = Some r" by auto
  then have key: "row_key (schema t) r = k" using log_rows_Some(3) table_logD(1) [OF Cons.prems(1)] by blast
  from log_Delete [OF Cons.prems(1) r] Cons.prems(4) obtain t1 where
    t1: "table_Delete k t = (t1, Inr ())" "schema t1 = schema t" "table_log t1 (h @ [(flagTombstone, k, [])])" by auto
  let ?h = "h @ [(flagTombstone, k, [])]"
  have m1: "log_rows (schema t1) ?h = ?m(k := None)" by (simp add: t1(2) log_rows_tombstone)
  have "set ks \<subseteq> dom (log_rows (schema t1) ?h)" "distinct ks" "length ?h + length ks < 2 ^ 32 - 1"
    using Cons.prems(2-4) by (auto simp: m1)
  from Cons.IH [OF t1(3) this(2,1,3), of "Suc n"] obtain t' where
    t': "delete_rows (\<lambda>r. True) (map (\<lambda>x. the (log_rows (schema t1) ?h x)) ks) (Suc n) t1 = (t', Suc n + length ks, None)"
    "schema t' = schema t1" "table_log t' (?h @ map (\<lambda>k. (flagTombstone, k, [])) ks)" by blast
  have "map (\<lambda>x. the (log_rows (schema t1) ?h x)) ks = map (\<lambda>x. the (?m x)) ks" using Cons.prems(2) by (auto simp: m1)
  with t'(1) have "delete_rows (\<lambda>r. True) (map (\<lambda>x. the (?m x)) ks) (Suc n) t1 = (t', Suc n + length ks, None)" by metis
  with t'(2,3) t1(1,2) r key show ?case by (intro exI [of _ t']) simp
qed auto

lemma log_rows_cleared:
  "dom (log_rows sch h) \<subseteq> set ks \<Longrightarrow> log_rows sch (h @ map (\<lambda>k. (flagTombstone, k, [])) ks) = Map.empty"
proof (induction ks arbitrary: h)
  case (Cons k ks)
  have "dom (log_rows sch (h @ [(flagTombstone, k, [])])) \<subseteq> set ks" using Cons.prems by (auto simp: log_rows_tombstone)
  from Cons.IH [OF this] show ?case by simp
qed auto

lemma log_DeleteWhere:
  assumes t: "table_log t h" and "length h + card (dom (log_rows (schema t) h)) < 2 ^ 32 - 1"
  shows "\<exists>t' n h'. DeleteWhere (\<lambda>r. True) t = (t', n, None) \<and> schema t' = schema t \<and> table_log t' h' \<and>
    log_rows (schema t) h' = Map.empty \<and> length h' = length h + card (dom (log_rows (schema t) h))"
proof -
  let ?m = "log_rows (schema t) h"
  let ?ks = "sorted_list_of_set (dom ?m)"
  have ks: "set ?ks = dom ?m" "distinct ?ks" "length ?ks = card (dom ?m)" using table_logD(7) [OF t] by simp_all
  from log_delete_rows [OF t ks(2), of 0] ks assms(2) obtain t' where
    "delete_rows (\<lambda>r. True) (row_list ?m) 0 t = (t', length ?ks, None)" "schema t' = schema t"
    "table_log t' (h @ map (\<lambda>k. (flagTombstone, k, [])) ?ks)" by (auto simp: row_list_def)
  with log_rows_cleared [of "schema t" h ?ks] ks show ?thesis
    by (intro exI [of _ t'] exI [of _ "length ?ks"] exI [of _ "h @ map (\<lambda>k. (flagTombstone, k, [])) ?ks"])
      (simp add: DeleteWhere_def deleteRows_def table_logD(8) [OF t])
qed

text \<open>Inserting rows of a table that keeps the UNIQUE constraints.\<close>

definition settled :: "Schema \<Rightarrow> rows \<Rightarrow> bool" where
  "settled sch m \<longleftrightarrow> finite (dom m) \<and> unique_rows sch m \<and>
     (\<forall>k r. m k = Some r \<longrightarrow> row_typed sch r \<and> canonical sch r = r \<and> row_key sch r = k \<and> small (flagLive, k, row_bytes sch r))"

lemma log_settled: "table_log t h \<Longrightarrow> unique_rows (schema t) (log_rows (schema t) h) \<Longrightarrow> settled (schema t) (log_rows (schema t) h)"
  using log_rows_Some [OF table_logD(1)] by (auto simp: settled_def table_logD(7))

lemma settled_insert:
  assumes t: "table_log t h" and m: "settled (schema t) m" and k: "m k = Some r"
    and sub: "log_rows (schema t) h \<subseteq>\<^sub>m m" and few: "length h + 1 < 2 ^ 32 - 1"
  shows "\<exists>t' h'. table_Insert (row_key (schema t) r) r t = (t', Inr ()) \<and> schema t' = schema t \<and> table_log t' h' \<and>
    length h' = length h + 1 \<and> log_rows (schema t) h' = (log_rows (schema t) h)(k \<mapsto> r)"
proof -
  have r: "row_typed (schema t) r" "canonical (schema t) r = r" "row_key (schema t) r = k" "small (flagLive, k, row_bytes (schema t) r)"
    using m k by (auto simp: settled_def)
  have "\<not> conflict (schema t) (log_rows (schema t) h) k r"
  proof
    assume "conflict (schema t) (log_rows (schema t) h) k r"
    then obtain c k' r' where c: "c \<in> set (Columns (schema t))" "Unique (constraint (schema t) (col_Name c))" "row_get r (col_Name c) \<noteq> GoNil"
      "log_rows (schema t) h k' = Some r'" "k' \<noteq> k" "indexValue (row_get r' (col_Name c)) = indexValue (row_get r (col_Name c))"
      by (auto simp: conflict_def)
    then have "m k' = Some r'" using sub by (auto simp: map_le_def dom_def)
    with c m k show False by (fastforce simp: settled_def unique_rows_def)
  qed
  from log_Insert [OF t r(1,4) _ this few] r obtain t' where
    "table_Insert k r t = (t', Inr ())" "schema t' = schema t" "table_log t' (h @ [(flagLive, k, row_bytes (schema t) r)])" by auto
  with log_rows_live [OF table_logD(1) [OF t] r(1,4)] r(2,3) show ?thesis by fastforce
qed

section \<open>Snapshots of a log\<close>

lemma log_ScanAt:
  assumes t: "table_log t h" and n: "n \<le> length h"
  shows "ScanAt ks (word_of_nat n) t = Inr (map (\<lambda>k. the (log_rows (schema t) (take n h) k)) (filter (\<lambda>k. log_rows (schema t) (take n h) k \<noteq> None) ks))"
proof -
  let ?m = "log_rows (schema t) (take n h)"
  note h = row_log_take [OF table_logD(1) [OF t], of n]
  have get: "table_GetAt (word_of_nat n) k t = Inr (?m k)" for k
    using GetAt_log [OF table_logD(4) [OF t] n, of k]
    by (cases "log_map (take n h) k") (auto simp: table_GetAt_def log_rows_def elim!: row_log_map [OF h])
  have live: "log_map (take n h) k \<noteq> None \<longleftrightarrow> ?m k \<noteq> None" for k
    using log_rows_decodes [OF h, of k] by (cases "log_map (take n h) k") (auto simp: decodes_def)
  have "get_all (\<lambda>k. table_GetAt (word_of_nat n) k t) xs = Inr (map (\<lambda>k. the (?m k)) xs)" if "\<forall>k \<in> set xs. ?m k \<noteq> None" for xs
    using that by (induction xs) (auto simp: get)
  then show ?thesis unfolding ScanAt_def KeysAt_log [OF table_logD(4) [OF t] n] live by simp
qed

end
