(* ===== verification/SQL_Transactions.thy ===== *)
theory SQL_Transactions
  imports SQL_Statements Table_Log Table_Properties
begin

text \<open>
  Transactions of the executor over tables that are logs of their writes: what BEGIN records, what
  ROLLBACK restores, when COMMIT finds a conflict and what it writes, which rows a statement in a
  transaction sees.
\<close>

section \<open>The registry\<close>

definition open_at :: "Executor \<Rightarrow> nat \<Rightarrow> bool" where
  "open_at e a \<longleftrightarrow> a < length (heap e) \<and> a \<notin> set (closed e)"

text \<open>Every registered table is open, and no two names share a table.\<close>

definition registry :: "Executor \<Rightarrow> bool" where
  "registry e \<longleftrightarrow> distinct (map fst (Tables e)) \<and> distinct (map snd (Tables e)) \<and> (\<forall>a \<in> snd ` set (Tables e). open_at e a)"

definition map_order :: "env \<Rightarrow> bool" where
  "map_order en \<longleftrightarrow> (\<forall>ks. mset (key_order en ks) = mset ks)"

lemma ranged_mset:
  assumes "map_order en" and "distinct (map fst m)"
  shows "mset (ranged en m) = mset m"
proof -
  have "List.map_filter (\<lambda>k. map_option (Pair k) (map_of m k)) (map fst xs) = xs" if "set xs \<subseteq> set m" for xs
    using that assms(2) by (induction xs) (auto simp: List.map_filter_def)
  then have "List.map_filter (\<lambda>k. map_option (Pair k) (map_of m k)) (map fst m) = m" by simp
  moreover have "mset (key_order en (map fst m)) = mset (map fst m)" using assms(1) by (simp add: map_order_def)
  then have "mset (List.map_filter f (key_order en (map fst m))) = mset (List.map_filter f (map fst m))" for f :: "bytes \<Rightarrow> (bytes \<times> 'a) option"
    by (simp add: List.map_filter_def mset_filter)
  ultimately show ?thesis by (simp add: ranged_def)
qed

lemma ranged_facts:
  assumes "map_order en" and "distinct (map fst m)"
  shows "set (ranged en m) = set m" "distinct (map fst (ranged en m))" "distinct (map snd (ranged en m)) = distinct (map snd m)"
    "length (ranged en m) = length m"
proof -
  note m = ranged_mset [OF assms]
  show "set (ranged en m) = set m" using mset_eq_setD [OF m] .
  show "length (ranged en m) = length m" using mset_eq_length [OF m] .
  show "distinct (map fst (ranged en m))" "distinct (map snd (ranged en m)) = distinct (map snd m)"
    using mset_eq_imp_distinct_iff [of "map fst (ranged en m)" "map fst m"] mset_eq_imp_distinct_iff [of "map snd (ranged en m)" "map snd m"] m assms(2)
    by simp_all
qed

lemma on_table_open: "open_at e a \<Longrightarrow> f (heap e ! a) = (t, r) \<Longrightarrow> on_table a f e = (e\<lparr>heap := (heap e)[a := t]\<rparr>, r)"
  by (simp add: on_table_def open_at_def)

lemma open_at_heap [simp]: "length hp = length (heap e) \<Longrightarrow> open_at (e\<lparr>heap := hp\<rparr>) a = open_at e a"
  by (simp add: open_at_def)

section \<open>BEGIN\<close>

lemma Scan_Snapshot [simp]: "Scan (fst (table_Snapshot t)) = Scan t" "Scan (table_ReleaseSnapshot n t) = Scan t"
  by (simp_all add: table_Snapshot_def table_ReleaseSnapshot_def BeginSnapshot_def ReleaseSnapshot_def Scan_def split: option.split)

lemma Scan_update: "Scan t = Scan (hp ! a) \<Longrightarrow> Scan (hp[a := t] ! b) = Scan (hp ! b)"
  by (cases "a < length hp") (simp_all add: nth_list_update list_update_beyond)

lemma seq_update: "seq (store t) = seq (store (hp ! a)) \<Longrightarrow> seq (store (hp[a := t] ! b)) = seq (store (hp ! b))"
  by (cases "a < length hp") (simp_all add: nth_list_update list_update_beyond)

lemma begin_tables_states:
  "begin_tables as sts e = (e', Inr sts') \<Longrightarrow>
     \<exists>new. sts' = sts @ new \<and> map ts_table new = as \<and>
       (\<forall>st \<in> set new. Scan (heap e ! ts_table st) = Inr (ts_rollback st) \<and> ts_readAt st = seq (store (heap e ! ts_table st)) \<and> ts_writes st = [])"
proof (induction as arbitrary: sts e)
  case (Cons a as)
  let ?t = "fst (table_Snapshot (heap e ! a))" and ?e = "set_table a (fst (table_Snapshot (heap e ! a))) e"
  have readAt: "snd (table_Snapshot (heap e ! a)) = seq (store (heap e ! a))" by (simp add: table_Snapshot_def BeginSnapshot_def)
  from Cons.prems obtain rows where rows: "Scan (heap e ! a) = Inr rows"
    by (auto simp: Let_def split: prod.splits sum.splits) (metis Scan_Snapshot(1) fst_conv)
  let ?st = "\<lparr>ts_table = a, ts_readAt = seq (store (heap e ! a)), ts_rollback = rows, ts_writes = []\<rparr>"
  have "begin_tables as (sts @ [?st]) ?e = (e', Inr sts')"
    using Cons.prems rows readAt by (simp add: case_prod_beta)
  from Cons.IH [OF this] obtain new where new: "sts' = (sts @ [?st]) @ new" "map ts_table new = as"
    "\<forall>st \<in> set new. Scan (heap ?e ! ts_table st) = Inr (ts_rollback st) \<and> ts_readAt st = seq (store (heap ?e ! ts_table st)) \<and> ts_writes st = []"
    by blast
  have same: "Scan (heap ?e ! b) = Scan (heap e ! b)" "seq (store (heap ?e ! b)) = seq (store (heap e ! b))" for b
    using Scan_update [of ?t "heap e" a b] seq_update [of ?t "heap e" a b]
    by (simp_all add: set_table_def) (simp add: table_Snapshot_def BeginSnapshot_def)
  show ?case using new rows by (intro exI [of _ "?st # new"]) (simp add: same)
qed auto

lemma begin_tx_states:
  assumes "begin_tx en e = (e', Inr res)"
  obtains x where "tx e' = Some x" "map ts_table (tx_tables x) = map snd (ranged en (Tables e))"
    "\<forall>st \<in> set (tx_tables x). Scan (heap e ! ts_table st) = Inr (ts_rollback st) \<and> ts_readAt st = seq (store (heap e ! ts_table st)) \<and> ts_writes st = []"
proof -
  let ?as = "map snd (ranged en (Tables e))" and ?e = "e\<lparr>nextTransactionID := nextTransactionID e + 1\<rparr>"
  from assms obtain e1 sts where b: "begin_tables ?as [] ?e = (e1, Inr sts)"
    and x: "tx e' = Some \<lparr>tx_id = nextTransactionID e + 1, tx_commit = 0, tx_tables = sts, tx_heap = []\<rparr>"
    by (auto simp: begin_tx_def Let_def seqR_def split: if_splits prod.splits sum.splits)
  from begin_tables_states [OF b] x show thesis by (intro that [OF x]) auto
qed

section \<open>ROLLBACK\<close>

lemma insert_rows_settled:
  "open_at e a \<Longrightarrow> table_log (heap e ! a) h \<Longrightarrow> sch = schema (heap e ! a) \<Longrightarrow> settled sch m \<Longrightarrow> log_rows sch h \<subseteq>\<^sub>m m \<Longrightarrow>
     set ks \<subseteq> dom m \<Longrightarrow> length h + length ks < 2 ^ 32 - 1 \<Longrightarrow>
     \<exists>t h'. insert_rows a (map (\<lambda>k. the (m k)) ks) e = (e\<lparr>heap := (heap e)[a := t]\<rparr>, Inr ()) \<and> schema t = sch \<and> table_log t h' \<and>
       log_rows sch h' \<subseteq>\<^sub>m m \<and> dom (log_rows sch h') = dom (log_rows sch h) \<union> set ks"
proof (induction ks arbitrary: e h)
  case Nil
  then have "a < length (heap e)" by (simp add: open_at_def)
  with Nil show ?case by (intro exI [of _ "heap e ! a"] exI [of _ h]) simp
next
  case (Cons k ks)
  from Cons.prems(6) obtain r where r: "m k = Some r" by auto
  from settled_insert [OF Cons.prems(2), of m k r] r Cons.prems(3-5,7) obtain t1 h1 where
    t1: "table_Insert (row_key sch r) r (heap e ! a) = (t1, Inr ())" "schema t1 = sch" "table_log t1 h1" "length h1 = length h + 1"
    "log_rows sch h1 = (log_rows sch h)(k \<mapsto> r)" by auto
  let ?e = "e\<lparr>heap := (heap e)[a := t1]\<rparr>"
  have step: "on_table a (\<lambda>t. table_Insert (row_key (schema t) r) r t) e = (?e, Inr ())"
    using t1(1) Cons.prems(1,3) by (intro on_table_open) simp_all
  have at: "heap ?e ! a = t1" "open_at ?e a" using Cons.prems(1) by (simp_all add: open_at_def)
  have "log_rows sch h1 \<subseteq>\<^sub>m m" using Cons.prems(5) r by (auto simp: t1(5) map_le_def dom_def)
  moreover have "set ks \<subseteq> dom m" "length h1 + length ks < 2 ^ 32 - 1" using Cons.prems(6,7) t1(4) by auto
  ultimately obtain t h' where "insert_rows a (map (\<lambda>k. the (m k)) ks) ?e = (?e\<lparr>heap := (heap ?e)[a := t]\<rparr>, Inr ())" "schema t = sch" "table_log t h'"
       "log_rows sch h' \<subseteq>\<^sub>m m" "dom (log_rows sch h') = dom (log_rows sch h1) \<union> set ks"
    using Cons.IH [of ?e h1] at t1(2,3) Cons.prems(4) by auto
  with step r t1(5) show ?case by (intro exI [of _ t] exI [of _ h']) (simp add: seqR_def)
qed

text \<open>What ROLLBACK relies on for one table.\<close>

definition restorable :: "Executor \<Rightarrow> transactionTableState \<Rightarrow> bool" where
  "restorable e st \<longleftrightarrow>
     open_at e (ts_table st) \<and>
     (\<exists>h m. table_log (heap e ! ts_table st) h \<and> settled (schema (heap e ! ts_table st)) m \<and> ts_rollback st = row_list m \<and>
        length h + card (dom (log_rows (schema (heap e ! ts_table st)) h)) + card (dom m) < 2 ^ 32 - 1)"

lemma map_le_dom_eq: "m1 \<subseteq>\<^sub>m m2 \<Longrightarrow> dom m1 = dom m2 \<Longrightarrow> m1 = m2"
  by (simp add: map_le_antisym map_le_def)

lemma rollback_table:
  assumes "restorable e st"
  shows "\<exists>t n. on_table (ts_table st) (counted (DeleteWhere (\<lambda>r. True))) e = (e\<lparr>heap := (heap e)[ts_table st := t]\<rparr>, Inr n) \<and>
    (\<exists>t'. insert_rows (ts_table st) (ts_rollback st) (e\<lparr>heap := (heap e)[ts_table st := t]\<rparr>) =
        (e\<lparr>heap := (heap e)[ts_table st := t']\<rparr>, Inr ()) \<and> Scan t' = Inr (ts_rollback st))"
proof -
  let ?a = "ts_table st"
  let ?sch = "schema (heap e ! ?a)"
  from assms obtain h m where op: "open_at e ?a" and h: "table_log (heap e ! ?a) h" and m: "settled ?sch m" "ts_rollback st = row_list m"
    and few: "length h + card (dom (log_rows ?sch h)) + card (dom m) < 2 ^ 32 - 1" by (auto simp: restorable_def)
  from log_DeleteWhere [OF h] few obtain t n h1 where
    t: "DeleteWhere (\<lambda>r. True) (heap e ! ?a) = (t, n, None)" "schema t = ?sch" "table_log t h1" "log_rows ?sch h1 = Map.empty"
    "length h1 = length h + card (dom (log_rows ?sch h))" by auto
  let ?e = "e\<lparr>heap := (heap e)[?a := t]\<rparr>"
  have at: "heap ?e ! ?a = t" "open_at ?e ?a" using op by (simp_all add: open_at_def)
  have fin: "finite (dom m)" using m(1) by (simp add: settled_def)
  then have "set (sorted_list_of_set (dom m)) \<subseteq> dom m" "length h1 + length (sorted_list_of_set (dom m)) < 2 ^ 32 - 1"
    using few t(5) by simp_all
  from insert_rows_settled [OF at(2) _ _ m(1) _ this] at t(2-4) obtain t' h' where
    t': "insert_rows ?a (map (\<lambda>k. the (m k)) (sorted_list_of_set (dom m))) ?e = (?e\<lparr>heap := (heap ?e)[?a := t']\<rparr>, Inr ())" "schema t' = ?sch"
    "table_log t' h'" "log_rows ?sch h' \<subseteq>\<^sub>m m" "dom (log_rows ?sch h') = dom (log_rows ?sch h1) \<union> set (sorted_list_of_set (dom m))" by auto
  have "log_rows ?sch h' = m" using t'(4,5) t(4) fin by (intro map_le_dom_eq) auto
  then have "Scan t' = Inr (row_list m)" using table_logD(8) [OF t'(3)] t'(2) by simp
  moreover have "on_table ?a (counted (DeleteWhere (\<lambda>r. True))) e = (?e, Inr n)"
    using t(1) by (intro on_table_open [OF op]) (simp add: counted_def)
  ultimately show ?thesis using t'(1) m(2) by (intro exI [of _ t] exI [of _ n] conjI exI [of _ t']) (simp_all add: row_list_def)
qed

lemma rollback_states_correct:
  "distinct (map ts_table sts) \<Longrightarrow> \<forall>st \<in> set sts. restorable e st \<Longrightarrow>
     \<exists>hp. rollback_states sts e = (e\<lparr>heap := hp\<rparr>, Inr ()) \<and> length hp = length (heap e) \<and>
       (\<forall>a. a \<notin> ts_table ` set sts \<longrightarrow> hp ! a = heap e ! a) \<and> (\<forall>st \<in> set sts. Scan (hp ! ts_table st) = Inr (ts_rollback st))"
proof (induction sts arbitrary: e)
  case Nil
  then show ?case by (intro exI [of _ "heap e"]) simp
next
  case (Cons st sts)
  let ?a = "ts_table st"
  from rollback_table [of e st] Cons.prems(2) obtain t n t' where
    t: "on_table ?a (counted (DeleteWhere (\<lambda>r. True))) e = (e\<lparr>heap := (heap e)[?a := t]\<rparr>, Inr n)"
    "insert_rows ?a (ts_rollback st) (e\<lparr>heap := (heap e)[?a := t]\<rparr>) = (e\<lparr>heap := (heap e)[?a := t']\<rparr>, Inr ())" "Scan t' = Inr (ts_rollback st)"
    by auto
  have op: "open_at e ?a" using Cons.prems(2) by (simp add: restorable_def)
  let ?e = "e\<lparr>heap := (heap e)[?a := t']\<rparr>"
  have other: "ts_table x \<noteq> ?a" if "x \<in> set sts" for x using Cons.prems(1) that by (auto simp: image_iff)
  have "restorable ?e x" if "x \<in> set sts" for x
    using Cons.prems(2) other [OF that] that by (simp add: restorable_def open_at_def)
  with Cons.IH [of ?e] Cons.prems(1) obtain hp where
    hp: "rollback_states sts ?e = (?e\<lparr>heap := hp\<rparr>, Inr ())" "length hp = length (heap ?e)"
    "\<forall>a. a \<notin> ts_table ` set sts \<longrightarrow> hp ! a = heap ?e ! a" "\<forall>st \<in> set sts. Scan (hp ! ts_table st) = Inr (ts_rollback st)" by auto
  have "hp ! ?a = t'" using hp(3) Cons.prems(1) op by (simp add: open_at_def)
  moreover have "rollback_states (st # sts) e = (e\<lparr>heap := hp\<rparr>, Inr ())"
    using t(1,2) hp(1) op by (simp add: delete_all_def seqR_def open_at_def)
  ultimately show ?case using hp t(3) by (intro exI [of _ hp]) auto
qed

lemma release_Scan: "Scan (heap (fold release_state sts e) ! a) = Scan (heap e ! a)"
proof (induction sts arbitrary: e)
  case (Cons st sts)
  have "Scan (heap (release_state st e) ! a) = Scan (heap e ! a)"
    unfolding release_state_def set_table_def using Scan_update by simp
  with Cons show ?case by simp
qed simp

text \<open>What BEGIN records of the tables: all but the pending writes.\<close>

definition recorded :: "transaction \<Rightarrow> (nat \<times> u64 \<times> row list) list" where
  "recorded x = map (\<lambda>st. (ts_table st, ts_readAt st, ts_rollback st)) (tx_tables x)"

text \<open>C9: BEGIN and ROLLBACK. Take registered tables that are open and logs of their writes, on disks without I/O failures, in the first
  session of their stores, whose records are rows in stored form, and keep their UNIQUE constraints, and start a transaction. Whatever is written to
  the tables afterwards, by this connection or by others, as long as they stay open, keep their schema and stay such logs with sequence numbers left:
  a ROLLBACK of the transaction succeeds, ends it, and gives every table exactly the rows it had at BEGIN. So it also takes away what other
  connections have committed since.\<close>

theorem rollback_restores:
  assumes "map_order en" and "registry e" and "begin_tx en e = (e1, Inr res)"
    and before: "\<forall>a \<in> snd ` set (Tables e). table_log (heap e ! a) (H a) \<and> unique_rows (schema (heap e ! a)) (log_rows (schema (heap e ! a)) (H a))"
    and "tx e2 = Some x" and "recorded x = recorded (the (tx e1))"
    and after: "\<forall>a \<in> snd ` set (Tables e). open_at e2 a \<and> schema (heap e2 ! a) = schema (heap e ! a) \<and> table_log (heap e2 ! a) (H2 a) \<and>
      length (H2 a) + card (dom (log_rows (schema (heap e ! a)) (H2 a))) + card (dom (log_rows (schema (heap e ! a)) (H a))) < 2 ^ 32 - 1"
  shows "\<exists>e3. rollback_tx e2 = (e3, Inr no_result) \<and> tx e3 = None \<and> (\<forall>a \<in> snd ` set (Tables e). Scan (heap e3 ! a) = Scan (heap e ! a))"
proof -
  have reg: "distinct (map fst (Tables e))" "distinct (map snd (Tables e))" using assms(2) by (simp_all add: registry_def)
  note facts = ranged_facts [OF assms(1) reg(1)]
  from begin_tx_states [OF assms(3)] obtain x1 where x1: "tx e1 = Some x1" "map ts_table (tx_tables x1) = map snd (ranged en (Tables e))"
    "\<forall>st \<in> set (tx_tables x1). Scan (heap e ! ts_table st) = Inr (ts_rollback st)" by metis
  have same: "recorded x = recorded x1" using assms(6) x1(1) by simp
  have "map fst (recorded y) = map ts_table (tx_tables y)" for y by (simp add: recorded_def comp_def)
  then have tabs: "map ts_table (tx_tables x) = map snd (ranged en (Tables e))" using same x1(2) by metis
  then have d: "distinct (map ts_table (tx_tables x))" using facts(3) reg(2) by simp
  have set: "ts_table ` set (tx_tables x) = snd ` set (Tables e)" using arg_cong [OF tabs, of set] facts(1) by simp
  have scan: "Scan (heap e ! ts_table st) = Inr (ts_rollback st)" if "st \<in> set (tx_tables x)" for st
  proof -
    have "(ts_table st, ts_readAt st, ts_rollback st) \<in> set (recorded x)" using that by (auto simp: recorded_def)
    then have "(ts_table st, ts_readAt st, ts_rollback st) \<in> set (recorded x1)" by (simp add: same)
    with x1(3) show ?thesis by (auto simp: recorded_def)
  qed
  have "restorable e2 st" if st: "st \<in> set (tx_tables x)" for st
  proof -
    let ?a = "ts_table st"
    have a: "?a \<in> snd ` set (Tables e)" using st set by blast
    have t: "table_log (heap e ! ?a) (H ?a)" "unique_rows (schema (heap e ! ?a)) (log_rows (schema (heap e ! ?a)) (H ?a))" using before a by auto
    have "ts_rollback st = row_list (log_rows (schema (heap e ! ?a)) (H ?a))" using scan [OF st] table_logD(8) [OF t(1)] by simp
    with log_settled [OF t] bspec [OF after a] show ?thesis unfolding restorable_def by auto
  qed
  from rollback_states_correct [OF d, of e2] this obtain hp where
    hp: "rollback_states (tx_tables x) e2 = (e2\<lparr>heap := hp\<rparr>, Inr ())" "\<forall>st \<in> set (tx_tables x). Scan (hp ! ts_table st) = Inr (ts_rollback st)" by blast
  let ?e3 = "(fold release_state (tx_tables x) (e2\<lparr>heap := hp\<rparr>))\<lparr>tx := None\<rparr>"
  have "rollback_tx e2 = (?e3, Inr no_result)" using assms(5) hp(1) by (simp add: rollback_tx_def seqR_def)
  moreover have "Scan (heap ?e3 ! a) = Scan (heap e ! a)" if "a \<in> snd ` set (Tables e)" for a
  proof -
    have "a \<in> ts_table ` set (tx_tables x)" using that set by blast
    then obtain st where "st \<in> set (tx_tables x)" "a = ts_table st" by blast
    with hp(2) scan release_Scan [of "tx_tables x" "e2\<lparr>heap := hp\<rparr>" a] show ?thesis by simp
  qed
  ultimately show ?thesis by (intro exI [of _ ?e3]) auto
qed

section \<open>COMMIT\<close>

text \<open>The rows of a table with pending writes over them, each written row in the form \<open>f\<close>.\<close>

definition overlaid :: "(row \<Rightarrow> row) \<Rightarrow> row list \<Rightarrow> (bytes \<times> transactionWrite) list \<Rightarrow> rows \<Rightarrow> rows" where
  "overlaid f h ws m k =
     (case map_of ws k of None \<Rightarrow> m k | Some w \<Rightarrow> if tw_deleted w then None else Some (f (h ! the (tw_row w))))"

definition good_write :: "Schema \<Rightarrow> row list \<Rightarrow> bytes \<times> transactionWrite \<Rightarrow> bool" where
  "good_write sch h kw \<longleftrightarrow>
     (case kw of (k, w) \<Rightarrow>
        if tw_deleted w then small (flagTombstone, k, [])
        else (\<exists>i. tw_row w = Some i \<and> row_typed sch (h ! i) \<and> row_key sch (canonical sch (h ! i)) = k \<and>
               small (flagLive, k, row_bytes sch (h ! i))))"

definition write_rec :: "Schema \<Rightarrow> row list \<Rightarrow> bytes \<times> transactionWrite \<Rightarrow> log_rec" where
  "write_rec sch h kw =
     (case kw of (k, w) \<Rightarrow>
        if tw_deleted w then (flagTombstone, k, []) else (flagLive, k, row_bytes sch (h ! the (tw_row w))))"

lemma write_rec_ok: "schema_ok sch \<Longrightarrow> good_write sch h kw \<Longrightarrow> row_rec sch (write_rec sch h kw) \<and> small (write_rec sch h kw)"
  by (auto simp: good_write_def write_rec_def row_rec_live split: prod.splits if_splits)

lemma batch_ops_good:
  "schema_ok sch \<Longrightarrow> list_all (good_write sch h) ws \<Longrightarrow>
     \<exists>ops. batch_ops sch (batch_rows h ws) = Inr ops \<and> map op_log ops = map (write_rec sch h) ws"
proof (induction ws)
  case (Cons kw ws)
  then obtain ops where ops: "batch_ops sch (batch_rows h ws) = Inr ops" "map op_log ops = map (write_rec sch h) ws" by auto
  obtain k w where kw: "kw = (k, w)" by (cases kw)
  let ?op = "if tw_deleted w then \<lparr>Key = k, Value = [], Delete = True\<rparr> else \<lparr>Key = k, Value = row_bytes sch (h ! the (tw_row w)), Delete = False\<rparr>"
  have "good_write sch h (k, w)" using Cons.prems(2) kw by simp
  then have "batch_ops sch (batch_rows h (kw # ws)) = Inr (?op # ops)"
    using ops(1) encode_ok [OF Cons.prems(1)] by (auto simp: kw batch_rows_def good_write_def split: if_splits)
  moreover have "op_log ?op = write_rec sch h kw" by (simp add: kw op_log_def write_rec_def)
  ultimately show ?case using ops(2) by (intro exI [of _ "?op # ops"]) simp
qed (simp add: batch_rows_def)

lemma log_ApplyRowsBatch:
  assumes t: "table_log t hl" and good: "list_all (good_write (schema t) h) ws" and few: "length hl + length ws < 2 ^ 32 - 1"
  shows "\<exists>t'. ApplyRowsBatch tid (batch_rows h ws) t = (t', Inr ()) \<and> schema t' = schema t \<and> table_log t' (hl @ map (write_rec (schema t) h) ws)"
proof -
  from t obtain c where c: "session (store t) c hl" by (auto simp: table_log_def)
  from batch_ops_good [OF table_logD(2) [OF t] good] obtain ops where
    ops: "batch_ops (schema t) (batch_rows h ws) = Inr ops" "map op_log ops = map (write_rec (schema t) h) ws" by blast
  have recs: "row_log (schema t) (map (write_rec (schema t) h) ws)"
    using table_logD(2,3) [OF t] good write_rec_ok [OF table_logD(2) [OF t]] by (auto simp: row_log_def list_all_iff)
  then have "good_call (DoBatch tid ops)" by (auto simp: ops(2) row_log_def)
  moreover have "length ops = length ws" using arg_cong [OF ops(2), of length] by simp
  ultimately obtain s c' where s: "ApplyBatch tid ops (store t) = (s, Inr ())" "session s c' (hl @ map (write_rec (schema t) h) ws)"
    using session_call [OF c, of "DoBatch tid ops"] few ops(2) by auto
  have "ApplyRowsBatch tid (batch_rows h ws) t = (t\<lparr>store := s\<rparr>, Inr ())"
    using ops(1) on_store_eq [where f = "ApplyBatch tid ops", OF s(1)] by (simp add: ApplyRowsBatch_def)
  with s(2) recs table_logD(1) [OF t] show ?thesis by (auto simp: table_log_def row_log_append)
qed

lemma log_rows_batch:
  "row_log sch hl \<Longrightarrow> distinct (map fst ws) \<Longrightarrow> list_all (good_write sch h) ws \<Longrightarrow>
     log_rows sch (hl @ map (write_rec sch h) ws) = overlaid (canonical sch) h ws (log_rows sch hl)"
proof (induction ws arbitrary: hl)
  case Nil
  then show ?case by (simp add: overlaid_def fun_eq_iff)
next
  case (Cons kw ws)
  obtain k w where kw: "kw = (k, w)" by (cases kw)
  let ?h = "hl @ [write_rec sch h kw]"
  have ok: "schema_ok sch" using Cons.prems(1) by (simp add: row_log_def)
  have "row_log sch ?h" using Cons.prems(1,3) write_rec_ok [OF ok] by (simp add: row_log_def)
  from Cons.IH [OF this] Cons.prems(2,3) have IH: "log_rows sch (?h @ map (write_rec sch h) ws) = overlaid (canonical sch) h ws (log_rows sch ?h)" by simp
  have step: "log_rows sch ?h = (log_rows sch hl)(k := (if tw_deleted w then None else Some (canonical sch (h ! the (tw_row w)))))"
    using Cons.prems(3) log_rows_live [OF Cons.prems(1)]
    by (auto simp: kw write_rec_def good_write_def log_rows_tombstone split: if_splits)
  have "map_of ws k = None" using Cons.prems(2) kw by (simp add: map_of_eq_None_iff)
  then have "overlaid (canonical sch) h ws (log_rows sch ?h) = overlaid (canonical sch) h (kw # ws) (log_rows sch hl)"
    unfolding step by (auto simp: kw overlaid_def fun_eq_iff split: option.splits)
  with IH show ?case by simp
qed

lemma overlaid_ranged:
  assumes "map_order en" and "distinct (map fst ws)"
  shows "overlaid f h (ranged en ws) = overlaid f h ws"
proof -
  have "map_of (ranged en ws) = map_of ws"
    using ranged_facts(1,2) [OF assms] assms(2) map_of_inject_set by blast
  then show ?thesis by (simp add: overlaid_def fun_eq_iff)
qed

text \<open>
  What COMMIT relies on for one table: the log \<open>hl\<close> of its writes, of which the first \<open>n\<close> are those before
  BEGIN, and pending writes of rows that fit the table.
\<close>

definition committable :: "Executor \<Rightarrow> row list \<Rightarrow> transactionTableState \<Rightarrow> log_rec list \<Rightarrow> nat \<Rightarrow> bool" where
  "committable e h st hl n \<longleftrightarrow>
     open_at e (ts_table st) \<and> table_log (heap e ! ts_table st) hl \<and> n \<le> length hl \<and> ts_readAt st = word_of_nat n \<and>
     distinct (map fst (ts_writes st)) \<and> list_all (good_write (schema (heap e ! ts_table st)) h) (ts_writes st) \<and>
     length hl + length (ts_writes st) < 2 ^ 32 - 1"

definition contested :: "transactionTableState \<Rightarrow> log_rec list \<Rightarrow> nat \<Rightarrow> bytes set" where
  "contested st hl n = fst ` set (ts_writes st) \<inter> rec_written ` set (drop n hl)"

lemma conflict_key_contested:
  assumes "map_order en" and "committable e h st hl n"
  shows "case conflict_key en e st of None \<Rightarrow> contested st hl n = {} | Some key \<Rightarrow> key \<in> contested st hl n"
proof -
  have w: "distinct (map fst (ts_writes st))" and t: "table_log (heap e ! ts_table st) hl" and n: "n \<le> length hl" "ts_readAt st = word_of_nat n"
    using assms(2) by (simp_all add: committable_def)
  have keys: "set (map fst (ranged en (ts_writes st))) = fst ` set (ts_writes st)" using ranged_facts(1) [OF assms(1) w] by simp
  have changed: "table_ChangedSince (ts_readAt st) key (heap e ! ts_table st) \<longleftrightarrow> key \<in> rec_written ` set (drop n hl)" for key
    using ChangedSince_log [OF table_logD(4) [OF t] n(1), of key] n(2) by (simp add: table_ChangedSince_def)
  show ?thesis
  proof (cases "conflict_key en e st")
    case None
    then have "\<forall>k \<in> set (map fst (ranged en (ts_writes st))). \<not> table_ChangedSince (ts_readAt st) k (heap e ! ts_table st)"
      by (auto simp: conflict_key_def find_None_iff)
    then show ?thesis unfolding keys changed using None by (auto simp: contested_def)
  next
    case (Some key)
    then have "key \<in> set (map fst (ranged en (ts_writes st)))" "table_ChangedSince (ts_readAt st) key (heap e ! ts_table st)"
      unfolding conflict_key_def find_Some_iff using nth_mem [of _ "map fst (ranged en (ts_writes st))"] by blast+
    then show ?thesis unfolding keys changed using Some by (simp add: contested_def)
  qed
qed

lemma find_conflict_contested:
  assumes "map_order en" and "\<forall>st \<in> set sts. committable e h st (H (ts_table st)) (N (ts_table st))"
  shows "case find_conflict en e sts of
      None \<Rightarrow> \<forall>st \<in> set sts. contested st (H (ts_table st)) (N (ts_table st)) = {}
    | Some key \<Rightarrow> \<exists>st \<in> set sts. key \<in> contested st (H (ts_table st)) (N (ts_table st))"
  using assms(2)
proof (induction sts)
  case (Cons st sts)
  with conflict_key_contested [OF assms(1), of e h st] show ?case by (auto split: option.splits)
qed simp

lemma apply_states_correct:
  assumes en: "map_order en"
  shows "distinct (map ts_table sts) \<Longrightarrow> \<forall>st \<in> set sts. committable e h st (H (ts_table st)) (N (ts_table st)) \<Longrightarrow>
     \<exists>hp. apply_states en sq h sts e = (e\<lparr>heap := hp\<rparr>, Inr ()) \<and> length hp = length (heap e) \<and>
       (\<forall>a. a \<notin> ts_table ` set sts \<longrightarrow> hp ! a = heap e ! a) \<and>
       (\<forall>st \<in> set sts. let sch = schema (heap e ! ts_table st) in
          Scan (hp ! ts_table st) = Inr (row_list (overlaid (canonical sch) h (ts_writes st) (log_rows sch (H (ts_table st))))))"
proof (induction sts arbitrary: e)
  case Nil
  then show ?case by (intro exI [of _ "heap e"]) simp
next
  case (Cons st sts)
  let ?a = "ts_table st" and ?ws = "ranged en (ts_writes st)"
  let ?sch = "schema (heap e ! ?a)"
  have c: "open_at e ?a" "table_log (heap e ! ?a) (H ?a)" "distinct (map fst (ts_writes st))" "list_all (good_write ?sch h) (ts_writes st)"
    "length (H ?a) + length (ts_writes st) < 2 ^ 32 - 1" using Cons.prems(2) by (simp_all add: committable_def)
  note facts = ranged_facts [OF en c(3)]
  have good: "list_all (good_write ?sch h) ?ws" using c(4) facts(1) by (simp add: list_all_iff)
  from log_ApplyRowsBatch [OF c(2) good] c(5) facts(4) obtain t where
    t: "ApplyRowsBatch sq (batch_rows h ?ws) (heap e ! ?a) = (t, Inr ())" "schema t = ?sch" "table_log t (H ?a @ map (write_rec ?sch h) ?ws)" by auto
  have rows: "Scan t = Inr (row_list (overlaid (canonical ?sch) h (ts_writes st) (log_rows ?sch (H ?a))))"
    using table_logD(8) [OF t(3)] t(2) log_rows_batch [OF table_logD(1) [OF c(2)] facts(2) good] overlaid_ranged [OF en c(3)] by simp
  let ?e = "e\<lparr>heap := (heap e)[?a := t]\<rparr>"
  have step: "on_table ?a (ApplyRowsBatch sq (batch_rows h ?ws)) e = (?e, Inr ())" using t(1) by (intro on_table_open [OF c(1)])
  have other: "heap ?e ! ts_table x = heap e ! ts_table x" if "x \<in> set sts" for x
    using Cons.prems(1) that by (auto simp: image_iff)
  have "\<forall>x \<in> set sts. committable ?e h x (H (ts_table x)) (N (ts_table x))"
  proof
    fix x assume x: "x \<in> set sts"
    have "open_at ?e (ts_table x) = open_at e (ts_table x)" by simp
    with Cons.prems(2) x other [OF x] show "committable ?e h x (H (ts_table x)) (N (ts_table x))"
      unfolding committable_def by auto
  qed
  with Cons.IH [of ?e] Cons.prems(1) obtain hp where
    hp: "apply_states en sq h sts ?e = (?e\<lparr>heap := hp\<rparr>, Inr ())" "length hp = length (heap ?e)" "\<forall>a. a \<notin> ts_table ` set sts \<longrightarrow> hp ! a = heap ?e ! a"
    "\<forall>x \<in> set sts. let sch = schema (heap ?e ! ts_table x) in
          Scan (hp ! ts_table x) = Inr (row_list (overlaid (canonical sch) h (ts_writes x) (log_rows sch (H (ts_table x)))))" by auto
  have "hp ! ?a = t" using hp(3) Cons.prems(1) c(1) by (simp add: open_at_def)
  moreover have "apply_states en sq h (st # sts) e = (e\<lparr>heap := hp\<rparr>, Inr ())" using step hp(1) by (simp add: seqR_def)
  ultimately show ?case using hp rows other by (intro exI [of _ hp]) (auto simp: Let_def)
qed

text \<open>C7: COMMIT. Let each table of the transaction be open and a log of writes, \<open>N\<close> of them from before BEGIN (on a disk without
  I/O failures, in the first session of its store, whose records are rows in stored form), with fewer than \<open>2 ^ 32 - 1\<close>
  writes in all, and let the pending rows be of the right types, under
  their keys and fit on a page. If some key the transaction wrote was written by anyone since BEGIN, COMMIT fails with a conflict on such a key and
  changes nothing. Otherwise it succeeds and ends the transaction: every table holds the rows it held before COMMIT with exactly the pending writes
  of the transaction over them, in stored form, and the other tables are as they were.\<close>

theorem commit_first_writer_wins:
  assumes "map_order en" and "tx e = Some x" and "distinct (map ts_table (tx_tables x))"
    and "\<forall>st \<in> set (tx_tables x). committable e (tx_heap x) st (H (ts_table st)) (N (ts_table st))"
  shows "if \<exists>st \<in> set (tx_tables x). contested st (H (ts_table st)) (N (ts_table st)) \<noteq> {}
    then \<exists>key. (\<exists>st \<in> set (tx_tables x). key \<in> contested st (H (ts_table st)) (N (ts_table st))) \<and>
      commit_tx en e = (e, Inl (ErrMsg ''transaction conflict on key %q'' [key]))
    else \<exists>e'. commit_tx en e = (e', Inr no_result) \<and> tx e' = None \<and>
      (\<forall>a. a \<notin> ts_table ` set (tx_tables x) \<longrightarrow> Scan (heap e' ! a) = Scan (heap e ! a)) \<and>
      (\<forall>st \<in> set (tx_tables x). let sch = schema (heap e ! ts_table st) in
         Scan (heap e' ! ts_table st) =
           Inr (row_list (overlaid (canonical sch) (tx_heap x) (ts_writes st) (log_rows sch (H (ts_table st))))))"
proof (cases "find_conflict en e (tx_tables x)")
  case (Some key)
  then show ?thesis
    using find_conflict_contested [OF assms(1,4)] assms(2) by (auto simp: commit_tx_def)
next
  case None
  then have none: "\<forall>st \<in> set (tx_tables x). contested st (H (ts_table st)) (N (ts_table st)) = {}"
    using find_conflict_contested [OF assms(1,4)] by simp
  let ?sq = "nextCommitSequence e + 1"
  let ?e = "e\<lparr>nextCommitSequence := ?sq, tx := Some (x\<lparr>tx_commit := ?sq\<rparr>)\<rparr>"
  have "\<forall>st \<in> set (tx_tables x). committable ?e (tx_heap x) st (H (ts_table st)) (N (ts_table st))"
    using assms(4) by (simp add: committable_def open_at_def)
  from apply_states_correct [OF assms(1,3) this, of ?sq] obtain hp where
    hp: "apply_states en ?sq (tx_heap x) (tx_tables x) ?e = (?e\<lparr>heap := hp\<rparr>, Inr ())" "\<forall>a. a \<notin> ts_table ` set (tx_tables x) \<longrightarrow> hp ! a = heap e ! a"
    "\<forall>st \<in> set (tx_tables x). let sch = schema (heap e ! ts_table st) in
       Scan (hp ! ts_table st) = Inr (row_list (overlaid (canonical sch) (tx_heap x) (ts_writes st) (log_rows sch (H (ts_table st)))))" by auto
  let ?e' = "(fold release_state (tx_tables x) (?e\<lparr>heap := hp\<rparr>))\<lparr>tx := None\<rparr>"
  have "commit_tx en e = (?e', Inr no_result)" using assms(2) None hp(1) by (simp add: commit_tx_def seqR_def Let_def)
  moreover have "Scan (heap ?e' ! a) = Scan (hp ! a)" for a using release_Scan [of "tx_tables x" "?e\<lparr>heap := hp\<rparr>" a] by simp
  ultimately show ?thesis using none hp(2,3) by (auto simp: Let_def)
qed

section \<open>Reading in a transaction\<close>

text \<open>\<open>byKey\<close> gives the positions of the keys in \<open>K\<close>, in a list of rows whose keys are \<open>ks\<close>.\<close>

definition positions :: "bytes set \<Rightarrow> bytes list \<Rightarrow> (bytes \<times> nat) list \<Rightarrow> bool" where
  "positions K ks byKey \<longleftrightarrow> (\<forall>k \<in> K. \<forall>i. map_of byKey k = Some i \<longleftrightarrow> i < length ks \<and> ks ! i = k)"

definition written_at :: "(bytes \<times> transactionWrite) list \<Rightarrow> (bytes \<rightharpoonup> nat) \<Rightarrow> (bytes \<rightharpoonup> nat)" where
  "written_at ws m k = (case map_of ws k of None \<Rightarrow> m k | Some w \<Rightarrow> if tw_deleted w then None else Some (the (tw_row w)))"

lemma written_at_Cons:
  assumes "k \<notin> fst ` set ws"
  shows "written_at ((k, w) # ws) m = written_at ws (m(k := (if tw_deleted w then None else Some (the (tw_row w)))))"
proof -
  have "map_of ws k = None" using assms by (simp add: map_of_eq_None_iff)
  then show ?thesis by (auto simp: written_at_def fun_eq_iff split: option.splits)
qed

lemma map_of_middle: "k \<notin> fst ` set a \<Longrightarrow> map_of (a @ (k, v) # b) = (map_of (a @ b))(k \<mapsto> v)"
proof -
  assume "k \<notin> fst ` set a"
  then have "map_of a k = None" by (simp add: map_of_eq_None_iff)
  then show ?thesis by (auto simp: fun_eq_iff map_add_def split: option.splits)
qed

lemma map_of_zip_at:
  assumes "distinct ks" and "length ks = length vs" and "i < length ks"
  shows "map_of (zip (take i ks @ drop (Suc i) ks) (take i vs @ drop (Suc i) vs)) = (map_of (zip ks vs))(ks ! i := None)"
    and "map_of (zip ks (vs[i := v])) = (map_of (zip ks vs))(ks ! i \<mapsto> v)"
proof -
  define z a b where "z = zip ks vs" and "a = take i z" and "b = drop (Suc i) z"
  have z: "distinct (map fst z)" "i < length z" "z ! i = (ks ! i, vs ! i)" using assms by (simp_all add: z_def)
  have split: "z = a @ (ks ! i, vs ! i) # b" using id_take_nth_drop [OF z(2)] z(3) by (simp add: a_def b_def)
  with z(1) have fresh: "ks ! i \<notin> fst ` set a" "ks ! i \<notin> fst ` set b" by auto
  then have none: "map_of (a @ b) (ks ! i) = None" unfolding map_of_eq_None_iff by auto
  have whole: "map_of z = (map_of (a @ b))(ks ! i \<mapsto> vs ! i)" unfolding split by (rule map_of_middle [OF fresh(1)])
  have "zip (take i ks @ drop (Suc i) ks) (take i vs @ drop (Suc i) vs) = a @ b"
    using assms(2) by (simp add: z_def a_def b_def take_zip drop_zip)
  then show "map_of (zip (take i ks @ drop (Suc i) ks) (take i vs @ drop (Suc i) vs)) = (map_of (zip ks vs))(ks ! i := None)"
    using whole none by (simp add: z_def fun_upd_idem)
  have "zip ks (vs[i := v]) = z[i := (ks ! i, v)]" using zip_update [of ks i "ks ! i" vs v] by (simp add: z_def)
  also have "\<dots> = a @ (ks ! i, v) # b" using z(2) by (simp add: upd_conv_take_nth_drop a_def b_def)
  finally show "map_of (zip ks (vs[i := v])) = (map_of (zip ks vs))(ks ! i \<mapsto> v)"
    using whole map_of_middle [OF fresh(1)] by (simp add: z_def)
qed

lemma map_of_zip_snoc:
  assumes "length ks = length vs" and "k \<notin> set ks"
  shows "map_of (zip (ks @ [k]) (vs @ [v])) = (map_of (zip ks vs))(k \<mapsto> v)"
proof -
  define z where "z = zip ks vs"
  have "map_of z k = None" using assms by (simp add: z_def map_of_zip_is_None)
  moreover have "zip (ks @ [k]) (vs @ [v]) = z @ [(k, v)]" using assms(1) by (simp add: z_def)
  ultimately show ?thesis unfolding z_def [symmetric] by (auto simp: fun_eq_iff map_add_def split: option.splits)
qed

lemma positions_remove:
  assumes "positions K ks byKey" and "i < length ks" and "ks ! i \<notin> K"
  shows "positions K (take i ks @ drop (Suc i) ks) (map (\<lambda>(k, j). (k, if j > i then j - 1 else j)) byKey)"
proof -
  define ks' where "ks' = take i ks @ drop (Suc i) ks"
  define byKey' where "byKey' = map (\<lambda>(k, j). (k, if j > i then j - 1 else j)) byKey"
  have shift: "map_of byKey' k = map_option (\<lambda>j. if j > i then j - 1 else j) (map_of byKey k)" for k
    using map_of_map [of "\<lambda>j. if j > i then j - 1 else j" byKey] by (simp add: byKey'_def)
  have len: "length ks' = length ks - 1" using assms(2) by (simp add: ks'_def)
  have nth: "ks' ! j = (if j < i then ks ! j else ks ! Suc j)" if "j < length ks'" for j
    using assms(2) that by (simp add: ks'_def nth_append)
  have "map_of byKey' k = Some j \<longleftrightarrow> j < length ks' \<and> ks' ! j = k" if k: "k \<in> K" for k j
  proof -
    have pos: "map_of byKey k = Some n \<longleftrightarrow> n < length ks \<and> ks ! n = k" for n using assms(1) k unfolding positions_def by blast
    have ne: "ks ! i \<noteq> k" using assms(3) k by blast
    have "map_of byKey' k = Some j \<longleftrightarrow> (\<exists>n. map_of byKey k = Some n \<and> j = (if n > i then n - 1 else n))"
      unfolding shift by (cases "map_of byKey k") auto
    also have "\<dots> \<longleftrightarrow> (\<exists>n. n < length ks \<and> ks ! n = k \<and> j = (if n > i then n - 1 else n))" unfolding pos by blast
    also have "\<dots> \<longleftrightarrow> j < length ks' \<and> ks' ! j = k"
    proof
      assume "\<exists>n. n < length ks \<and> ks ! n = k \<and> j = (if n > i then n - 1 else n)"
      then obtain n where n: "n < length ks" "ks ! n = k" "j = (if n > i then n - 1 else n)" by blast
      with ne have "n \<noteq> i" by blast
      then consider "n > i" | "n < i" by linarith
      then show "j < length ks' \<and> ks' ! j = k"
      proof cases
        case 1
        then have "j < length ks'" "\<not> j < i" "Suc j = n" using n(1,3) len by auto
        with nth n(2) show ?thesis by simp
      next
        case 2
        then have "j < length ks'" "j < i" "j = n" using n(1,3) len assms(2) by auto
        with nth n(2) show ?thesis by simp
      qed
    next
      assume j: "j < length ks' \<and> ks' ! j = k"
      show "\<exists>n. n < length ks \<and> ks ! n = k \<and> j = (if n > i then n - 1 else n)"
      proof (cases "j < i")
        case True
        with j nth [of j] len assms(2) show ?thesis by (intro exI [of _ j]) simp
      next
        case False
        have "Suc j < length ks" using j len by linarith
        with False j nth [of j] show ?thesis by (intro exI [of _ "Suc j"]) simp
      qed
    qed
    finally show ?thesis .
  qed
  then have "positions K ks' byKey'" by (simp only: positions_def) blast
  then show ?thesis by (simp only: ks'_def byKey'_def)
qed

lemma overlay_correct:
  "distinct ks \<Longrightarrow> length ks = length rows \<Longrightarrow> distinct (map fst ws) \<Longrightarrow> positions (fst ` set ws) ks byKey \<Longrightarrow>
     \<exists>ks'. distinct ks' \<and> length ks' = length (overlay ws rows byKey) \<and>
       map_of (zip ks' (overlay ws rows byKey)) = written_at ws (map_of (zip ks rows))"
proof (induction ws arbitrary: ks rows byKey)
  case Nil
  then show ?case by (intro exI [of _ ks]) (simp add: written_at_def fun_eq_iff)
next
  case (Cons kw ws)
  obtain k w where kw: "kw = (k, w)" by (cases kw)
  let ?v = "if tw_deleted w then None else Some (the (tw_row w))"
  have fresh: "k \<notin> fst ` set ws" "distinct (map fst ws)" using Cons.prems(3) by (simp_all add: kw)
  have pos: "positions (fst ` set ws) ks byKey" "map_of byKey k = Some i \<longleftrightarrow> i < length ks \<and> ks ! i = k" for i
    using Cons.prems(4) by (auto simp: positions_def kw)
  have step: ?case if "distinct ks1" "length ks1 = length rows1" "positions (fst ` set ws) ks1 byKey1"
    "overlay (kw # ws) rows byKey = overlay ws rows1 byKey1" "map_of (zip ks1 rows1) = (map_of (zip ks rows))(k := ?v)" for ks1 rows1 byKey1
  proof -
    have "written_at (kw # ws) (map_of (zip ks rows)) = written_at ws (map_of (zip ks1 rows1))"
      unfolding kw that(5) by (rule written_at_Cons [OF fresh(1)])
    then show ?thesis unfolding that(4) by (simp only: Cons.IH [OF that(1,2) fresh(2) that(3)])
  qed
  show ?case
  proof (cases "map_of byKey k")
    case None
    then have new: "k \<notin> set ks" using pos(2) by (auto simp: in_set_conv_nth)
    then have out: "map_of (zip ks rows) k = None" using Cons.prems(2) by (simp add: map_of_zip_is_None)
    show ?thesis
    proof (cases "tw_deleted w")
      case True
      with None out Cons.prems(1,2) pos(1) show ?thesis by (intro step [of ks rows byKey]) (simp_all add: kw fun_upd_idem)
    next
      case False
      have "positions (fst ` set ws) (ks @ [k]) (AList.update k (length rows) byKey)"
        using pos(1) fresh(1) Cons.prems(2) by (auto simp: positions_def update_conv' nth_append less_Suc_eq)
      moreover have "map_of (zip (ks @ [k]) (rows @ [the (tw_row w)])) = (map_of (zip ks rows))(k := ?v)"
        using map_of_zip_snoc [OF Cons.prems(2) new] False by simp
      ultimately show ?thesis using None False new Cons.prems(1,2)
        by (intro step [of "ks @ [k]" "rows @ [the (tw_row w)]" "AList.update k (length rows) byKey"]) (simp_all add: kw)
    qed
  next
    case (Some i)
    then have i: "i < length ks" "ks ! i = k" using pos(2) by auto
    note at = map_of_zip_at [OF Cons.prems(1,2) i(1), unfolded i(2)]
    show ?thesis
    proof (cases "tw_deleted w")
      case True
      have "distinct (take i ks @ drop (Suc i) ks)" using Cons.prems(1) by (simp add: set_take_disj_set_drop_if_distinct)
      moreover have "positions (fst ` set ws) (take i ks @ drop (Suc i) ks) (map (\<lambda>(k, j). (k, if j > i then j - 1 else j)) byKey)"
        using positions_remove [OF pos(1) i(1)] fresh(1) i(2) by simp
      ultimately show ?thesis using True Some at(1) Cons.prems(2)
        by (intro step [of "take i ks @ drop (Suc i) ks" "take i rows @ drop (Suc i) rows"]) (simp_all add: kw)
    next
      case False
      with Some at(2) pos(1) Cons.prems(1,2) show ?thesis by (intro step [of ks "rows[i := the (tw_row w)]" byKey]) (simp_all add: kw)
    qed
  qed
qed

text \<open>The index of the snapshot rows by their keys.\<close>

lemma byKey_other:
  "k \<notin> f ` set rows \<Longrightarrow> map_of (fold (\<lambda>(i, r). AList.update (f r) i) (List.enumerate n rows) acc) k = map_of acc k"
  by (induction rows arbitrary: n acc) (auto simp: update_conv')

lemma byKey_at:
  "distinct (map f rows) \<Longrightarrow> j < length rows \<Longrightarrow>
     map_of (fold (\<lambda>(i, r). AList.update (f r) i) (List.enumerate n rows) acc) (f (rows ! j)) = Some (n + j)"
proof (induction rows arbitrary: n acc j)
  case (Cons r rows)
  show ?case
  proof (cases j)
    case 0
    with Cons.prems(1) byKey_other [of "f r" f rows "Suc n" "AList.update (f r) n acc"] show ?thesis by (simp add: update_conv')
  next
    case (Suc j')
    with Cons show ?thesis by simp
  qed
qed simp

lemma byKey_positions:
  assumes "distinct (map f rows)"
  shows "positions K (map f rows) (fold (\<lambda>(i, r). AList.update (f r) i) (List.enumerate 0 rows) [])"
proof -
  let ?b = "fold (\<lambda>(i, r). AList.update (f r) i) (List.enumerate 0 rows) []"
  have "map_of ?b k = Some i \<longleftrightarrow> i < length rows \<and> f (rows ! i) = k" for k i
  proof (cases "k \<in> f ` set rows")
    case True
    then obtain j where j: "j < length rows" "f (rows ! j) = k" by (auto simp: in_set_conv_nth)
    then have "map_of ?b k = Some j" using byKey_at [OF assms j(1), of 0 "[]"] by simp
    moreover have "i = j" if "i < length rows" "f (rows ! i) = k"
      using assms j that nth_eq_iff_index_eq [of "map f rows" i j] by simp
    ultimately show ?thesis using j by auto
  next
    case False
    have "map_of ?b k = None" using byKey_other [OF False, of 0 "[]"] by simp
    moreover have "f (rows ! i) \<noteq> k" if "i < length rows" using False that by auto
    ultimately show ?thesis by auto
  qed
  then show ?thesis by (auto simp: positions_def)
qed

lemma zip_listing:
  assumes "distinct ks" and "length ks = length out" and "\<And>k. M k = map_option f (map_of (zip ks out) k)"
  shows "set ks = dom M" "map f out = map (\<lambda>k. the (M k)) ks"
proof -
  have "dom (map_of (zip ks out)) = set ks" using assms(2) by (rule dom_map_of_zip)
  then show "set ks = dom M" unfolding dom_def assms(3) by auto
  show "map f out = map (\<lambda>k. the (M k)) ks"
  proof (rule nth_equalityI)
    fix j assume "j < length (map f out)"
    then have j: "j < length out" "j < length ks" using assms(2) by simp_all
    have "map_of (zip ks out) (ks ! j) = Some (out ! j)" using map_of_zip_nth [OF assms(2,1) j(1)] .
    then show "map f out ! j = map (\<lambda>k. the (M k)) ks ! j" using j by (simp add: assms(3))
  qed (simp add: assms(2))
qed

lemma snapshot_keys:
  assumes "table_log t hl" and "n \<le> length hl"
  shows "dom (log_rows (schema t) (take n hl)) \<subseteq> fst ` set (versions (store t))"
proof
  fix k assume "k \<in> dom (log_rows (schema t) (take n hl))"
  then have "store_GetAt (word_of_nat n) k (store t) \<noteq> None"
    using GetAt_log [OF table_logD(4) [OF assms(1)] assms(2)] by (auto simp: log_rows_def split: option.splits)
  then have "versions_of k (store t) \<noteq> []" by (auto simp: store_GetAt_def visible_def)
  then have "map_of (versions (store t)) k \<noteq> None" by (auto simp: versions_of_def split: option.splits)
  then show "k \<in> fst ` set (versions (store t))" by (simp add: map_of_eq_None_iff)
qed

definition pending_row :: "row list \<Rightarrow> bytes \<times> transactionWrite \<Rightarrow> bool" where
  "pending_row h kw \<longleftrightarrow> tw_deleted (snd kw) \<or> the (tw_row (snd kw)) < length h"

lemma tx_rows_overlaid:
  assumes en: "map_order en" and t: "table_log t hl" and n: "n \<le> length hl" "ts_readAt st = word_of_nat n"
    and v: "distinct (map fst (versions (store t)))" and ws: "distinct (map fst (ts_writes st))" "list_all (pending_row h) (ts_writes st)"
    and r: "tx_rows en t st h = (h', addrs)"
  shows "\<exists>ks. distinct ks \<and> set ks = dom (overlaid id h (ts_writes st) (log_rows (schema t) (take n hl))) \<and>
    map ((!) h') addrs = map (\<lambda>k. the (overlaid id h (ts_writes st) (log_rows (schema t) (take n hl)) k)) ks"
proof -
  define m where "m = log_rows (schema t) (take n hl)"
  define kl where "kl = filter (\<lambda>k. m k \<noteq> None) (key_order en (map fst (versions (store t))))"
  define rows where "rows = map (\<lambda>k. the (m k)) kl"
  define as where "as = [length h ..< length h + length rows]"
  define byKey where "byKey = fold (\<lambda>(i, r). AList.update (row_key (schema t) r) i) (List.enumerate 0 rows) []"
  have order: "mset (key_order en (map fst (versions (store t)))) = mset (map fst (versions (store t)))" using en by (simp add: map_order_def)
  have dkl: "distinct kl" using v mset_eq_imp_distinct_iff [OF order] by (simp add: kl_def)
  have skl: "set kl = dom m" using snapshot_keys [OF t n(1)] mset_eq_setD [OF order] by (auto simp: kl_def m_def)
  have key: "row_key (schema t) (the (m k)) = k" if "k \<in> set kl" for k
    using that log_rows_Some(3) [OF row_log_take [OF table_logD(1) [OF t], of n]] skl by (auto simp: m_def)
  then have keys: "map (row_key (schema t)) rows = kl" by (simp add: rows_def map_idI)
  have scan: "ScanAt (key_order en (map fst (versions (store t)))) (ts_readAt st) t = Inr rows"
    using log_ScanAt [OF t n(1)] n(2) by (simp add: rows_def kl_def m_def)
  have out: "h' = h @ rows" "addrs = overlay (ranged en (ts_writes st)) as byKey"
    using r by (simp_all add: tx_rows_def scan Let_def as_def byKey_def)
  note ranged = ranged_facts [OF en ws(1)]
  have "positions (fst ` set (ranged en (ts_writes st))) kl byKey"
    using byKey_positions [of "row_key (schema t)" rows] dkl keys by (simp add: byKey_def)
  from overlay_correct [OF dkl _ ranged(2) this, of as] obtain ks where
    ks: "distinct ks" "length ks = length addrs" "map_of (zip ks addrs) = written_at (ranged en (ts_writes st)) (map_of (zip kl as))"
    by (auto simp: out as_def rows_def)
  have same: "map_of (ranged en (ts_writes st)) = map_of (ts_writes st)" using ranged(1,2) ws(1) map_of_inject_set by blast
  have snap: "map_option ((!) h') (map_of (zip kl as) k) = m k" for k
  proof (cases "k \<in> set kl")
    case True
    then obtain j where j: "j < length kl" "kl ! j = k" by (auto simp: in_set_conv_nth)
    then have "map_of (zip kl as) k = Some (length h + j)"
      using map_of_zip_nth [of kl as j] dkl by (simp add: as_def rows_def)
    moreover have "m k \<noteq> None" using True by (simp add: kl_def)
    ultimately show ?thesis using j by (auto simp: out rows_def)
  next
    case False
    then have "m k = None" using skl by auto
    moreover have "map_of (zip kl as) k = None" using False by (simp add: as_def rows_def map_of_zip_is_None)
    ultimately show ?thesis by simp
  qed
  have "overlaid id h (ts_writes st) m k = map_option ((!) h') (map_of (zip ks addrs) k)" for k
  proof (cases "map_of (ts_writes st) k")
    case None
    then show ?thesis using snap [of k] by (simp add: ks(3) written_at_def same overlaid_def)
  next
    case (Some w)
    have "pending_row h (k, w)" using ws(2) map_of_SomeD [OF Some] by (auto simp: list_all_iff)
    then show ?thesis using Some by (auto simp: ks(3) written_at_def same overlaid_def pending_row_def out(1) nth_append)
  qed
  from zip_listing [OF ks(1,2) this] ks(1) show ?thesis unfolding m_def by blast
qed

text \<open>C8: Reading in a transaction. Let a table of the transaction be a log of writes, the first \<open>n\<close> of them from before BEGIN (on
  a disk without I/O failures, in the first session of its store, whose records are rows in stored form). A statement in the transaction sees of it
  the rows that the log held at BEGIN, whatever was written to the table since, with the pending writes of the transaction itself over them: each
  such row once, and no other.\<close>

theorem transaction_reads:
  assumes "map_order en" and "tx e = Some x" and "tx_state a e = Some st" and "table_log (heap e ! a) hl"
    and "n \<le> length hl" and "ts_readAt st = word_of_nat n" and "distinct (map fst (versions (store (heap e ! a))))"
    and "distinct (map fst (ts_writes st))" and "list_all (pending_row (tx_heap x)) (ts_writes st)"
  shows "\<exists>ks. distinct ks \<and> set ks = dom (overlaid id (tx_heap x) (ts_writes st) (log_rows (schema (heap e ! a)) (take n hl))) \<and>
    exec_rows en a e = Inr (map (\<lambda>k. the (overlaid id (tx_heap x) (ts_writes st) (log_rows (schema (heap e ! a)) (take n hl)) k)) ks)"
proof -
  obtain h' addrs where r: "tx_rows en (heap e ! a) st (tx_heap x) = (h', addrs)" by (cases "tx_rows en (heap e ! a) st (tx_heap x)")
  from tx_rows_overlaid [OF assms(1,4-9) r] r assms(2,3) show ?thesis by (simp add: exec_rows_def)
qed

section \<open>Pending writes\<close>

text \<open>The statements on rows, and those that only read.\<close>

fun data_statement :: "Statement \<Rightarrow> bool" where
  "data_statement Begin = False"
| "data_statement Commit = False"
| "data_statement Rollback = False"
| "data_statement (DropTable n) = False"
| "data_statement (StAlter q) = False"
| "data_statement (StCreate q) = False"
| "data_statement s = True"

definition pends :: "Executor \<Rightarrow> Executor \<Rightarrow> bool" where
  "pends e e' \<longleftrightarrow> (\<exists>x x'. tx e = Some x \<and> e' = e\<lparr>tx := Some x'\<rparr> \<and> recorded x' = recorded x)"

lemma pends_refl: "tx e = Some x \<Longrightarrow> pends e e"
  unfolding pends_def by (intro exI [of _ x]) simp

lemma pends_trans: "pends e1 e2 \<Longrightarrow> pends e2 e3 \<Longrightarrow> pends e1 e3"
  by (auto simp: pends_def)

lemma pends_then: "pends e e1 \<Longrightarrow> (\<And>x. tx e1 = Some x \<Longrightarrow> pends e1 e2) \<Longrightarrow> pends e e2"
  by (auto simp: pends_def)

lemma write_state_recorded:
  "map (\<lambda>st. (ts_table st, ts_readAt st, ts_rollback st)) (write_state a key w sts) = map (\<lambda>st. (ts_table st, ts_readAt st, ts_rollback st)) sts"
  by (induction sts) auto

lemma recordWrite_pends: "tx e = Some x \<Longrightarrow> pends e (recordWrite a key i b e)"
  by (auto simp: pends_def recordWrite_def recorded_def write_state_recorded)

lemma tx_heap_pends: "tx e = Some x \<Longrightarrow> pends e (e\<lparr>tx := Some (x\<lparr>tx_heap := h\<rparr>)\<rparr>)"
  by (auto simp: pends_def recorded_def)

lemma put_row_pends: "tx e = Some x \<Longrightarrow> pends e (put_row i r e)"
  using tx_heap_pends by (simp add: put_row_def)

lemma update_pending_pends: "tx e = Some x \<Longrightarrow> pends e (fst (update_pending w sets a js n e))"
proof (induction js arbitrary: n e x)
  case (Cons i js)
  let ?r = "fold (\<lambda>(k, v). AList.update k v) sets (tx_heap (the (tx e)) ! i)"
  let ?e = "recordWrite a (row_key (schema (heap e ! a)) ?r) (Some i) False (put_row i ?r e)"
  have "pends e ?e" by (rule pends_then [OF put_row_pends [OF Cons.prems]]) (rule recordWrite_pends)
  from pends_then [OF this Cons.IH] Cons.IH [OF Cons.prems] show ?case by (simp add: Let_def)
qed (simp add: pends_refl)

lemma delete_pending_pends: "tx e = Some x \<Longrightarrow> pends e (fst (delete_pending w a rs n e))"
proof (induction rs arbitrary: n e x)
  case (Cons r rs)
  from pends_then [OF recordWrite_pends [OF Cons.prems] Cons.IH] Cons.IH [OF Cons.prems] show ?case by simp
qed (simp add: pends_refl)

lemma exec_insert_pends: "tx e = Some x \<Longrightarrow> pends e (fst (exec_insert en q e))"
proof -
  assume x: "tx e = Some x"
  have "pends e (recordWrite a key j b (e\<lparr>tx := Some (x\<lparr>tx_heap := h\<rparr>)\<rparr>))" for a key j b h
    by (rule pends_then [OF tx_heap_pends [OF x]]) (rule recordWrite_pends)
  with x pends_refl [OF x] show ?thesis
    by (auto simp: exec_insert_def new_row_def inTransaction_def Let_def split: sum.splits)
qed

lemma exec_update_pends: "tx e = Some x \<Longrightarrow> pends e (fst (exec_update en q e))"
proof -
  assume x: "tx e = Some x"
  have "pends e (fst (update_pending w sets a js n (e\<lparr>tx := Some (x\<lparr>tx_heap := h\<rparr>)\<rparr>)))" for w sets a js n h
    by (rule pends_then [OF tx_heap_pends [OF x]]) (rule update_pending_pends)
  with x pends_refl [OF x] show ?thesis
    by (auto simp: exec_update_def Let_def case_prod_beta split: sum.splits option.splits)
qed

lemma exec_delete_pends: "tx e = Some x \<Longrightarrow> pends e (fst (exec_delete en q e))"
  using delete_pending_pends [of e x] pends_refl [of e x] by (auto simp: exec_delete_def inTransaction_def case_prod_beta split: sum.splits)

text \<open>Writes stay pending. A statement on rows in a transaction changes nothing but the pending writes of that transaction, so no other
  connection can see it before COMMIT; and what BEGIN recorded for ROLLBACK and for detecting conflicts stays as it was.\<close>

theorem writes_stay_pending:
  assumes "tx e = Some x" and "data_statement s" and "executeStatement en s e = (e', r)"
  shows "\<exists>x'. e' = e\<lparr>tx := Some x'\<rparr> \<and> recorded x' = recorded x"
proof -
  have "pends e (fst (executeStatement en s e))"
    using assms(2) pends_refl [OF assms(1)] exec_insert_pends [OF assms(1)] exec_update_pends [OF assms(1)] exec_delete_pends [OF assms(1)]
    by (cases s) simp_all
  with assms(1,3) show ?thesis by (auto simp: pends_def)
qed

section \<open>Examples\<close>

definition example_env :: env where
  "example_env = \<lparr>key_order = (\<lambda>ks. ks), flush_order = (\<lambda>pool. map fst (items pool)), temp_file = (\<lambda>n. Inl (ErrMsg ''no space left'' []))\<rparr>"

definition one_table :: "Table \<Rightarrow> Executor" where
  "one_table t =
     \<lparr>heap = [t], closed = [], Tables = [(str ''people'', 0)], ex_Catalog = None, tx = None, nextTransactionID = 0, nextCommitSequence = 0,
       temp_files = 0\<rparr>"

definition bob :: row where
  "bob = [(str ''id'', GoInt 2), (str ''name'', GoString (str ''Bob'')), (str ''ok'', GoBool True), (str ''raw'', GoNil)]"

lemma example_env_order: "map_order example_env"
  by (simp add: map_order_def example_env_def)

lemma example_table: "\<exists>t. schema t = example_schema \<and> table_log t [] \<and> versions (store t) = []"
proof -
  from open_empty_disk [of "\<lambda>p. []"] obtain s where s: "session s [] []" by blast
  have "session (s\<lparr>versions := []\<rparr>) [] []"
    using s by (auto simp: session_def rep_def core_def store_chain_def history_def versions_of_def saved_def flags_ok_def split: if_splits)
  moreover have "row_log example_schema []" using example_client(1,2) by (simp add: row_log_def validate_ok)
  ultimately show ?thesis
    by (intro exI [of _ "\<lparr>store = s\<lparr>versions := []\<rparr>, schema = example_schema, secondary = []\<rparr>"]) (auto simp: table_log_def)
qed

lemma bob_facts: "row_typed example_schema bob" "canonical example_schema bob = bob" "row_key example_schema bob = str ''2''"
  "small (flagLive, str ''2'', row_bytes example_schema bob)" "\<not> conflict example_schema Map.empty (str ''2'') bob"
  by (simp_all add: bob_def example_eval Sprint_def dec_int_def dec_nat.simps small_def rec_len_def row_bytes_length conflict_def
      PageSize_def HeaderSize_def recordHeaderSize_def null_bytes_def column_bytes_def value_bytes_def encode_value_def)

lemma row_list_single: "row_list [k \<mapsto> r] = [r]" "row_list Map.empty = []"
  by (simp_all add: row_list_def)

lemma table_log_Snapshot: "table_log t h \<Longrightarrow> table_log (fst (table_Snapshot t)) h \<and> schema (fst (table_Snapshot t)) = schema t"
proof -
  assume t: "table_log t h"
  then obtain c where "session (store t) c h" by (auto simp: table_log_def)
  then have "session (fst (BeginSnapshot (store t))) c h"
    by (simp add: session_def rep_def core_def store_chain_def history_def versions_of_def saved_def BeginSnapshot_def)
  with t show ?thesis by (auto simp: table_log_def table_Snapshot_def BeginSnapshot_def)
qed

lemma begin_one_table:
  assumes "table_log t []"
  shows "begin_tx example_env (one_table t) =
    ((one_table (fst (table_Snapshot t)))\<lparr>nextTransactionID := 1, tx := Some \<lparr>tx_id = 1, tx_commit = 0,
        tx_tables = [\<lparr>ts_table = 0, ts_readAt = 0, ts_rollback = [], ts_writes = []\<rparr>], tx_heap = []\<rparr>\<rparr>, Inr no_result)"
proof -
  have "seq (store t) = 0" using table_logD(4) [OF assms] by (simp add: history_def)
  moreover have "Scan t = Inr []" using table_logD(8) [OF assms] by (simp add: row_list_single)
  moreover have "snd (table_Snapshot t) = seq (store t)" by (simp add: table_Snapshot_def BeginSnapshot_def)
  ultimately show ?thesis
    by (simp add: begin_tx_def inTransaction_def one_table_def ranged_def example_env_def seqR_def set_table_def List.map_filter_def Let_def case_prod_beta)
qed

text \<open>Another connection commits a row after BEGIN; the ROLLBACK removes it.\<close>

theorem rollback_restores_witness:
  "\<exists>t t' e1 e3. table_log t [] \<and> begin_tx example_env (one_table t) = (e1, Inr no_result) \<and> Scan t' = Inr [bob] \<and>
     rollback_tx (e1\<lparr>heap := [t']\<rparr>) = (e3, Inr no_result) \<and> tx e3 = None \<and> Scan (heap e3 ! 0) = Inr []"
proof -
  from example_table obtain t where t: "schema t = example_schema" "table_log t []" by blast
  let ?h = "[(flagLive, str ''2'', row_bytes example_schema bob)]"
  let ?s = "fst (table_Snapshot t)"
  have s: "table_log ?s []" "schema ?s = example_schema" using table_log_Snapshot [OF t(2)] t(1) by simp_all
  from log_Insert [OF s(1), of bob "str ''2''"] bob_facts s(2) obtain t' where
    t': "schema t' = example_schema" "table_log t' ?h" by auto
  have rows: "log_rows example_schema ?h = [str ''2'' \<mapsto> bob]"
    using log_rows_live [OF table_logD(1) [OF t(2), unfolded t(1)] bob_facts(1,4)] bob_facts(2) by simp
  have scan: "Scan t' = Inr [bob]" using table_logD(8) [OF t'(2)] t'(1) rows by (simp add: row_list_single)
  obtain e1 where e1: "begin_tx example_env (one_table t) = (e1, Inr no_result)" using begin_one_table [OF t(2)] by blast
  have tabs: "snd ` set (Tables (one_table t)) = {0}" "heap (one_table t) ! 0 = t" "registry (one_table t)"
    by (simp_all add: one_table_def registry_def open_at_def)
  have tx: "tx (e1\<lparr>heap := [t']\<rparr>) = Some (the (tx e1))" "closed e1 = []" using begin_one_table [OF t(2)] e1 by (auto simp: one_table_def)
  have "\<exists>e3. rollback_tx (e1\<lparr>heap := [t']\<rparr>) = (e3, Inr no_result) \<and> tx e3 = None \<and>
      (\<forall>a \<in> snd ` set (Tables (one_table t)). Scan (heap e3 ! a) = Scan (heap (one_table t) ! a))"
  proof (rule rollback_restores [OF example_env_order tabs(3) e1 _ tx(1) refl, where H = "\<lambda>a. []" and ?H2.0 = "\<lambda>a. ?h"])
    show "\<forall>a \<in> snd ` set (Tables (one_table t)). table_log (heap (one_table t) ! a) [] \<and>
        unique_rows (schema (heap (one_table t) ! a)) (log_rows (schema (heap (one_table t) ! a)) [])"
      using tabs t by (simp add: unique_rows_def)
    show "\<forall>a \<in> snd ` set (Tables (one_table t)). open_at (e1\<lparr>heap := [t']\<rparr>) a \<and>
        schema (heap (e1\<lparr>heap := [t']\<rparr>) ! a) = schema (heap (one_table t) ! a) \<and> table_log (heap (e1\<lparr>heap := [t']\<rparr>) ! a) ?h \<and>
        length ?h + card (dom (log_rows (schema (heap (one_table t) ! a)) ?h)) + card (dom (log_rows (schema (heap (one_table t) ! a)) [])) < 2 ^ 32 - 1"
      using tabs tx(2) t(1) t' by (simp add: open_at_def rows)
  qed
  then obtain e3 where "rollback_tx (e1\<lparr>heap := [t']\<rparr>) = (e3, Inr no_result)" "tx e3 = None" "Scan (heap e3 ! 0) = Scan t"
    using tabs by auto
  moreover have "Scan t = Inr []" using table_logD(8) [OF t(2)] by (simp add: row_list_single)
  ultimately show ?thesis using t(2) e1 scan by (intro exI [of _ t] exI [of _ t'] exI [of _ e1] exI [of _ e3]) simp
qed

text \<open>A transaction that has inserted a row.\<close>

definition bob_write :: transactionTableState where
  "bob_write = \<lparr>ts_table = 0, ts_readAt = 0, ts_rollback = [], ts_writes = [(str ''2'', \<lparr>tw_row = Some 0, tw_deleted = False\<rparr>)]\<rparr>"

definition bob_tx :: transaction where
  "bob_tx = \<lparr>tx_id = 1, tx_commit = 0, tx_tables = [bob_write], tx_heap = [bob]\<rparr>"

lemma bob_overlaid: "f bob = bob \<Longrightarrow> overlaid f (tx_heap bob_tx) (ts_writes bob_write) Map.empty = [str ''2'' \<mapsto> bob]"
  by (simp add: overlaid_def bob_tx_def bob_write_def fun_eq_iff)

theorem commit_first_writer_wins_witness:
  "\<exists>t e'. table_log t [] \<and> commit_tx example_env ((one_table t)\<lparr>tx := Some bob_tx\<rparr>) = (e', Inr no_result) \<and> tx e' = None \<and> Scan (heap e' ! 0) = Inr [bob]"
proof -
  from example_table obtain t where t: "schema t = example_schema" "table_log t []" by blast
  let ?e = "(one_table t)\<lparr>tx := Some bob_tx\<rparr>"
  have x: "tx ?e = Some bob_tx" "distinct (map ts_table (tx_tables bob_tx))" by (simp_all add: bob_tx_def)
  have c: "\<forall>st \<in> set (tx_tables bob_tx). committable ?e (tx_heap bob_tx) st [] 0"
    using t bob_facts by (simp add: bob_tx_def bob_write_def committable_def open_at_def one_table_def good_write_def)
  have none: "\<not> (\<exists>st \<in> set (tx_tables bob_tx). contested st [] 0 \<noteq> {})" by (simp add: contested_def)
  have "\<exists>e'. commit_tx example_env ?e = (e', Inr no_result) \<and> tx e' = None \<and>
      (\<forall>st \<in> set (tx_tables bob_tx). let sch = schema (heap ?e ! ts_table st) in
         Scan (heap e' ! ts_table st) = Inr (row_list (overlaid (canonical sch) (tx_heap bob_tx) (ts_writes st) (log_rows sch []))))"
    using commit_first_writer_wins [OF example_env_order x, where H = "\<lambda>a. []" and N = "\<lambda>a. 0", OF c] unfolding if_not_P [OF none] by blast
  then obtain e' where e': "commit_tx example_env ?e = (e', Inr no_result)" "tx e' = None"
    "Scan (heap e' ! 0) = Inr (row_list (overlaid (canonical example_schema) (tx_heap bob_tx) (ts_writes bob_write) Map.empty))"
    by (auto simp: bob_tx_def bob_write_def one_table_def t(1) Let_def)
  with bob_overlaid [of "canonical example_schema"] bob_facts(2) t(2) show ?thesis
    by (intro exI [of _ t] exI [of _ e']) (simp add: row_list_single)
qed

theorem transaction_reads_witness:
  "\<exists>t. table_log t [] \<and> exec_rows example_env 0 ((one_table t)\<lparr>tx := Some bob_tx\<rparr>) = Inr [bob]"
proof -
  from example_table obtain t where t: "schema t = example_schema" "table_log t []" "versions (store t) = []" by blast
  let ?e = "(one_table t)\<lparr>tx := Some bob_tx\<rparr>"
  have st: "tx ?e = Some bob_tx" "tx_state 0 ?e = Some bob_write" "heap ?e ! 0 = t"
    by (simp_all add: tx_state_def bob_tx_def bob_write_def one_table_def)
  have ws: "distinct (map fst (ts_writes bob_write))" "list_all (pending_row (tx_heap bob_tx)) (ts_writes bob_write)" "ts_readAt bob_write = word_of_nat 0"
    by (simp_all add: bob_write_def bob_tx_def pending_row_def)
  let ?M = "overlaid id (tx_heap bob_tx) (ts_writes bob_write) (log_rows (schema (heap ?e ! 0)) (take 0 []))"
  have M: "?M = [str ''2'' \<mapsto> bob]" using bob_overlaid [of id] by simp
  have "\<exists>ks. distinct ks \<and> set ks = dom ?M \<and> exec_rows example_env 0 ?e = Inr (map (\<lambda>k. the (?M k)) ks)"
    using t st ws by (intro transaction_reads [OF example_env_order st(1,2)]) simp_all
  then obtain ks where ks: "distinct ks" "set ks = {str ''2''}" "exec_rows example_env 0 ?e = Inr (map (\<lambda>k. the (?M k)) ks)" unfolding M by auto
  then have "ks = [str ''2'']" using ks(1,2) by (cases ks; cases "tl ks") auto
  with ks(3) M t(2) show ?thesis by (intro exI [of _ t]) simp
qed

definition everybody :: Statement where
  "everybody = StDelete \<lparr>del_Table = str ''people'', del_Where = None\<rparr>"

theorem writes_stay_pending_witness:
  "\<exists>t e' r. table_log t [] \<and> executeStatement example_env everybody ((one_table t)\<lparr>tx := Some bob_tx\<rparr>) = (e', r) \<and> heap e' = [t]"
proof -
  from example_table obtain t where t: "table_log t []" by blast
  let ?e = "(one_table t)\<lparr>tx := Some bob_tx\<rparr>"
  obtain e' r where e': "executeStatement example_env everybody ?e = (e', r)" by (cases "executeStatement example_env everybody ?e")
  from writes_stay_pending [OF _ _ e', of bob_tx] obtain x' where "e' = ?e\<lparr>tx := Some x'\<rparr>" by (auto simp: everybody_def)
  with t e' show ?thesis by (intro exI [of _ t] exI [of _ e'] exI [of _ r]) (simp add: one_table_def)
qed

end
