(* ===== verification/SQL_Parse_Correct.thy ===== *)
theory SQL_Parse_Correct
  imports SQL_Parse "HOL-Library.Sublist"
begin

text \<open>
  The parser returns: the bound of the recursion is always large enough, and the only panic is that
  of \<^verbatim>\<open>LIMIT\<close> and \<^verbatim>\<open>OFFSET\<close> with a value that is not an integer.
\<close>

section \<open>Parsers that return\<close>

definition paged :: "Token list \<Rightarrow> bool" where
  "paged ts \<longleftrightarrow> (\<exists>t \<in> set ts. EqualFold (Lexeme t) (str ''LIMIT'') \<or> EqualFold (Lexeme t) (str ''OFFSET''))"

text \<open>
  \<open>tame ts m\<close>: the outcome \<open>m\<close> of a parser on \<open>ts\<close> is not divergence, is a panic only if \<open>ts\<close> has the
  word LIMIT or OFFSET, and leaves a suffix of \<open>ts\<close>.
\<close>

definition tame :: "Token list \<Rightarrow> 'a parsed \<Rightarrow> bool" where
  "tame ts m \<longleftrightarrow> (case m of Inl err \<Rightarrow> err \<noteq> Diverge \<and> (err = Panic \<longrightarrow> paged ts) | Inr (x, us) \<Rightarrow> suffix us ts)"

named_theorems tame_intros

lemma paged_suffix: "suffix us ts \<Longrightarrow> paged us \<Longrightarrow> paged ts"
  unfolding paged_def using set_mono_suffix by blast

lemma tame_weaken: "tame us m \<Longrightarrow> suffix us ts \<Longrightarrow> tame ts m"
  using paged_suffix by (auto simp: tame_def split: sum.splits intro: suffix_order.trans)

lemma tame_pseq [tame_intros]:
  assumes "tame ts m" and "\<And>x us. suffix us ts \<Longrightarrow> m = Inr (x, us) \<Longrightarrow> tame us (f x us)"
  shows "tame ts (pseq m f)"
proof (cases m)
  case (Inr y)
  obtain x us where y: "y = (x, us)" by (cases y)
  with assms(1) Inr have s: "suffix us ts" by (simp add: tame_def)
  from tame_weaken [OF assms(2) [OF s] s] Inr y show ?thesis by (simp add: pseq_def)
qed (use assms(1) in \<open>simp add: tame_def pseq_def\<close>)

lemma tame_Inr [tame_intros]: "suffix us ts \<Longrightarrow> tame ts (Inr (x, us))"
  by (simp add: tame_def)

lemma tame_Msg [tame_intros]: "tame ts (Inl (ErrMsg f xs))"
  by (simp add: tame_def)

lemma suffix_take [tame_intros]: "suffix (take_token ts) ts"
  by (simp add: take_token_def suffix_tl)

lemma suffix_take_trans [tame_intros]: "suffix us ts \<Longrightarrow> suffix (take_token us) ts"
  using suffix_take suffix_order.trans by blast

lemma suffix_if [tame_intros]: "suffix us ts \<Longrightarrow> suffix vs ts \<Longrightarrow> suffix (if b then us else vs) ts"
  by simp

lemmas suffix_refl [tame_intros] = suffix_order.refl

lemma tame_take: "tame (take_token ts) m \<Longrightarrow> tame ts m"
  by (rule tame_weaken [OF _ suffix_take])

lemma tame_if [tame_intros]: "(b \<Longrightarrow> tame ts m) \<Longrightarrow> (\<not> b \<Longrightarrow> tame ts k) \<Longrightarrow> tame ts (if b then m else k)"
  by simp

lemma tame_Let [tame_intros]: "tame ts (f x) \<Longrightarrow> tame ts (Let x f)"
  by (simp add: Let_def)

lemma tame_prod [tame_intros]: "(\<And>a b. tame ts (f a b us)) \<Longrightarrow> tame ts ((case x of (a, b) \<Rightarrow> f a b) us)"
  by (simp split: prod.splits)

lemma tame_want [tame_intros]: "suffix us ts \<Longrightarrow> tame ts (want s us)"
  by (simp add: want_def tame_def suffix_take_trans)

lemma tame_name [tame_intros]: "suffix us ts \<Longrightarrow> tame ts (name us)"
  by (simp add: name_def tame_def suffix_take_trans)

lemma sql_value_errors: "sql_value t = Inl err \<Longrightarrow> \<exists>f xs. err = ErrMsg f xs"
  by (auto simp: sql_value_def Atoi_def ParseFloat_def num_error_def Let_def split: if_splits sum.splits option.splits prod.splits)

lemma tame_value [tame_intros]: "suffix us ts \<Longrightarrow> tame ts (value_token us)"
  using sql_value_errors [of "cur us"] by (auto simp: value_token_def tame_def suffix_take_trans split: sum.splits)

lemma comma_list_tame: "(\<And>us. tame us (p us)) \<Longrightarrow> tame ts (comma_list p ts)"
proof (induction p ts rule: comma_list.induct)
  case (1 p ts)
  show ?case
  proof (cases "p ts")
    case (Inl err)
    then show ?thesis using "1.prems" [of ts] by (simp add: comma_list.simps tame_def)
  next
    case (Inr y)
    obtain x us where y: "y = (x, us)" by (cases y)
    with "1.prems" [of ts] Inr have s: "suffix us ts" by (simp add: tame_def)
    then have le: "length us \<le> length ts" by (rule suffix_length_le)
    show ?thesis
    proof (cases "Type (cur us) = Comma")
      case True
      have "tame us (pseq (comma_list p (take_token us)) (\<lambda>xs ws. Inr (x # xs, ws)))"
        by (rule tame_take, rule tame_pseq) (use "1.IH" [OF Inr y [symmetric]] True le "1.prems" in \<open>auto intro: tame_intros\<close>)
      with True le Inr y show ?thesis by (simp add: comma_list.simps [of p ts] tame_weaken [OF _ s])
    qed (use s Inr y in \<open>simp add: comma_list.simps tame_def\<close>)
  qed
qed

lemmas tame_comma_list [tame_intros] = tame_weaken [OF comma_list_tame]

lemma is_word_take: "is_word w ts \<Longrightarrow> w \<noteq> [] \<Longrightarrow> length (take_token ts) < length ts"
  using cur_word by (fastforce simp: take_token_def)

lemma tame_test: "tame ts (parse_test ts)"
  unfolding parse_test_def by (intro tame_intros)

text \<open>The recursion through parentheses returns if its bound is four times the number of tokens and three.\<close>

lemma tame_condition_parsers:
  "4 * length ts + 3 \<le> n \<Longrightarrow> tame ts (parseOr n ts)"
  "4 * length ts + 1 \<le> n \<Longrightarrow> tame ts (or_loop n left ts)"
  "4 * length ts + 2 \<le> n \<Longrightarrow> tame ts (parseAnd n ts)"
  "4 * length ts + 1 \<le> n \<Longrightarrow> tame ts (and_loop n left ts)"
  "4 * length ts + 1 \<le> n \<Longrightarrow> tame ts (parsePrimary n ts)"
proof (induction n ts and n left ts and n ts and n left ts and n ts rule: parseOr_or_loop_parseAnd_and_loop_parsePrimary.induct)
  case (2 n ts)
  have "tame ts (parseAnd n ts)" using "2.prems" by (intro "2.IH"(1)) simp
  then show ?case
    unfolding parseOr.simps
    by (rule tame_pseq, intro "2.IH"(2)) (use "2.prems" in \<open>auto dest!: suffix_length_le\<close>)
next
  case (4 n left ts)
  show ?case
  proof (cases "is_word ''OR'' ts")
    case True
    have less: "length (take_token ts) < length ts" using is_word_take [OF True] by simp
    then have "tame (take_token ts) (parseAnd n (take_token ts))" using "4.prems" by (intro "4.IH"(1) [OF True]) simp
    then have "tame (take_token ts) (pseq (parseAnd n (take_token ts)) (\<lambda>right ts. or_loop n (both ''OR'' left right) ts))"
      by (rule tame_pseq, intro "4.IH"(2) [OF True]) (use "4.prems" less in \<open>auto dest!: suffix_length_le\<close>)
    from tame_take [OF this] show ?thesis using True by simp
  qed (simp add: tame_def)
next
  case (6 n ts)
  have "tame ts (parsePrimary n ts)" using "6.prems" by (intro "6.IH"(1)) simp
  then show ?case
    unfolding parseAnd.simps
    by (rule tame_pseq, intro "6.IH"(2)) (use "6.prems" in \<open>auto dest!: suffix_length_le\<close>)
next
  case (8 n left ts)
  show ?case
  proof (cases "is_word ''AND'' ts")
    case True
    have less: "length (take_token ts) < length ts" using is_word_take [OF True] by simp
    then have "tame (take_token ts) (parsePrimary n (take_token ts))" using "8.prems" by (intro "8.IH"(1) [OF True]) simp
    then have "tame (take_token ts) (pseq (parsePrimary n (take_token ts)) (\<lambda>right ts. and_loop n (both ''AND'' left right) ts))"
      by (rule tame_pseq, intro "8.IH"(2) [OF True]) (use "8.prems" less in \<open>auto dest!: suffix_length_le\<close>)
    from tame_take [OF this] show ?thesis using True by simp
  qed (simp add: tame_def)
next
  case (10 n ts)
  show ?case
  proof (cases "Type (cur ts) = LParen")
    case True
    then have "length (take_token ts) < length ts" by (cases ts) (auto simp: cur_def take_token_def)
    then have "tame (take_token ts) (parseOr n (take_token ts))" using "10.prems" by (intro "10.IH" [OF True]) simp
    then have "tame (take_token ts) (pseq (parseOr n (take_token ts)) (\<lambda>c ts. pseq (want '')'' ts) (\<lambda>u ts. Inr (c, ts))))"
      by (intro tame_pseq tame_want tame_Inr suffix_refl)
    from tame_take [OF this] show ?thesis using True by simp
  qed (simp add: tame_test)
qed simp_all

lemma condition_tame: "tame ts (condition ts)"
proof -
  have "4 * length (take_token ts) + 3 \<le> condition_bound ts"
    using suffix_length_le [OF suffix_take, of ts] by (simp add: condition_bound_def)
  from tame_condition_parsers(1) [OF this] have "tame ts (parseOr (condition_bound ts) (take_token ts))" by (rule tame_take)
  then show ?thesis unfolding condition_def by (intro tame_if tame_Inr suffix_refl tame_pseq)
qed

lemmas tame_condition [tame_intros] = tame_weaken [OF condition_tame]

section \<open>Statements\<close>

lemma column_def_tame: "tame ts (column_def ts)"
  unfolding column_def_def column_type_def Let_def by (intro tame_intros) (auto intro: tame_intros)

lemmas tame_column_def [tame_intros] = tame_weaken [OF column_def_tame]

lemma constraint_one_tame: "tame ts (constraint_one c ts)"
  unfolding constraint_one_def by (intro tame_intros)

lemma constraints_tame: "tame ts (constraints_loop c ts)"
proof (induction c ts rule: constraints_loop.induct)
  case (1 c ts)
  show ?case
  proof (cases "constraint_word ts")
    case True
    show ?thesis
    proof (cases "constraint_one c ts")
      case (Inl err)
      with True constraint_one_tame [of ts c] show ?thesis by (simp add: constraints_loop.simps [of c ts] tame_def)
    next
      case (Inr y)
      obtain d us where y: "y = (d, us)" by (cases y)
      with Inr constraint_one_tame [of ts c] have "suffix us ts" by (simp add: tame_def)
      from tame_weaken [OF "1.IH" [OF True Inr y [symmetric]] this] True Inr y
      show ?thesis by (simp add: constraints_loop.simps [of c ts])
    qed
  qed (simp add: constraints_loop.simps tame_def)
qed

lemmas tame_constraints [tame_intros] = tame_weaken [OF constraints_tame]

lemma create_column_tame: "tame ts (create_column ts)"
  unfolding create_column_def by (intro tame_intros)

lemma assignment_tame: "tame ts (assignment ts)"
  unfolding assignment_def by (intro tame_intros)

lemma select_column_tame: "tame ts (select_column ts)"
proof (cases ts)
  case Nil
  then show ?thesis by (simp add: select_column_def cur_def isAggregateName_def ToUpper_ascii str_def tame_name)
next
  case (Cons t us)
  then show ?thesis unfolding select_column_def next_token_def by (auto intro!: tame_intros)
qed

lemma statements_tame:
  "tame ts (createStmt ts)" "tame ts (dropStmt ts)" "tame ts (alterStmt ts)" "tame ts (updateStmt ts)"
  "tame ts (deleteStmt ts)" "tame ts (insertStmt ts)" "tame ts (tablesStmt w ts)"
  unfolding createStmt_def dropStmt_def alterStmt_def updateStmt_def deleteStmt_def insertStmt_def tablesStmt_def Let_def
  by (intro tame_intros create_column_tame assignment_tame)+

lemma join_clause_tame: "tame ts (join_clause ts)"
proof -
  have "next_token ts = Inr (cur (take_token ts))" if "is_word ''INNER'' ts"
    using cur_word [OF that] by (cases ts) (auto simp: next_token_def take_token_def)
  then show ?thesis
    unfolding join_clause_def Let_def by (auto split: bool.splits intro!: tame_intros)
qed

lemma group_clause_tame: "tame ts (group_clause ts)"
  unfolding group_clause_def by (intro tame_intros)

lemma order_clause_tame: "tame ts (order_clause ts)"
  unfolding order_clause_def by (intro tame_intros)

lemma is_word_paged: "is_word ''LIMIT'' ts \<or> is_word ''OFFSET'' ts \<Longrightarrow> paged ts"
  using cur_word [of _ ts] by (cases ts) (auto simp: is_word_def paged_def cur_def)

lemma int_clause_tame: "w = ''LIMIT'' \<or> w = ''OFFSET'' \<Longrightarrow> tame ts (int_clause w d ts)"
  using is_word_paged [of ts] sql_value_errors [of "cur (take_token ts)"]
  by (auto simp: int_clause_def tame_def split: sum.splits val.splits intro: suffix_take_trans suffix_take)

lemma select_tame: "tame ts (selectStmt ts)"
  unfolding selectStmt_def
  by (intro tame_intros select_column_tame tame_weaken [OF join_clause_tame] tame_weaken [OF group_clause_tame]
      tame_weaken [OF order_clause_tame] tame_weaken [OF int_clause_tame]) simp_all

lemma explain_tame: "tame ts (explainStmt ts)"
  unfolding explainStmt_def Let_def
  by (intro tame_intros tame_weaken [OF select_tame] statements_tame [THEN tame_weaken])

lemma statement_tame: "tame ts (statement ts)"
  unfolding statement_def
  by (intro tame_if tame_Inr tame_Msg suffix_take explain_tame select_tame statements_tame)

lemma Lex_errors: "lex_loop s out = Inl err \<Longrightarrow> \<exists>f xs. err = ErrMsg f xs"
proof (induction s out rule: lex_loop.induct)
  case (2 c cs out)
  have "lex_one out c cs = Inl e \<Longrightarrow> \<exists>f xs. e = ErrMsg f xs" for e
    by (auto simp: lex_one_def unexpected_def Let_def split: if_splits option.splits)
  with 2 show ?case by (auto split: sum.splits option.splits)
qed simp

lemma parse_tokens_tame: "parse_tokens ts = Inl err \<Longrightarrow> err \<noteq> Diverge \<and> (err = Panic \<longrightarrow> paged ts)"
  using statement_tame [of ts] by (auto simp: parse_tokens_def tame_def Let_def split: sum.splits if_splits)

end
