(* ===== verification/SQL_Print.thy ===== *)
theory SQL_Print
  imports SQL_Parse_Correct
begin

text \<open>
  Printing statements as text, and that the lexer and the parser read a printed statement back.
  Names and strings are printed as quoted strings with a backslash before quotes and backslashes,
  conditions with parentheses around every AND and OR.
\<close>

section \<open>Tokens as text\<close>

definition escape :: "bytes \<Rightarrow> bytes" where
  "escape s = concat (map (\<lambda>c. if c = 39 \<or> c = 92 then [92, c] else [c]) s)"

definition print_token :: "Token \<Rightarrow> bytes" where
  "print_token t = (if Type t = String then [39] @ escape (Lexeme t) @ [39] else Lexeme t)"

definition print_tokens :: "Token list \<Rightarrow> bytes" where
  "print_tokens ts = concat (map (\<lambda>t. print_token t @ [32]) ts)"

definition word :: "string \<Rightarrow> Token" where
  "word w = Tok (word_type (str w)) (str w)"

definition quoted :: "bytes \<Rightarrow> Token" where
  "quoted s = Tok String s"

definition integer :: "u64 \<Rightarrow> Token" where
  "integer i = Tok Number (dec_int (sint i))"

definition punctuation :: "Token list" where
  "punctuation =
     [Tok Comma (str '',''), Tok LParen (str ''(''), Tok RParen (str '')''), Tok Equal (str ''=''), Tok NotEqual (str ''!=''),
      Tok Less (str ''<''), Tok Greater (str ''>''), Tok LessEqual (str ''<=''), Tok GreaterEqual (str ''>=''), Tok Semicolon (str '';'')]"

definition lexable :: "Token \<Rightarrow> bool" where
  "lexable t \<longleftrightarrow>
     Type t = String \<or> (\<exists>i. t = integer i) \<or>
     (t = Tok (word_type (Lexeme t)) (Lexeme t) \<and> Lexeme t \<noteq> [] \<and> list_all word_byte (Lexeme t)) \<or> t \<in> set punctuation"

lemma lex_escape: "lex_string 39 (escape s @ 39 # rest) b = Some (b @ s, rest)"
  by (induction s arbitrary: b) (auto simp: escape_def)

lemma word_byte_cases:
  assumes "word_byte c"
  shows "\<not> is_space c" "c \<notin> {45, 63, 44, 40, 41, 61, 33, 60, 62, 59, 42, 39, 34, 32}"
  using assms by (auto simp: word_byte_def is_letter_def is_digit_def is_space_def word_le_nat_alt)

lemma lex_space: "lex_loop (32 # rest) out = lex_loop rest out"
  by (simp add: lex_one_def is_space_def)

lemma not_word_space: "\<not> word_byte 32" "\<not> number_byte 32" "is_space 32"
  by (simp_all add: word_byte_def number_byte_def is_letter_def is_digit_def is_space_def)

lemma lex_token:
  assumes "lex_one out c cs = Inr (Some t, 32 # rest)"
  shows "lex_loop (c # cs) out = lex_loop rest (out @ [t])"
  using assms lex_space [of rest "out @ [t]"] by (simp del: lex_loop.simps(2) add: lex_loop.simps(2) [of c cs])

lemma lex_word:
  assumes "list_all word_byte (c # cs)"
  shows "lex_loop (c # cs @ 32 # rest) out = lex_loop rest (out @ [Tok (word_type (c # cs)) (c # cs)])"
proof (rule lex_token)
  have "takeWhile word_byte (cs @ 32 # rest) = cs" "dropWhile word_byte (cs @ 32 # rest) = 32 # rest"
    using assms not_word_space by (auto simp: takeWhile_append list_all_iff dropWhile_append)
  then show "lex_one out c (cs @ 32 # rest) = Inr (Some (Tok (word_type (c # cs)) (c # cs)), 32 # rest)"
    using assms word_byte_cases [of c] by (simp add: lex_one_def Let_def)
qed

section \<open>Integers\<close>

lemma digit_byte: "k < 10 \<Longrightarrow> is_digit (word_of_nat (48 + k)) \<and> digit (word_of_nat (48 + k)) = k"
proof -
  assume "k < 10"
  then have "unat (word_of_nat (48 + k) :: u8) = 48 + k" by (simp add: unat_of_nat del: of_nat_add)
  with \<open>k < 10\<close> show ?thesis by (simp add: is_digit_def digit_def word_le_nat_alt del: of_nat_add)
qed

lemma dec_nat_digits: "list_all is_digit (dec_nat n)"
proof (induction n rule: dec_nat.induct)
  case (1 n)
  have "n mod 10 < 10" by simp
  with 1 digit_byte [of n] digit_byte [OF this] show ?case by (subst dec_nat.simps) (simp del: of_nat_add)
qed

lemma dec_nat_nonempty: "dec_nat n \<noteq> []"
  by (subst dec_nat.simps) simp

lemma atoi_append: "atoi_digits (xs @ ys) n = (case atoi_digits xs n of Inl e \<Rightarrow> Inl e | Inr m \<Rightarrow> atoi_digits ys m)"
  by (induction xs arbitrary: n) (auto simp: Let_def)

lemma atoi_dec_nat: "n < 2 ^ 64 \<Longrightarrow> atoi_digits (dec_nat n) 0 = Inr n"
proof (induction n rule: dec_nat.induct)
  case (1 n)
  show ?case
  proof (cases "n < 10")
    case True
    with digit_byte [OF this] show ?thesis by (subst dec_nat.simps) (simp del: of_nat_add)
  next
    case False
    have "n mod 10 < 10" by simp
    from False 1 digit_byte [OF this] show ?thesis by (subst dec_nat.simps) (auto simp: atoi_append Let_def simp del: of_nat_add)
  qed
qed

lemma dec_nat_head: "\<exists>c cs. dec_nat n = c # cs \<and> is_digit c"
  using dec_nat_digits [of n] dec_nat_nonempty [of n] by (cases "dec_nat n") auto

lemma Atoi_dec_int: "Atoi (dec_int (sint i)) = Inr i"
proof (cases "sint i < 0")
  case True
  have "nat (- sint i) \<le> 2 ^ 63" using sint_ge [of i] by simp
  moreover have "- word_of_nat (nat (- sint i)) = i" using True by simp
  ultimately show ?thesis
    using True dec_nat_nonempty atoi_dec_nat [of "nat (- sint i)"] by (auto simp: Atoi_def dec_int_def)
next
  case False
  have "nat (sint i) < 2 ^ 63" using sint_less [of i] False by simp
  moreover obtain c cs where "dec_nat (nat (sint i)) = c # cs" "is_digit c" using dec_nat_head by blast
  moreover have "c \<noteq> 43" "c \<noteq> 45" using \<open>is_digit c\<close> by (auto simp: is_digit_def)
  moreover have "word_of_nat (nat (sint i)) = i" using False by simp
  ultimately show ?thesis
    using False atoi_dec_nat [of "nat (sint i)"] by (auto simp: Atoi_def dec_int_def)
qed

lemma word_type_number: "Atoi w = Inr i \<Longrightarrow> word_type w = Number"
  by (auto simp: word_type_def Let_def split: sum.splits)

lemma digit_bytes: "is_digit c \<Longrightarrow> word_byte c" "is_digit c \<Longrightarrow> number_byte c"
  by (simp_all add: word_byte_def number_byte_def)

lemma lex_integer: "lex_loop (dec_int (sint i) @ 32 # rest) out = lex_loop rest (out @ [integer i])"
proof (cases "sint i < 0")
  case True
  let ?ds = "dec_nat (nat (- sint i))"
  obtain c cs where c: "?ds = c # cs" "is_digit c" using dec_nat_head by blast
  have all: "\<forall>x \<in> set ?ds. number_byte x" using dec_nat_digits digit_bytes by (auto simp: list_all_iff)
  have "takeWhile number_byte (?ds @ 32 # rest) = ?ds" "dropWhile number_byte (?ds @ 32 # rest) = 32 # rest"
    using all not_word_space by (auto simp: takeWhile_append dropWhile_append)
  then have "lex_one out 45 (?ds @ 32 # rest) = Inr (Some (integer i), 32 # rest)"
    using c digit_bytes True by (simp add: lex_one_def integer_def dec_int_def is_space_def)
  from lex_token [OF this] True show ?thesis by (simp add: dec_int_def)
next
  case False
  obtain c cs where c: "dec_int (sint i) = c # cs" "list_all word_byte (c # cs)"
    using dec_nat_head [of "nat (sint i)"] dec_nat_digits [of "nat (sint i)"] digit_bytes False
    by (auto simp: dec_int_def list_all_iff)
  have "Tok (word_type (c # cs)) (c # cs) = integer i"
    using word_type_number [OF Atoi_dec_int, of i] c(1) by (simp add: integer_def)
  with lex_word [OF c(2), of rest out] c(1) show ?thesis by simp
qed

section \<open>The lexer reads printed tokens\<close>

lemma lex_lexable:
  assumes "lexable t"
  shows "lex_loop (print_token t @ 32 # rest) out = lex_loop rest (out @ [t])"
proof -
  consider "Type t = String" | i where "t = integer i" "Type t \<noteq> String" | c cs where "t = Tok (word_type (c # cs)) (c # cs)"
    "list_all word_byte (c # cs)" "Type t \<noteq> String" | "t \<in> set punctuation"
    using assms unfolding lexable_def by (metis list.exhaust)
  then show ?thesis
  proof cases
    case 1
    have "lex_one out 39 (escape (Lexeme t) @ 39 # 32 # rest) = Inr (Some t, 32 # rest)"
      using 1 lex_escape [of "Lexeme t" "32 # rest" "[]"] by (simp add: lex_one_def is_space_def)
    from lex_token [OF this] 1 show ?thesis by (simp add: print_token_def)
  next
    case 2
    with lex_integer [of i rest out] show ?thesis by (simp add: print_token_def integer_def)
  next
    case 3
    with lex_word [OF 3(2), of rest out] show ?thesis by (simp add: print_token_def)
  next
    case 4
    then show ?thesis
      by (auto simp: punctuation_def print_token_def str_def lex_one_def is_space_def number_byte_def is_digit_def)
  qed
qed

lemma Lex_print: "list_all lexable ts \<Longrightarrow> Lex (print_tokens ts) = Inr (ts @ [Tok EOF []])"
proof -
  have "list_all lexable ts \<Longrightarrow> lex_loop (print_tokens ts) out = Inr (out @ ts @ [Tok EOF []])" for out
    by (induction ts arbitrary: out) (simp_all add: print_tokens_def lex_lexable)
  from this [of "[]"] show "list_all lexable ts \<Longrightarrow> ?thesis" by (simp add: Lex_def)
qed

section \<open>Statements as tokens\<close>

abbreviation "comma \<equiv> Tok Comma (str '','')"
abbreviation "lparen \<equiv> Tok LParen (str ''('')"
abbreviation "rparen \<equiv> Tok RParen (str '')'')"
abbreviation "equals \<equiv> Tok Equal (str ''='')"

fun comma_tokens :: "('a \<Rightarrow> Token list) \<Rightarrow> 'a list \<Rightarrow> Token list" where
  "comma_tokens f [] = []"
| "comma_tokens f [x] = f x"
| "comma_tokens f (x # xs) = f x @ comma # comma_tokens f xs"

definition printable_value :: "val \<Rightarrow> bool" where
  "printable_value v = (case v of GoInt i \<Rightarrow> True | GoString s \<Rightarrow> True | GoBool b \<Rightarrow> True | GoNil \<Rightarrow> True | _ \<Rightarrow> False)"

definition value_tokens :: "val \<Rightarrow> Token list" where
  "value_tokens v =
     (case v of
        GoInt i \<Rightarrow> [integer i]
      | GoString s \<Rightarrow> [quoted s]
      | GoBool b \<Rightarrow> [word (if b then ''TRUE'' else ''FALSE'')]
      | _ \<Rightarrow> [word ''NULL''])"

definition operator_tokens :: "Token list" where
  "operator_tokens = filter (\<lambda>t. comparison (Type t)) punctuation"

text \<open>
  The conditions that the parser builds: tests of a column, and AND and OR of two conditions.
\<close>

fun printable_cond :: "Condition \<Rightarrow> bool" where
  "printable_cond (Condition col op v (Some l) (Some r) logic) \<longleftrightarrow>
     col = [] \<and> op = [] \<and> v = GoNil \<and> (logic = str ''AND'' \<or> logic = str ''OR'') \<and> printable_cond l \<and> printable_cond r"
| "printable_cond (Condition col op v None None logic) \<longleftrightarrow>
     logic = [] \<and> (if op = str ''IS NULL'' \<or> op = str ''IS NOT NULL'' then v = GoNil
                     else op \<in> Lexeme ` set operator_tokens \<and> printable_value v)"
| "printable_cond c \<longleftrightarrow> False"

fun cond_tokens :: "Condition \<Rightarrow> Token list" where
  "cond_tokens (Condition col op v (Some l) (Some r) logic) =
     lparen # cond_tokens l @ [word (if logic = str ''AND'' then ''AND'' else ''OR'')] @ cond_tokens r @ [rparen]"
| "cond_tokens (Condition col op v l r logic) =
     quoted col #
       (if op = str ''IS NULL'' then [word ''IS'', word ''NULL'']
        else if op = str ''IS NOT NULL'' then [word ''IS'', word ''NOT'', word ''NULL'']
        else (case find (\<lambda>t. Lexeme t = op) operator_tokens of None \<Rightarrow> [] | Some t \<Rightarrow> t # value_tokens v))"

definition where_tokens :: "Condition option \<Rightarrow> Token list" where
  "where_tokens w = (case w of None \<Rightarrow> [] | Some c \<Rightarrow> word ''WHERE'' # cond_tokens c)"

section \<open>The parser reads printed conditions\<close>

lemma word_type_range: "word_type w \<in> {Keyword, Identifier, Number, Boolean, Null}"
  by (simp add: word_type_def Let_def split: sum.splits)

lemma word_type_not [simp]:
  "word_type w \<noteq> EOF" "word_type w \<noteq> String" "word_type w \<noteq> Parameter" "word_type w \<noteq> Comma" "word_type w \<noteq> LParen"
  "word_type w \<noteq> RParen" "word_type w \<noteq> Semicolon" "\<not> comparison (word_type w)"
  using word_type_range [of w] by (auto simp: comparison_def)

lemma words_not_numbers:
  "word_type (str ''TRUE'') = Boolean" "word_type (str ''FALSE'') = Boolean" "word_type (str ''NULL'') = Null"
  by (simp_all add: word_type_def str_def Atoi_def ParseFloat_def float_special_def split_sign_def float_read_def
      ToUpper_ascii upper_byte_def lower_byte_def is_digit_def Let_def keyword_list_def)

named_theorems reads

lemma pseq_Inr [reads]: "pseq (Inr (a, ts)) f = f a ts"
  by (simp add: pseq_def)

lemma take_Cons [reads]: "take_token (t # ts) = ts"
  by (simp add: take_token_def)

lemma cur_Cons [reads]: "cur (t # ts) = t"
  by (simp add: cur_def)

lemma name_Cons [reads]: "name (t # ts) = Inr (Lexeme t, ts)"
  by (simp add: name_def reads)

lemma want_Cons [reads]: "EqualFold (Lexeme t) (str w) \<Longrightarrow> want w (t # ts) = Inr ((), ts)"
  by (simp add: want_def is_word_def reads)

lemma is_word_Cons [reads]: "is_word w (t # ts) = EqualFold (Lexeme t) (str w)"
  by (simp add: is_word_def reads)

lemma is_word_Nil [reads]: "is_word (c # cs) [] = False"
  by (simp add: is_word_def cur_def str_def)

lemmas folds [reads] = EqualFold_ascii lower_byte_def str_def

lemma word_sel [reads]: "Lexeme (word w) = str w" "Type (word w) = word_type (str w)"
  by (simp_all add: word_def)

lemma quoted_sel [reads]: "Lexeme (quoted s) = s" "Type (quoted s) = String"
  by (simp_all add: quoted_def)

lemma no_point: "46 \<notin> set (dec_int i)"
  using dec_nat_digits [of "nat i"] dec_nat_digits [of "nat (- i)"] by (auto simp: dec_int_def list_all_iff is_digit_def)

lemma read_value: "printable_value v \<Longrightarrow> value_token (value_tokens v @ rest) = Inr (v, rest)"
  by (cases v) (auto simp: printable_value_def value_tokens_def value_token_def reads sql_value_def integer_def
      words_not_numbers [unfolded str_def, simplified] Atoi_dec_int no_point)

lemma find_SomeD: "find P xs = Some t \<Longrightarrow> P t \<and> t \<in> set xs"
  by (auto simp: find_Some_iff)

lemma operator_found:
  assumes "op \<in> Lexeme ` set operator_tokens"
  obtains t where "find (\<lambda>t. Lexeme t = op) operator_tokens = Some t" "Lexeme t = op" "t \<in> set punctuation"
    "comparison (Type t)" "\<not> EqualFold op (str ''IS'')"
proof -
  have "\<not> EqualFold op (str ''IS'')" using assms by (auto simp: operator_tokens_def punctuation_def comparison_def folds)
  moreover obtain t where "find (\<lambda>t. Lexeme t = op) operator_tokens = Some t"
    using assms by (cases "find (\<lambda>t. Lexeme t = op) operator_tokens") (auto simp: find_None_iff)
  moreover from find_SomeD [OF this] have "Lexeme t = op" "t \<in> set punctuation" "comparison (Type t)"
    by (auto simp: operator_tokens_def)
  ultimately show ?thesis using that by blast
qed

lemma read_test:
  assumes "printable_cond (Condition col op v None None logic)"
  shows "parse_test (cond_tokens (Condition col op v None None logic) @ rest) = Inr (Condition col op v None None logic, rest)"
proof (cases "op = str ''IS NULL'' \<or> op = str ''IS NOT NULL''")
  case True
  then show ?thesis using assms by (auto simp: parse_test_def reads Let_def)
next
  case False
  with assms have "op \<in> Lexeme ` set operator_tokens" "printable_value v" "logic = []" by simp_all
  with operator_found obtain t where "find (\<lambda>t. Lexeme t = op) operator_tokens = Some t" "Lexeme t = op"
    "comparison (Type t)" "\<not> EqualFold op (str ''IS'')" by blast
  with False \<open>printable_value v\<close> \<open>logic = []\<close> show ?thesis by (simp add: parse_test_def reads(1-6) quoted_sel read_value)
qed

lemma cond_tokens_length: "printable_cond c \<Longrightarrow> 0 < length (cond_tokens c)"
  by (induction c rule: printable_cond.induct) auto

lemma words_differ:
  "\<not> EqualFold (str ''OR'') (str ''AND'')" "\<not> EqualFold (str '')'') (str ''AND'')" "\<not> EqualFold (str '')'') (str ''OR'')"
  by (simp_all add: folds)

text \<open>A printed condition is read back by the innermost parser, whatever follows it.\<close>

lemma read_primary:
  "printable_cond c \<Longrightarrow> 4 * length (cond_tokens c) < n \<Longrightarrow> parsePrimary n (cond_tokens c @ rest) = Inr (c, rest)"
proof (induction c arbitrary: n rest rule: printable_cond.induct)
  case (1 col op v l r logic)
  define k where "k = n - 5"
  have n: "n = Suc (Suc (Suc (Suc (Suc k))))" using "1.prems"(2) by (simp add: k_def)
  have l: "parsePrimary (Suc (Suc k)) (cond_tokens l @ us) = Inr (l, us)" for us
    using "1.prems" n by (intro "1.IH"(1)) auto
  have r: "parsePrimary (Suc k) (cond_tokens r @ us) = Inr (r, us)" for us
    using "1.prems" n by (intro "1.IH"(2)) auto
  have c: "col = []" "op = []" "v = GoNil" "logic = str ''AND'' \<or> logic = str ''OR''" using "1.prems"(1) by simp_all
  have paren: "parsePrimary (Suc m) (lparen # us) = pseq (parseOr m us) (\<lambda>c ts. pseq (want '')'' ts) (\<lambda>u ts. Inr (c, ts)))" for m us
    by (simp add: reads(1-6))
  show ?case
    unfolding n using c(4)
    by (auto simp: paren reads(1-6) word_sel l r words_differ both_def c(1-3) simp del: parsePrimary.simps)
next
  case (2 col op v logic)
  then obtain k where "n = Suc k" by (cases n) auto
  with read_test [OF 2(1), of rest] show ?case by (simp add: reads(1-6) quoted_sel)
qed auto

lemma read_where:
  assumes "\<And>c. w = Some c \<Longrightarrow> printable_cond c" and "\<not> is_word ''WHERE'' rest" "\<not> is_word ''AND'' rest" "\<not> is_word ''OR'' rest"
  shows "condition (where_tokens w @ rest) = Inr (w, rest)"
proof (cases w)
  case (Some c)
  let ?ts = "cond_tokens c @ rest"
  define k where "k = condition_bound (word ''WHERE'' # ?ts) - 3"
  have k: "condition_bound (word ''WHERE'' # ?ts) = Suc (Suc (Suc k))" "4 * length (cond_tokens c) < Suc k"
    by (simp_all add: k_def condition_bound_def)
  have "parseOr (condition_bound (word ''WHERE'' # ?ts)) ?ts = Inr (c, rest)"
    unfolding k(1) using read_primary [OF assms(1) [OF Some] k(2), of rest] assms(3,4)
    by (simp add: reads(1-6) del: parsePrimary.simps)
  then show ?thesis by (simp add: Some where_tokens_def condition_def reads(1-6) word_sel)
qed (use assms in \<open>simp add: where_tokens_def condition_def\<close>)

end
