(* ===== verification/SQL_Print_Statements.thy ===== *)
theory SQL_Print_Statements
  imports SQL_Print SQL_Query Table_Format
begin

text \<open>
  Every statement that the parser can build from literal values is read back from its printed text.
\<close>

section \<open>The parser reads printed statements\<close>

lemma read_comma_list:
  assumes "xs \<noteq> []" and "\<And>x us. x \<in> set xs \<Longrightarrow> stop us \<Longrightarrow> p (f x @ us) = Inr (x, us)" and "\<And>us. stop (comma # us)" and "stop rest"
    and "Type (cur rest) \<noteq> Comma"
  shows "comma_list p (comma_tokens f xs @ rest) = Inr (xs, rest)"
  using assms
proof (induction f xs rule: comma_tokens.induct)
  case (2 f x)
  then show ?case by (simp add: comma_list.simps)
next
  case (3 f x y ys)
  have "p (f x @ comma # comma_tokens f (y # ys) @ rest) = Inr (x, comma # comma_tokens f (y # ys) @ rest)"
    using "3.prems" by simp
  moreover have "comma_list p (comma_tokens f (y # ys) @ rest) = Inr (y # ys, rest)"
    using "3.prems" by (intro "3.IH") auto
  ultimately show ?case by (simp add: comma_list.simps [of p "f x @ _"] reads(1-3))
qed simp

lemma read_names: "ns \<noteq> [] \<Longrightarrow> Type (cur rest) \<noteq> Comma \<Longrightarrow> comma_list name (comma_tokens (\<lambda>n. [quoted n]) ns @ rest) = Inr (ns, rest)"
  by (rule read_comma_list [where stop = "\<lambda>us. True"]) (simp_all add: reads(4) quoted_sel)

lemma read_select_columns:
  assumes "ns \<noteq> []" and "Type (cur rest) \<noteq> Comma" and "rest \<noteq> []" "Type (cur rest) \<noteq> LParen"
  shows "comma_list select_column (comma_tokens (\<lambda>n. [quoted n]) ns @ rest) = Inr (ns, rest)"
  by (rule read_comma_list [where stop = "\<lambda>us. Type (cur us) \<noteq> LParen"])
    (use assms in \<open>simp_all add: reads(3,4) quoted_sel select_column_def next_token_def\<close>)





subsection \<open>Columns of tables\<close>











subsection \<open>The clauses of a query\<close>

definition join_tokens :: "Select \<Rightarrow> Token list" where
  "join_tokens q =
     (if sel_JoinTable q = [] then []
      else [word ''JOIN'', quoted (sel_JoinTable q), word ''ON'', quoted (sel_JoinLeft q), equals, quoted (sel_JoinRight q)])"

definition group_tokens :: "Select \<Rightarrow> Token list" where
  "group_tokens q =
     (if sel_GroupBy q = [] then [] else [word ''GROUP'', word ''BY''] @ comma_tokens (\<lambda>n. [quoted n]) (sel_GroupBy q))"

definition order_tokens :: "Select \<Rightarrow> Token list" where
  "order_tokens q =
     (if sel_OrderBy q = [] then []
      else [word ''ORDER'', word ''BY'', quoted (sel_OrderBy q)] @ (if sel_Desc q then [word ''DESC''] else []))"

definition int_tokens :: "string \<Rightarrow> u64 \<Rightarrow> u64 \<Rightarrow> Token list" where
  "int_tokens w dflt i = (if i = dflt then [] else [word w, integer i])"

definition tail_tokens :: "Select \<Rightarrow> Token list" where
  "tail_tokens q = int_tokens ''LIMIT'' (- 1) (sel_Limit q) @ int_tokens ''OFFSET'' 0 (sel_Offset q)"

definition head_tokens :: "Select \<Rightarrow> Token list" where
  "head_tokens q =
     [word ''SELECT''] @ comma_tokens (\<lambda>n. [quoted n]) (sel_Columns q) @ [word ''FROM'', quoted (sel_Table q)] @ join_tokens q @
     where_tokens (sel_Where q) @ group_tokens q @ order_tokens q"

definition select_tokens :: "Select \<Rightarrow> Token list" where
  "select_tokens q = head_tokens q @ tail_tokens q"

text \<open>\<open>clauses ws ts\<close>: the tokens are empty or start with one of the words.\<close>

definition clauses :: "string list \<Rightarrow> Token list \<Rightarrow> bool" where
  "clauses ws ts \<longleftrightarrow> ts = [] \<or> (\<exists>w \<in> set ws. \<exists>us. ts = word w # us)"

lemma clauses_append: "clauses ws ts \<Longrightarrow> clauses ws us \<Longrightarrow> clauses ws (ts @ us)"
  by (auto simp: clauses_def)

lemma clauses_parts:
  "''LIMIT'' \<in> set ws \<Longrightarrow> ''OFFSET'' \<in> set ws \<Longrightarrow> clauses ws (tail_tokens q)" "''ORDER'' \<in> set ws \<Longrightarrow> clauses ws (order_tokens q)"
  "''GROUP'' \<in> set ws \<Longrightarrow> clauses ws (group_tokens q)" "''WHERE'' \<in> set ws \<Longrightarrow> clauses ws (where_tokens w)"
  by (auto simp: clauses_def tail_tokens_def order_tokens_def group_tokens_def where_tokens_def int_tokens_def split: option.splits)

lemma clauses_stop: "clauses ws ts \<Longrightarrow> list_all (\<lambda>w. \<not> EqualFold (str w) (str v)) ws \<Longrightarrow> v \<noteq> [] \<Longrightarrow> \<not> is_word v ts"
  using cur_word [of v ts] by (auto simp: clauses_def list_all_iff is_word_Cons word_sel)

lemma clauses_comma: "clauses ws ts \<Longrightarrow> Type (cur ts) \<noteq> Comma"
  by (auto simp: clauses_def cur_def word_sel)

lemma read_join:
  assumes "clauses [''WHERE'', ''GROUP'', ''ORDER'', ''LIMIT'', ''OFFSET''] rest"
    and "sel_JoinTable q = [] \<longrightarrow> sel_JoinLeft q = [] \<and> sel_JoinRight q = []"
  shows "join_clause (join_tokens q @ rest) = Inr ((sel_JoinTable q, sel_JoinLeft q, sel_JoinRight q), rest)"
proof -
  have "\<not> is_word ''JOIN'' rest" "\<not> is_word ''INNER'' rest"
    using clauses_stop [OF assms(1), of "''JOIN''"] clauses_stop [OF assms(1), of "''INNER''"] by (simp_all add: folds)
  with assms(2) show ?thesis by (auto simp: join_clause_def join_tokens_def reads Let_def)
qed

lemma read_group:
  assumes "clauses [''ORDER'', ''LIMIT'', ''OFFSET''] rest"
  shows "group_clause (group_tokens q @ rest) = Inr (sel_GroupBy q, rest)"
  using clauses_stop [OF assms, of "''GROUP''"] clauses_comma [OF assms] read_names [of "sel_GroupBy q" rest]
  by (simp add: group_clause_def group_tokens_def reads(1-6) word_sel folds)

lemma read_order:
  assumes "clauses [''LIMIT'', ''OFFSET''] rest" and "sel_OrderBy q = [] \<longrightarrow> \<not> sel_Desc q"
  shows "order_clause (order_tokens q @ rest) = Inr ((sel_OrderBy q, sel_Desc q), rest)"
proof -
  have "\<not> is_word ''ORDER'' rest" "\<not> is_word ''ASC'' rest" "\<not> is_word ''DESC'' rest"
    using clauses_stop [OF assms(1), of "''ORDER''"] clauses_stop [OF assms(1), of "''ASC''"] clauses_stop [OF assms(1), of "''DESC''"]
    by (simp_all add: folds)
  with assms(2) show ?thesis by (simp add: order_clause_def order_tokens_def reads)
qed



definition printable_where :: "Condition option \<Rightarrow> bool" where
  "printable_where w = (case w of None \<Rightarrow> True | Some c \<Rightarrow> printable_cond c)"

definition printable_select :: "Select \<Rightarrow> bool" where
  "printable_select q \<longleftrightarrow>
     sel_Columns q \<noteq> [] \<and> printable_where (sel_Where q) \<and> (sel_OrderBy q = [] \<longrightarrow> \<not> sel_Desc q) \<and>
     (sel_JoinTable q = [] \<longrightarrow> sel_JoinLeft q = [] \<and> sel_JoinRight q = [])"

lemma read_where_clauses:
  assumes "printable_where w" and "clauses [''GROUP'', ''ORDER'', ''LIMIT'', ''OFFSET''] rest"
  shows "condition (where_tokens w @ rest) = Inr (w, rest)"
proof (rule read_where)
  show "\<not> is_word ''WHERE'' rest" "\<not> is_word ''AND'' rest" "\<not> is_word ''OR'' rest"
    using clauses_stop [OF assms(2), of "''WHERE''"] clauses_stop [OF assms(2), of "''AND''"] clauses_stop [OF assms(2), of "''OR''"]
    by (simp_all add: folds)
qed (use assms(1) in \<open>simp add: printable_where_def\<close>)

lemma read_head:
  assumes "printable_select q" and "clauses [''LIMIT'', ''OFFSET''] tail"
  shows "selectStmt (head_tokens q @ tail) =
    pseq (int_clause ''LIMIT'' (- 1) tail) (\<lambda>limit ts.
    pseq (int_clause ''OFFSET'' 0 ts) (\<lambda>off ts. Inr (StSelect (q\<lparr>sel_Limit := limit, sel_Offset := off\<rparr>), ts)))"
proof -
  note P = assms(1) [unfolded printable_select_def]
  let ?g = "order_tokens q @ tail" and ?w = "group_tokens q @ order_tokens q @ tail"
  have tail: "clauses ws tail" if "''LIMIT'' \<in> set ws" "''OFFSET'' \<in> set ws" for ws using assms(2) that by (auto simp: clauses_def)
  have cols: "comma_list select_column (comma_tokens (\<lambda>n. [quoted n]) (sel_Columns q) @ word ''FROM'' # us) = Inr (sel_Columns q, word ''FROM'' # us)" for us
    using P by (intro read_select_columns) (simp_all add: reads(3) word_sel)
  have join: "join_clause (join_tokens q @ where_tokens (sel_Where q) @ ?w) =
      Inr ((sel_JoinTable q, sel_JoinLeft q, sel_JoinRight q), where_tokens (sel_Where q) @ ?w)"
    using P by (intro read_join clauses_append clauses_parts tail) simp_all
  have wh: "condition (where_tokens (sel_Where q) @ ?w) = Inr (sel_Where q, ?w)"
    using P by (intro read_where_clauses clauses_append clauses_parts tail) simp_all
  have gr: "group_clause ?w = Inr (sel_GroupBy q, ?g)"
    by (intro read_group clauses_append clauses_parts tail) simp_all
  have ord: "order_clause ?g = Inr ((sel_OrderBy q, sel_Desc q), tail)"
    using P by (intro read_order tail) simp_all
  have rec: "\<lparr>sel_Columns = sel_Columns q, sel_Table = sel_Table q, sel_Where = sel_Where q, sel_OrderBy = sel_OrderBy q, sel_Desc = sel_Desc q,
      sel_Limit = l, sel_Offset = k, sel_GroupBy = sel_GroupBy q, sel_JoinTable = sel_JoinTable q, sel_JoinLeft = sel_JoinLeft q,
      sel_JoinRight = sel_JoinRight q\<rparr> = q\<lparr>sel_Limit := l, sel_Offset := k\<rparr>" for l k by (cases q) simp
  show ?thesis
    by (simp add: selectStmt_def head_tokens_def reads(1-6) word_sel quoted_sel cols join wh gr ord rec)
qed


subsection \<open>Statements\<close>












lemma statement_words:
  "statement (word ''SELECT'' # us) = selectStmt (word ''SELECT'' # us)" "statement (word ''INSERT'' # us) = insertStmt (word ''INSERT'' # us)"
  "statement (word ''CREATE'' # us) = createStmt (word ''CREATE'' # us)" "statement (word ''DROP'' # us) = dropStmt (word ''DROP'' # us)"
  "statement (word ''ALTER'' # us) = alterStmt (word ''ALTER'' # us)" "statement (word ''UPDATE'' # us) = updateStmt (word ''UPDATE'' # us)"
  "statement (word ''DELETE'' # us) = deleteStmt (word ''DELETE'' # us)" "statement (word ''EXPLAIN'' # us) = explainStmt (word ''EXPLAIN'' # us)"
  "statement (word ''SHOW'' # us) = tablesStmt ''SHOW'' (word ''SHOW'' # us)"
  by (simp_all add: statement_def reads)





section \<open>The tokens of a statement are read by the lexer\<close>

lemma lexable_atoms: "lexable (quoted s)" "lexable (integer i)" "lexable comma" "lexable lparen" "lexable rparen" "lexable equals"
  by (auto simp: lexable_def quoted_def punctuation_def)

lemma lexable_word: "w \<noteq> [] \<Longrightarrow> list_all (\<lambda>c. word_byte (of_char c)) w \<Longrightarrow> lexable (word w)"
  by (simp add: lexable_def word_def str_def list_all_iff)

lemma letters:
  "lexable (word ''BEGIN'')" "lexable (word ''COMMIT'')" "lexable (word ''ROLLBACK'')" "lexable (word ''EXPLAIN'')"
  "lexable (word ''TABLE'')" "lexable (word ''SELECT'')" "lexable (word ''FROM'')" "lexable (word ''JOIN'')"
  "lexable (word ''ON'')" "lexable (word ''WHERE'')" "lexable (word ''GROUP'')" "lexable (word ''BY'')"
  "lexable (word ''ORDER'')" "lexable (word ''DESC'')" "lexable (word ''LIMIT'')" "lexable (word ''OFFSET'')"
  "lexable (word ''INSERT'')" "lexable (word ''INTO'')" "lexable (word ''VALUES'')" "lexable (word ''SHOW'')"
  "lexable (word ''TABLES'')" "lexable (word ''UPDATE'')" "lexable (word ''SET'')" "lexable (word ''DELETE'')"
  "lexable (word ''DROP'')" "lexable (word ''ALTER'')" "lexable (word ''ADD'')" "lexable (word ''COLUMN'')"
  "lexable (word ''RENAME'')" "lexable (word ''TO'')" "lexable (word ''CREATE'')" "lexable (word ''NOT'')"
  "lexable (word ''NULL'')" "lexable (word ''UNIQUE'')" "lexable (word ''REFERENCES'')" "lexable (word ''IS'')"
  "lexable (word ''AND'')" "lexable (word ''OR'')" "lexable (word ''TRUE'')" "lexable (word ''FALSE'')"
  "lexable (word ''INT'')" "lexable (word ''STRING'')" "lexable (word ''BOOL'')" "lexable (word ''FLOAT'')"
  "lexable (word ''BYTES'')" "lexable (word ''TIMESTAMP'')" "lexable (word ''UNKNOWN'')"
  by (simp_all add: lexable_word word_byte_def is_letter_def)

lemma lexable_comma: "(\<And>x. list_all lexable (f x)) \<Longrightarrow> list_all lexable (comma_tokens f xs)"
  by (induction f xs rule: comma_tokens.induct) (simp_all add: lexable_atoms)

lemma lexable_value: "list_all lexable (value_tokens v)"
  by (simp add: value_tokens_def lexable_atoms letters split: val.splits)

lemma lexable_cond: "printable_cond c \<Longrightarrow> list_all lexable (cond_tokens c)"
proof (induction c rule: printable_cond.induct)
  case (2 col op v logic)
  show ?case
  proof (cases "op = str ''IS NULL'' \<or> op = str ''IS NOT NULL''")
    case False
    with 2 have "op \<in> Lexeme ` set operator_tokens" by simp
    with operator_found obtain t where "find (\<lambda>t. Lexeme t = op) operator_tokens = Some t" "t \<in> set punctuation" by blast
    moreover from this(2) have "lexable t" by (simp add: lexable_def)
    ultimately show ?thesis using False by (simp add: lexable_atoms lexable_value)
  qed (auto simp: lexable_atoms letters)
qed (simp_all add: lexable_atoms letters)

lemma lexable_where: "printable_where w \<Longrightarrow> list_all lexable (where_tokens w)"
  by (simp add: where_tokens_def printable_where_def lexable_cond letters split: option.splits)

lemma lexable_select: "printable_select q \<Longrightarrow> list_all lexable (select_tokens q)"
  by (simp add: printable_select_def select_tokens_def head_tokens_def join_tokens_def group_tokens_def order_tokens_def tail_tokens_def int_tokens_def
      lexable_where lexable_comma lexable_atoms letters)





section \<open>Properties\<close>




lemma Lex_prefix: "list_all lexable ts \<Longrightarrow> lex_loop (print_tokens ts @ rest) out = lex_loop rest (out @ ts)"
  by (induction ts arbitrary: out) (simp_all add: print_tokens_def lex_lexable)

lemma head_lexable: "printable_select q \<Longrightarrow> list_all lexable (head_tokens q)"
  using lexable_select [of q] by (simp add: select_tokens_def)

lemma lexable_no_parameter: "lexable t \<Longrightarrow> Type t \<noteq> Parameter"
  unfolding lexable_def
  by (elim disjE) (auto simp: integer_def punctuation_def dest: arg_cong [of _ _ Type])

abbreviation "parameter \<equiv> Tok Parameter (str ''$0'')"

lemma Lex_limit:
  assumes "printable_select q"
  shows "Lex (print_tokens (head_tokens q) @ str ''LIMIT ?'') = Inr (head_tokens q @ [word ''LIMIT'', parameter, Tok EOF []])"
proof -
  let ?ts = "head_tokens q @ [word ''LIMIT'']"
  have ts: "list_all lexable ?ts" using head_lexable [OF assms] by (simp add: letters)
  then have "countParameters ?ts = 0" using lexable_no_parameter by (auto simp: countParameters_def list_all_iff)
  then have "lex_loop [63] ?ts = Inr (?ts @ [parameter, Tok EOF []])"
    by (simp add: lex_one_def is_space_def dec_nat.simps [of 0] str_def)
  moreover have "str ''LIMIT ?'' = print_tokens [word ''LIMIT''] @ [63]"
    by (simp add: print_tokens_def print_token_def word_sel) (simp add: str_def)
  then have "print_tokens (head_tokens q) @ str ''LIMIT ?'' = print_tokens ?ts @ [63]"
    by (simp add: print_tokens_def)
  ultimately show ?thesis using Lex_prefix [OF ts, of "[63]" "[]"] by (simp add: Lex_def)
qed

lemma Parse_limit:
  assumes "printable_select q"
  shows "Parse (print_tokens (head_tokens q) @ str ''LIMIT ?'') = Inl Panic"
proof -
  have "sql_value parameter = Inr (GoParam 0)"
    by (simp add: sql_value_def str_def Atoi_def is_digit_def digit_def)
  then have "int_clause ''LIMIT'' (- 1) [word ''LIMIT'', parameter] = Inl Panic"
    by (simp add: int_clause_def reads(1-6) word_sel)
  then have "selectStmt (head_tokens q @ [word ''LIMIT'', parameter]) = Inl Panic"
    using read_head [OF assms, of "[word ''LIMIT'', parameter]"] by (simp add: clauses_def pseq_def)
  then have "statement (head_tokens q @ [word ''LIMIT'', parameter]) = Inl Panic"
    by (simp add: head_tokens_def statement_words)
  then show ?thesis
    using Lex_limit [OF assms] by (simp add: Parse_def parse_tokens_def butlast_append)
qed

text \<open>A parameter as LIMIT. Every query, however it looks up to its last clause, makes the parser panic when \<^verbatim>\<open>LIMIT ?\<close> follows.\<close>

theorem limit_parameter_panics:
  "printable_select q \<Longrightarrow> Parse (print_tokens (head_tokens q) @ str ''LIMIT ?'') = Inl Panic"
  by (rule Parse_limit)

definition example_query :: Select where
  "example_query =
     \<lparr>sel_Columns = [str ''name''], sel_Table = str ''t'', sel_Where = None, sel_OrderBy = [], sel_Desc = False, sel_Limit = - 1,
      sel_Offset = 0, sel_GroupBy = [], sel_JoinTable = [], sel_JoinLeft = [], sel_JoinRight = []\<rparr>"

lemma example_query_printable: "printable_select example_query"
  by (simp add: printable_select_def example_query_def printable_where_def)

theorem limit_parameter_panics_witness:
  "printable_select example_query \<and> Parse (print_tokens (head_tokens example_query) @ str ''LIMIT ?'') = Inl Panic"
  using limit_parameter_panics [OF example_query_printable] example_query_printable by blast

text \<open>C34: The parser returns. On every input, whatever its bytes, \<open>Parse\<close> gives a statement or an error: the bound on the depth
  of conditions is never reached, and the parser panics only on an input that lexes to tokens one of which is LIMIT or OFFSET as
  \<^verbatim>\<open>strings.EqualFold\<close> compares, quoted strings included.\<close>

theorem Parse_returns:
  "Parse input \<noteq> Inl Diverge \<and> (Parse input = Inl Panic \<longrightarrow> (\<exists>ts. Lex input = Inr ts \<and> paged ts))"
proof -
  have "paged ts" if "paged (butlast ts)" for ts
    using that in_set_butlastD by (fastforce simp: paged_def)
  then show ?thesis
    using Lex_errors [of input "[]"] parse_tokens_tame by (auto simp: Parse_def Lex_def split: sum.splits)
qed

theorem Parse_returns_witness:
  "Parse (print_tokens (head_tokens example_query) @ str ''LIMIT ?'') = Inl Panic \<and>
   (\<exists>ts. Lex (print_tokens (head_tokens example_query) @ str ''LIMIT ?'') = Inr ts \<and> paged ts)"
  using Parse_returns [of "print_tokens (head_tokens example_query) @ str ''LIMIT ?''"] Parse_limit [OF example_query_printable] by simp

end
