(* ===== verification/SHA256.thy ===== *)
theory SHA256
  imports Prelude
begin

text \<open>\<^verbatim>\<open>sha256.Sum256\<close>, with which the server stores and compares passwords.\<close>

unbundle bit_operations_syntax

text \<open>
  The constants of the standard are the first 32 bits of the fractional parts of the cube roots of the
  first 64 primes, and of the square roots of the first eight. \<open>root_floor k n\<close> is the whole part of the
  \<open>k\<close>-th root of \<open>n\<close>, found bit by bit; all roots taken here are below \<open>2 ^ 36\<close>.
\<close>

definition root_floor :: "nat \<Rightarrow> nat \<Rightarrow> nat" where
  "root_floor k n = fold (\<lambda>b r. if (r + 2 ^ b) ^ k \<le> n then r + 2 ^ b else r) (rev [0..<36]) 0"

definition root_bits :: "nat \<Rightarrow> nat \<Rightarrow> u32" where
  "root_bits k p = word_of_nat (root_floor k (p * 2 ^ (32 * k)))"

definition small_primes :: "nat list" where
  "small_primes = filter (\<lambda>p. list_all (\<lambda>d. p mod d \<noteq> 0) [2..<p]) [2..<312]"

definition sha_K :: "u32 list" where
  "sha_K = map (root_bits 3) small_primes"

type_synonym sha_state = "u32 \<times> u32 \<times> u32 \<times> u32 \<times> u32 \<times> u32 \<times> u32 \<times> u32"

definition sha_H :: sha_state where
  "sha_H =
     (root_bits 2 2, root_bits 2 3, root_bits 2 5, root_bits 2 7, root_bits 2 11, root_bits 2 13, root_bits 2 17, root_bits 2 19)"

definition be_word :: "bytes \<Rightarrow> u32" where
  "be_word bs = word_of_nat (le_nat (rev bs))"

fun chunks :: "nat \<Rightarrow> bytes \<Rightarrow> bytes list" where
  "chunks n bs = (if n = 0 \<or> bs = [] then [] else take n bs # chunks n (drop n bs))"

declare chunks.simps [simp del]

definition sha_pad :: "bytes \<Rightarrow> bytes" where
  "sha_pad bs =
     bs @ [0x80] @ replicate ((119 - length bs mod 64) mod 64) 0 @ rev (le_bytes 8 (8 * length bs mod 2 ^ 64))"

text \<open>The message schedule, the latest word first.\<close>

fun sha_extend :: "nat \<Rightarrow> u32 list \<Rightarrow> u32 list" where
  "sha_extend 0 ws = ws"
| "sha_extend (Suc n) ws =
     (let a = ws ! 1; b = ws ! 14;
          s1 = word_rotr 17 a XOR word_rotr 19 a XOR drop_bit 10 a;
          s0 = word_rotr 7 b XOR word_rotr 18 b XOR drop_bit 3 b
      in sha_extend n ((s1 + ws ! 6 + s0 + ws ! 15) # ws))"

definition sha_round :: "u32 \<times> u32 \<Rightarrow> sha_state \<Rightarrow> sha_state" where
  "sha_round kw st =
     (case (kw, st) of ((k, w), (a, b, c, d, e, f, g, h)) \<Rightarrow>
        let t1 = h + (word_rotr 6 e XOR word_rotr 11 e XOR word_rotr 25 e) + ((e AND f) XOR (NOT e AND g)) + k + w;
            t2 = (word_rotr 2 a XOR word_rotr 13 a XOR word_rotr 22 a) + ((a AND b) XOR (a AND c) XOR (b AND c))
        in (t1 + t2, a, b, c, d + t1, e, f, g))"

definition sha_block :: "bytes \<Rightarrow> sha_state \<Rightarrow> sha_state" where
  "sha_block bs st =
     (let ws = rev (sha_extend 48 (rev (map be_word (chunks 4 bs))))
      in case (fold sha_round (zip sha_K ws) st, st) of
           ((a, b, c, d, e, f, g, h), (a', b', c', d', e', f', g', h')) \<Rightarrow>
             (a + a', b + b', c + c', d + d', e + e', f + f', g + g', h + h'))"

definition Sum256 :: "bytes \<Rightarrow> bytes" where
  "Sum256 bs =
     (case fold sha_block (chunks 64 (sha_pad bs)) sha_H of
        (a, b, c, d, e, f, g, h) \<Rightarrow> concat (map (\<lambda>w. rev (le_bytes 4 (unat w))) [a, b, c, d, e, f, g, h]))"

end
