(* ===== verification/Server.thy ===== *)
theory Server
  imports SQL_Transactions SQL_Print_Statements SHA256
begin

text \<open>
  The server of \<^verbatim>\<open>server/server.go\<close>: connections that share the tables of one executor, each with its own
  transaction. A connection is served line by line; the mutex makes each request one step, and the
  requests of different connections interleave in any order. What \<^verbatim>\<open>encoding/json\<close> makes of a line is an
  argument: the user name and password of the first line, and the query of a line that starts with a
  brace. A request takes the mutex; one that panics or never returns keeps it. A panic ends the
  process, unless the connection is in a transaction: then the deferred rollback waits for the mutex,
  for ever, before the panic can end anything.
\<close>

section \<open>State\<close>

record json =
  unmarshal_auth :: "bytes \<Rightarrow> (bytes \<times> bytes) result"
  unmarshal_request :: "bytes \<Rightarrow> bytes result"

record Response =
  OK :: bool
  rsp_Columns :: "bytes list"
  rsp_Rows :: "row list"
  rsp_Affected :: nat
  rsp_Error :: "db_error option"

datatype sent = Sent Response | BlankLine

record Server =
  srv_Executor :: Executor
  srv_Username :: bytes
  passwordHash :: bytes
  mu :: bool

record connection =
  conn_tx :: "transaction option"
  conn_authed :: bool
  conn_open :: bool

section \<open>Operations\<close>

definition server_New :: "Executor \<Rightarrow> Server" where
  "server_New e = \<lparr>srv_Executor = e, srv_Username = [], passwordHash = replicate 32 0, mu = False\<rparr>"

definition NewWithAuth :: "Executor \<Rightarrow> bytes \<Rightarrow> bytes \<Rightarrow> Server result" where
  "NewWithAuth e username password =
     (if username = [] \<or> password = [] then Inl (ErrMsg ''authentication credentials are required'' [])
      else Inr ((server_New e)\<lparr>srv_Username := username, passwordHash := Sum256 password\<rparr>))"

definition accept :: "Server \<Rightarrow> connection" where
  "accept s = \<lparr>conn_tx = None, conn_authed = (srv_Username s = []), conn_open = True\<rparr>"

definition error_response :: "db_error \<Rightarrow> Response" where
  "error_response err = \<lparr>OK = False, rsp_Columns = [], rsp_Rows = [], rsp_Affected = 0, rsp_Error = Some err\<rparr>"

definition ok_response :: "Result \<Rightarrow> Response" where
  "ok_response r =
     \<lparr>OK = True, rsp_Columns = res_Columns r, rsp_Rows = res_Rows r, rsp_Affected = res_Affected r, rsp_Error = None\<rparr>"

text \<open>
  \<^verbatim>\<open>json.Marshal\<close> fails on a number that is not finite and on a time whose year has not four digits or whose
  zone is a day or more away. \<open>write\<close> ignores that error and sends an empty line in place of the response.
\<close>

definition marshals :: "val \<Rightarrow> bool" where
  "marshals v =
     (case v of
        GoFloat f \<Rightarrow> \<not> fp_isnan f \<and> \<not> fp_isinf f
      | GoTime t \<Rightarrow>
          (case civil ((t_ns t div 1000000000 + t_offset t) div 86400) of
             (y, m, d) \<Rightarrow> 0 \<le> y \<and> y < 10000 \<and> \<bar>t_offset t\<bar> < 86400)
      | _ \<Rightarrow> True)"

definition server_write :: "Response \<Rightarrow> sent" where
  "server_write r = (if list_all (list_all (\<lambda>(c, v). marshals v)) (rsp_Rows r) then Sent r else BlankLine)"

text \<open>
  The executor of a connection: the shared tables, no catalog, and the transaction of the connection.
  A request that finds the mutex locked for good never returns.
\<close>

definition conn_Execute :: "env \<Rightarrow> bytes \<Rightarrow> Server \<Rightarrow> connection \<Rightarrow> Server \<times> connection \<times> Result result" where
  "conn_Execute en query s c =
     (if mu s then (s, c, Inl Diverge)
      else (case Execute en query ((NewExecutor (srv_Executor s))\<lparr>tx := conn_tx c\<rparr>) of
              (e, r) \<Rightarrow>
                (s\<lparr>srv_Executor := e\<lparr>ex_Catalog := ex_Catalog (srv_Executor s), tx := tx (srv_Executor s)\<rparr>,
                   mu := (r = Inl Panic \<or> r = Inl Diverge)\<rparr>,
                 c\<lparr>conn_tx := tx e\<rparr>, r)))"

text \<open>The last component tells whether the process exits.\<close>

definition hang_up :: "env \<Rightarrow> Server \<Rightarrow> connection \<Rightarrow> Server \<times> connection \<times> bool" where
  "hang_up en s c =
     (if conn_tx c \<noteq> None
      then (case conn_Execute en (str ''ROLLBACK'') s c of (s', c', r) \<Rightarrow> (s', c'\<lparr>conn_open := False\<rparr>, r = Inl Panic))
      else (s, c\<lparr>conn_open := False\<rparr>, False))"

definition credentials :: "json \<Rightarrow> bytes \<Rightarrow> Server \<Rightarrow> bool" where
  "credentials js line s =
     (case unmarshal_auth js (TrimSpace line) of
        Inl err \<Rightarrow> False
      | Inr (user, password) \<Rightarrow> user = srv_Username s \<and> Sum256 password = passwordHash s)"

definition auth_failed :: Response where
  "auth_failed = error_response (ErrMsg ''authentication failed'' [])"

definition authenticate :: "json \<Rightarrow> bytes \<Rightarrow> Server \<Rightarrow> connection \<Rightarrow> connection \<times> sent" where
  "authenticate js line s c =
     (if credentials js line s then (c\<lparr>conn_authed := True\<rparr>, server_write (ok_response no_result))
      else (c\<lparr>conn_open := False\<rparr>, server_write auth_failed))"

definition line_query :: "json \<Rightarrow> bytes \<Rightarrow> bytes result" where
  "line_query js line = (if take 1 line = str ''{'' then unmarshal_request js line else Inr line)"

text \<open>The scanner gives up at a line that does not fit its buffer of one mebibyte.\<close>

definition max_line :: nat where
  "max_line = 2 ^ 20"

definition request :: "json \<Rightarrow> env \<Rightarrow> bytes \<Rightarrow> Server \<Rightarrow> connection \<Rightarrow> Server \<times> connection \<times> sent option \<times> bool" where
  "request js en line s c =
     (let line = TrimSpace line
      in if line = [] then (s, c, None, False)
         else (case line_query js line of
                 Inl err \<Rightarrow> (s, c, Some (server_write (error_response err)), False)
               | Inr query \<Rightarrow>
                   if TrimSpace query = [] then (s, c, Some (server_write (error_response (ErrMsg ''query is required'' []))), False)
                   else (case conn_Execute en query s c of
                           (s', c', Inl err) \<Rightarrow>
                             if err = Panic \<or> err = Diverge
                             then (s', c'\<lparr>conn_open := False\<rparr>, None, err = Panic \<and> conn_tx c' = None)
                             else (s', c', Some (server_write (error_response err)), False)
                         | (s', c', Inr r) \<Rightarrow> (s', c', Some (server_write (ok_response r)), False))))"

definition handle_line :: "json \<Rightarrow> env \<Rightarrow> bytes \<Rightarrow> Server \<Rightarrow> connection \<Rightarrow> Server \<times> connection \<times> sent option \<times> bool" where
  "handle_line js en line s c =
     (if length line \<ge> max_line then (case hang_up en s c of (s', c', exit) \<Rightarrow> (s', c', None, exit))
      else if \<not> conn_authed c then (case authenticate js line s c of (c', r) \<Rightarrow> (s, c', Some r, False))
      else request js en line s c)"

section \<open>Clients\<close>

datatype client_event = Accept | Line nat bytes | Hangup nat

record server_state =
  srv :: Server
  conns :: "connection list"
  exited :: bool

definition serve :: "json \<Rightarrow> env \<Rightarrow> client_event \<Rightarrow> server_state \<Rightarrow> server_state \<times> sent option" where
  "serve js en ev st =
     (if exited st then (st, None)
      else case ev of
        Accept \<Rightarrow> (st\<lparr>conns := conns st @ [accept (srv st)]\<rparr>, None)
      | Line i line \<Rightarrow>
          if i < length (conns st) \<and> conn_open (conns st ! i) then
            (case handle_line js en line (srv st) (conns st ! i) of
               (s, c, r, exit) \<Rightarrow> (st\<lparr>srv := s, conns := (conns st)[i := c], exited := exit\<rparr>, r))
          else (st, None)
      | Hangup i \<Rightarrow>
          if i < length (conns st) \<and> conn_open (conns st ! i) then
            (case hang_up en (srv st) (conns st ! i) of
               (s, c, exit) \<Rightarrow> (st\<lparr>srv := s, conns := (conns st)[i := c], exited := exit\<rparr>, None))
          else (st, None))"

fun serve_all :: "json \<Rightarrow> (env \<times> client_event) list \<Rightarrow> server_state \<Rightarrow> server_state \<times> sent option list" where
  "serve_all js [] st = (st, [])"
| "serve_all js ((en, ev) # evs) st =
     (case serve js en ev st of
        (st', r) \<Rightarrow> (case serve_all js evs st' of (st'', rs) \<Rightarrow> (st'', r # rs)))"

definition started :: "Server \<Rightarrow> server_state" where
  "started s = \<lparr>srv = s, conns = [], exited = False\<rparr>"

section \<open>Authentication\<close>

definition locked_out :: "Server \<Rightarrow> server_state \<Rightarrow> bool" where
  "locked_out s st \<longleftrightarrow> srv st = s \<and> \<not> exited st \<and> (\<forall>c \<in> set (conns st). \<not> conn_authed c \<and> conn_tx c = None)"

lemma locked_outD: "locked_out s st \<Longrightarrow> i < length (conns st) \<Longrightarrow> \<not> conn_authed (conns st ! i) \<and> conn_tx (conns st ! i) = None"
  by (simp add: locked_out_def)

lemma write_error [simp]: "server_write (error_response err) = Sent (error_response err)"
  by (simp add: server_write_def error_response_def)

lemma write_failed [simp]: "server_write auth_failed = Sent auth_failed"
  by (simp add: auth_failed_def)

lemma write_greeting [simp]: "server_write (ok_response no_result) = Sent (ok_response no_result)"
  by (simp add: server_write_def ok_response_def no_result_def)

lemma serve_locked_out:
  assumes "locked_out s st" and "srv_Username s \<noteq> []" and "\<And>i line. ev = Line i line \<Longrightarrow> \<not> credentials js line s"
  shows "locked_out s (fst (serve js en ev st))" and "snd (serve js en ev st) \<in> {None, Some (Sent auth_failed)}"
proof -
  have s: "srv st = s" "\<not> exited st" using assms(1) by (simp_all add: locked_out_def)
  have keep: "locked_out s (st\<lparr>srv := s, conns := (conns st)[i := c], exited := False\<rparr>)"
    if "\<not> conn_authed c" "conn_tx c = None" for i c
    using assms(1) that by (auto simp: locked_out_def dest: set_update_subset_insert [THEN subsetD])
  have "locked_out s (fst (serve js en ev st)) \<and> snd (serve js en ev st) \<in> {None, Some (Sent auth_failed)}"
  proof (cases ev)
    case Accept
    then show ?thesis using assms(1,2) s by (auto simp: serve_def locked_out_def accept_def)
  next
    case (Line i line)
    show ?thesis
    proof (cases "i < length (conns st)")
      case True
      from locked_outD [OF assms(1) True] keep show ?thesis
        using assms(1) assms(3) [OF Line] s by (simp add: Line serve_def handle_line_def hang_up_def authenticate_def)
    qed (use assms(1) in \<open>simp add: Line serve_def\<close>)
  next
    case (Hangup i)
    show ?thesis
    proof (cases "i < length (conns st)")
      case True
      from locked_outD [OF assms(1) True] keep show ?thesis using assms(1) s by (simp add: Hangup serve_def hang_up_def)
    qed (use assms(1) in \<open>simp add: Hangup serve_def\<close>)
  qed
  then show "locked_out s (fst (serve js en ev st))" and "snd (serve js en ev st) \<in> {None, Some (Sent auth_failed)}" by simp_all
qed

lemma serve_all_locked_out:
  assumes "srv_Username s \<noteq> []" and "\<And>en i line. (en, Line i line) \<in> set evs \<Longrightarrow> \<not> credentials js line s" and "locked_out s st"
  shows "locked_out s (fst (serve_all js evs st)) \<and> set (snd (serve_all js evs st)) \<subseteq> {None, Some (Sent auth_failed)}"
  using assms(2,3)
proof (induction evs arbitrary: st)
  case (Cons x evs)
  obtain en ev where x: "x = (en, ev)" by (cases x)
  have no: "\<not> credentials js line s" if "ev = Line i line" for i line using Cons.prems(1) x that by auto
  have "locked_out s (fst (serve js en ev st))" "snd (serve js en ev st) \<in> {None, Some (Sent auth_failed)}"
    by (rule serve_locked_out [OF Cons.prems(2) assms(1)], rule no, assumption)+
  moreover from this(1) have "locked_out s (fst (serve_all js evs (fst (serve js en ev st)))) \<and>
      set (snd (serve_all js evs (fst (serve js en ev st)))) \<subseteq> {None, Some (Sent auth_failed)}"
    using Cons.prems(1) by (intro Cons.IH) auto
  ultimately show ?case by (simp add: x case_prod_beta)
qed simp

text \<open>C37: Authentication. Take a server made with credentials, and any interleaving of clients that connect, send lines and hang up, in which
  no line carries the right user name and a password with the right hash. Then no request of any of them reaches the executor: the
  tables, the catalog and the transaction counters are as before, the process still runs, and the only response is the failure to authenticate.\<close>

theorem no_credentials_no_effect:
  assumes "NewWithAuth e username password = Inr s"
    and "\<And>en i line. (en, Line i line) \<in> set evs \<Longrightarrow> \<not> credentials js line s"
    and "serve_all js evs (started s) = (st, rs)"
  shows "srv_Executor (srv st) = e \<and> \<not> exited st \<and> set rs \<subseteq> {None, Some (Sent auth_failed)}"
proof -
  have s: "srv_Username s \<noteq> []" "srv_Executor s = e" using assms(1) by (auto simp: NewWithAuth_def server_New_def split: if_splits)
  have "locked_out s (started s)" by (simp add: locked_out_def started_def)
  then have "locked_out s (fst (serve_all js evs (started s))) \<and> set (snd (serve_all js evs (started s))) \<subseteq> {None, Some (Sent auth_failed)}"
    by (intro serve_all_locked_out [OF s(1)] assms(2))
  then show ?thesis using assms(3) s(2) by (simp add: locked_out_def)
qed

text \<open>A server with no table, and a client that sends a query in place of its password.\<close>

definition example_executor :: Executor where
  "example_executor =
     \<lparr>heap = [], closed = [], Tables = [], ex_Catalog = None, tx = None, nextTransactionID = 0, nextCommitSequence = 0, temp_files = 0\<rparr>"

definition example_json :: json where
  "example_json = \<lparr>unmarshal_auth = (\<lambda>line. Inr (take 4 line, drop 5 line)), unmarshal_request = (\<lambda>line. Inr (drop 1 line))\<rparr>"

definition intruder :: "(env \<times> client_event) list" where
  "intruder = [(example_env, Accept), (example_env, Line 0 (str ''DROP TABLE t''))]"

theorem no_credentials_no_effect_witness:
  "\<exists>s st rs. NewWithAuth example_executor (str ''root'') (str ''secret'') = Inr s \<and>
     (\<forall>en i line. (en, Line i line) \<in> set intruder \<longrightarrow> \<not> credentials example_json line s) \<and>
     serve_all example_json intruder (started s) = (st, rs) \<and>
     srv_Executor (srv st) = example_executor \<and> \<not> exited st \<and> rs = [None, Some (Sent auth_failed)]"
proof -
  define s where "s = (server_New example_executor)\<lparr>srv_Username := str ''root'', passwordHash := Sum256 (str ''secret'')\<rparr>"
  obtain st rs where run: "serve_all example_json intruder (started s) = (st, rs)" by (cases "serve_all example_json intruder (started s)")
  have new: "NewWithAuth example_executor (str ''root'') (str ''secret'') = Inr s"
    by (simp add: NewWithAuth_def s_def str_def)
  have trim: "TrimSpace (str ''DROP TABLE t'') = str ''DROP TABLE t''" by code_simp
  have user: "take 4 (str ''DROP TABLE t'') \<noteq> str ''root''" "str ''root'' \<noteq> []" by code_simp+
  have no: "\<not> credentials example_json line s" if "(en, Line i line) \<in> set intruder" for en i line
    using that by (auto simp: intruder_def credentials_def trim user example_json_def s_def server_New_def)
  have len: "length (str ''DROP TABLE t'') < max_line" by (simp add: max_line_def str_def)
  have "rs = [None, Some (Sent auth_failed)]"
    using run no [of example_env 0] len user by (auto simp: intruder_def serve_def started_def accept_def handle_line_def authenticate_def s_def server_New_def)
  moreover have "srv_Executor (srv st) = example_executor \<and> \<not> exited st \<and> set rs \<subseteq> {None, Some (Sent auth_failed)}"
    by (rule no_credentials_no_effect [OF new _ run]) (rule no)
  ultimately show ?thesis using new no run by blast
qed

section \<open>A request that panics\<close>

definition blocked :: "Executor \<Rightarrow> server_state \<Rightarrow> bool" where
  "blocked e st \<longleftrightarrow> mu (srv st) \<and> srv_Executor (srv st) = e"

definition greeting :: Response where
  "greeting = ok_response no_result"

definition unserved :: "sent option \<Rightarrow> bool" where
  "unserved r \<longleftrightarrow> r = None \<or> r = Some (Sent greeting) \<or> (\<exists>err. r = Some (Sent (error_response err)))"

lemma conn_Execute_blocked: "mu s \<Longrightarrow> conn_Execute en query s c = (s, c, Inl Diverge)"
  by (simp add: conn_Execute_def)

lemma handle_line_blocked:
  "mu s \<Longrightarrow> handle_line js en line s c = (s', c', r, exit) \<Longrightarrow> s' = s \<and> unserved r"
  by (auto simp: handle_line_def hang_up_def authenticate_def request_def conn_Execute_blocked unserved_def greeting_def auth_failed_def Let_def
        split: if_splits sum.splits)

lemma hang_up_blocked: "mu s \<Longrightarrow> hang_up en s c = (s', c', exit) \<Longrightarrow> s' = s"
  by (auto simp: hang_up_def conn_Execute_blocked split: if_splits)

lemma serve_blocked:
  assumes "blocked e st"
  shows "blocked e (fst (serve js en ev st)) \<and> unserved (snd (serve js en ev st))"
proof -
  have mu: "mu (srv st)" "srv_Executor (srv st) = e" using assms by (simp_all add: blocked_def)
  have none: "unserved None" by (simp add: unserved_def)
  show ?thesis
    using assms mu none by (auto simp: serve_def blocked_def split: client_event.splits prod.splits dest: handle_line_blocked [OF mu(1)] hang_up_blocked [OF mu(1)])
qed

lemma serve_all_blocked:
  "blocked e st \<Longrightarrow> blocked e (fst (serve_all js evs st)) \<and> (\<forall>r \<in> set (snd (serve_all js evs st)). unserved r)"
proof (induction evs arbitrary: st)
  case (Cons x evs)
  obtain en ev where x: "x = (en, ev)" by (cases x)
  from serve_blocked [OF Cons.prems, of js en ev] Cons.IH [of "fst (serve js en ev st)"] show ?case by (simp add: x case_prod_beta)
qed simp

definition fatal_line :: bytes where
  "fatal_line = print_tokens (head_tokens example_query) @ str ''LIMIT ?''"

lemma fatal_line_Parse: "Parse fatal_line = Inl Panic"
  unfolding fatal_line_def by (rule Parse_limit [OF example_query_printable])

lemma fatal_line_split: "splitStatements fatal_line = [fatal_line]" "TrimSpace fatal_line = fatal_line"
  "fatal_line \<noteq> []" "take 1 fatal_line \<noteq> str ''{''" "length fatal_line \<le> 100"
  by code_simp+

lemma fatal_line_fits: "length fatal_line < max_line"
  using fatal_line_split(5) by (simp add: max_line_def)

lemma conn_Execute_fatal:
  assumes "\<not> mu s"
  shows "conn_Execute en fatal_line s c = (s\<lparr>mu := True\<rparr>, c, Inl Panic)"
  using assms by (simp add: conn_Execute_def Execute_def fatal_line_split(1) fatal_line_Parse NewExecutor_def)

text \<open>C38: One query stops the service. On every server and in every state, let a client that may send queries send
  \<^verbatim>\<open>SELECT 'name' FROM 't' LIMIT ?\<close>. It gets no answer and its request keeps the mutex. After that, whatever any client sends, the tables never
  change again, and no query is answered with rows: a connection gets no more than the greeting after its password, or an error. The process
  itself exits just if the client was not in a transaction.\<close>

theorem one_query_stops_service:
  assumes "i < length (conns st)" and "conn_open (conns st ! i)" and "conn_authed (conns st ! i)"
    and "\<not> exited st" and "\<not> mu (srv st)"
    and "serve js en (Line i fatal_line) st = (st', r)" and "serve_all js evs st' = (st'', rs)"
  shows "r = None \<and> (exited st' \<longleftrightarrow> conn_tx (conns st ! i) = None) \<and> mu (srv st'') \<and>
    srv_Executor (srv st'') = srv_Executor (srv st) \<and> list_all unserved rs"
proof -
  have "serve js en (Line i fatal_line) st =
      (st\<lparr>srv := (srv st)\<lparr>mu := True\<rparr>, conns := (conns st)[i := (conns st ! i)\<lparr>conn_open := False\<rparr>],
         exited := (conn_tx (conns st ! i) = None)\<rparr>, None)"
    using assms(1-5) fatal_line_split(3,4) fatal_line_fits
    by (simp add: serve_def handle_line_def request_def line_query_def fatal_line_split(2) conn_Execute_fatal Let_def)
  with assms(6) have st': "st' = st\<lparr>srv := (srv st)\<lparr>mu := True\<rparr>, conns := (conns st)[i := (conns st ! i)\<lparr>conn_open := False\<rparr>],
         exited := (conn_tx (conns st ! i) = None)\<rparr>" and r: "r = None" by simp_all
  have "blocked (srv_Executor (srv st)) st'" by (simp add: st' blocked_def)
  from serve_all_blocked [OF this, of js evs] assms(7) r st' show ?thesis by (simp add: blocked_def list_all_iff)
qed

theorem one_query_stops_service_witness:
  "\<exists>st st' r. st = (started (server_New example_executor))\<lparr>conns := [accept (server_New example_executor)]\<rparr> \<and>
     0 < length (conns st) \<and> conn_open (conns st ! 0) \<and> conn_authed (conns st ! 0) \<and> \<not> exited st \<and> \<not> mu (srv st) \<and>
     serve example_json example_env (Line 0 fatal_line) st = (st', r) \<and> r = None \<and> exited st' \<and> mu (srv st')"
proof -
  define st where "st = (started (server_New example_executor))\<lparr>conns := [accept (server_New example_executor)]\<rparr>"
  obtain st' r where run: "serve example_json example_env (Line 0 fatal_line) st = (st', r)"
    by (cases "serve example_json example_env (Line 0 fatal_line) st")
  have pre: "0 < length (conns st)" "conn_open (conns st ! 0)" "conn_authed (conns st ! 0)" "\<not> exited st" "\<not> mu (srv st)"
    and tx: "conn_tx (conns st ! 0) = None"
    by (simp_all add: st_def started_def accept_def server_New_def)
  from one_query_stops_service [OF pre run, of "[]" st' "[]"] tx pre run st_def show ?thesis by auto
qed

section \<open>Hanging up\<close>

lemma rollback_Parse: "Parse (str ''ROLLBACK'') = Inr Rollback"
  by code_simp

lemma rollback_split: "splitStatements (str ''ROLLBACK'') = [str ''ROLLBACK'']"
  by code_simp

lemma Execute_rollback: "Execute en (str ''ROLLBACK'') e = rollback_tx e"
  by (simp add: Execute_def executeOne_def rollback_split rollback_Parse)

lemma hang_up_rollback:
  assumes "conn_tx c = Some x" and "\<not> mu s" and "rollback_tx ((NewExecutor (srv_Executor s))\<lparr>tx := Some x\<rparr>) = (e, Inr res)"
  shows "\<exists>s' c'. hang_up en s c = (s', c', False) \<and> heap (srv_Executor s') = heap e \<and> conn_tx c' = tx e \<and> \<not> conn_open c' \<and> \<not> mu s'"
  using assms by (simp add: hang_up_def conn_Execute_def Execute_rollback)

end
