(* ===== verification/Backup.thy ===== *)
theory Backup
  imports Catalog Store_Recovery
begin

text \<open>
  Backup and restore of \<^verbatim>\<open>kv/backup.go\<close>. The files of a database are the page file, the write-ahead log,
  the index and the catalog under one path; a missing file is \<open>None\<close>, or \<open>NoIndex\<close> and \<open>NoCatalog\<close>. The
  system calls of the copy take their outcomes from a schedule, as those of the files do: creating,
  filling and closing each temporary file, then renaming the files one by one.
\<close>

section \<open>State\<close>

record db_files =
  bn_db :: "os_file option"
  bn_wal :: "os_file option"
  bn_idx :: index_file
  bn_catalog :: catalog_file

definition opened :: "os_file option \<Rightarrow> os_file" where
  "opened f = (case f of None \<Rightarrow> file_of [] | Some g \<Rightarrow> g)"

definition bundle_disk :: "db_files \<Rightarrow> disk" where
  "bundle_disk b = \<lparr>dbf = opened (bn_db b), walf = opened (bn_wal b), idxf = bn_idx b\<rparr>"

definition put_disk :: "disk \<Rightarrow> db_files \<Rightarrow> db_files" where
  "put_disk d b = b\<lparr>bn_db := Some (dbf d), bn_wal := Some (walf d), bn_idx := idxf d\<rparr>"

section \<open>Validation\<close>

definition missing :: db_error where
  "missing = ErrMsg ''no such file or directory'' []"

text \<open>Opening replays the log and closing rewrites the sidecars, so validation changes the files it reads.\<close>

definition validateBackup :: "range_order \<Rightarrow> db_files \<Rightarrow> (db_files, unit) outcome" where
  "validateBackup rng b =
     (case bn_db b of
        None \<Rightarrow> (b, Inl missing)
      | Some f \<Rightarrow>
          if length (fdata f) mod PageSize \<noteq> 0
          then (b, Inl (ErrMsg ''database size %d is not a multiple of page size %d'' [dec_nat (length (fdata f)), dec_nat PageSize]))
          else
            (case store_Open rng (bundle_disk b) of
               (d, Inl err) \<Rightarrow> (put_disk d b, Inl err)
             | (d, Inr s) \<Rightarrow>
                 (case store_Close rng s of
                    (s', Inl err) \<Rightarrow> (put_disk (disk_of s') b, Inl err)
                  | (s', Inr u) \<Rightarrow>
                      (let b = put_disk (disk_of s') b
                       in if idx_data (bn_idx b) = NoIndex then (b, Inl (ErrCtx ''index sidecar'' missing))
                          else if cat_data (bn_catalog b) = NoCatalog then (b, Inr ())
                          else (case OpenCatalog (bn_catalog b) of
                                  (f, Inl err) \<Rightarrow> (b\<lparr>bn_catalog := f\<rparr>, Inl err)
                                | (f, Inr c) \<Rightarrow> (b\<lparr>bn_catalog := f\<rparr>, Inr ()))))))"

section \<open>Copying\<close>

datatype staged = StagedDb os_file | StagedWal os_file | StagedIdx index_file | StagedCatalog catalog_file

text \<open>The files in the order of \<^verbatim>\<open>backupSuffixes\<close>, with their suffixes.\<close>

definition bundle_files :: "db_files \<Rightarrow> (string \<times> staged option) list" where
  "bundle_files b =
     [([], map_option StagedDb (bn_db b)), (''.wal'', map_option StagedWal (bn_wal b)),
      (''.idx'', if idx_data (bn_idx b) = NoIndex then None else Some (StagedIdx (bn_idx b))),
      (''.catalog'', if cat_data (bn_catalog b) = NoCatalog then None else Some (StagedCatalog (bn_catalog b)))]"

definition io_fails :: "io_outcome list \<Rightarrow> bool" where
  "io_fails fs = (case fs of IoFail n # _ \<Rightarrow> True | _ \<Rightarrow> False)"

text \<open>Staging one file creates, fills and closes a temporary file.\<close>

definition stage_file :: "string \<Rightarrow> io_outcome list \<Rightarrow> (io_outcome list, unit) outcome" where
  "stage_file suffix fs =
     (if io_fails fs \<or> io_fails (tl fs) then (fs, Inl (ErrCtx (''stage '' @ suffix) ErrIO))
      else if io_fails (tl (tl fs)) then (fs, Inl ErrIO)
      else (drop 3 fs, Inr ()))"

fun stage_files :: "string \<Rightarrow> (string \<times> staged option) list \<Rightarrow> io_outcome list \<Rightarrow> (io_outcome list, staged list) outcome" where
  "stage_files operation [] fs = (fs, Inr [])"
| "stage_files operation ((suffix, f) # files) fs =
     (case f of
        None \<Rightarrow>
          if suffix = ''.catalog'' then stage_files operation files fs
          else (fs, Inl (ErrCtx (operation @ '' '' @ suffix) missing))
      | Some g \<Rightarrow>
          seqR (stage_file suffix fs) (\<lambda>fs u.
          seqR (stage_files operation files fs) (\<lambda>fs gs. (fs, Inr (g # gs)))))"

definition install :: "staged \<Rightarrow> db_files \<Rightarrow> db_files" where
  "install g b =
     (case g of
        StagedDb f \<Rightarrow> b\<lparr>bn_db := Some f\<rparr>
      | StagedWal f \<Rightarrow> b\<lparr>bn_wal := Some f\<rparr>
      | StagedIdx f \<Rightarrow> b\<lparr>bn_idx := f\<rparr>
      | StagedCatalog f \<Rightarrow> b\<lparr>bn_catalog := f\<rparr>)"

fun rename_files :: "staged list \<Rightarrow> io_outcome list \<Rightarrow> db_files \<Rightarrow> (db_files, unit) outcome" where
  "rename_files [] fs b = (b, Inr ())"
| "rename_files (g # gs) fs b =
     (if io_fails fs then (b, Inl (ErrCtx ''replace'' ErrIO)) else rename_files gs (tl fs) (install g b))"

definition copyBundle :: "string \<Rightarrow> io_outcome list \<Rightarrow> db_files \<Rightarrow> db_files \<Rightarrow> (db_files, unit) outcome" where
  "copyBundle operation fs src dst =
     (case stage_files operation (bundle_files src) fs of
        (fs, Inl err) \<Rightarrow> (dst, Inl err)
      | (fs, Inr gs) \<Rightarrow> rename_files gs fs dst)"

text \<open>The source and the destination are given with their paths; both bundles are returned.\<close>

definition checked_copy :: "string \<Rightarrow> string \<Rightarrow> range_order \<Rightarrow> io_outcome list \<Rightarrow> bytes \<times> db_files \<Rightarrow> bytes \<times> db_files \<Rightarrow>
    (db_files \<times> db_files, unit) outcome" where
  "checked_copy operation failure rng fs source destination =
     (if fst source = fst destination
      then ((snd source, snd destination), Inl (ErrMsg (operation @ '' destination must differ from source'') []))
      else (case validateBackup rng (snd source) of
              (b, Inl err) \<Rightarrow> ((b, snd destination), Inl (ErrCtx failure err))
            | (b, Inr u) \<Rightarrow> (case copyBundle operation fs b (snd destination) of (d, r) \<Rightarrow> ((b, d), r))))"

definition Backup :: "range_order \<Rightarrow> io_outcome list \<Rightarrow> bytes \<times> db_files \<Rightarrow> bytes \<times> db_files \<Rightarrow> (db_files \<times> db_files, unit) outcome" where
  "Backup = checked_copy ''backup'' ''validate backup source''"

definition Restore :: "range_order \<Rightarrow> io_outcome list \<Rightarrow> bytes \<times> db_files \<Rightarrow> bytes \<times> db_files \<Rightarrow> (db_files \<times> db_files, unit) outcome" where
  "Restore = checked_copy ''restore'' ''validate backup''"

section \<open>A backup of a closed database\<close>

definition files_of :: "Store \<Rightarrow> catalog_file \<Rightarrow> db_files" where
  "files_of s cat = \<lparr>bn_db = Some (dbf (disk_of s)), bn_wal = Some (walf (disk_of s)), bn_idx = idxf (disk_of s), bn_catalog = cat\<rparr>"

definition good_catalog :: "catalog_file \<Rightarrow> bool" where
  "good_catalog f \<longleftrightarrow> cat_faults f = [] \<and> (cat_data f = NoCatalog \<or> (\<exists>c. snd (OpenCatalog f) = Inr c))"

lemma bundle_disk_simps [simp]: "bundle_disk (files_of s cat) = disk_of s" "put_disk (disk_of s) (files_of s' cat) = files_of s cat"
  by (simp_all add: bundle_disk_def files_of_def opened_def disk_of_def put_disk_def)

lemma files_of_simps [simp]:
  "bn_db (files_of s cat) = Some (dbf (disk_of s))" "bn_idx (files_of s cat) = idxf (disk_of s)" "bn_catalog (files_of s cat) = cat"
  "(files_of s cat)\<lparr>bn_catalog := cat'\<rparr> = files_of s cat'"
  by (simp_all add: files_of_def)

lemma OpenCatalog_file: "cat_faults f = [] \<Longrightarrow> fst (OpenCatalog f) = f"
  by (auto simp: OpenCatalog_def seqR_def check_def cat_call_def split: catalog_data.splits sum.splits)

lemma pager_Open_size: "pager_Open f = Inr p \<Longrightarrow> length (fdata f) mod PageSize = 0"
  by (auto simp: pager_Open_def Let_def split: if_splits)

text \<open>Validating a cleanly closed database succeeds and leaves a cleanly closed database with the same pages and index.\<close>

lemma validate_closed:
  assumes r: "rep s c0 h m" and rng: "range_ok rng" and c: "page_chain (pager s) c" and len: "length (chain_log c) < 2 ^ 64"
    and close: "store_Close rng s = (s1, Inr ())" and cat: "good_catalog cat"
  shows "\<exists>s2 s3. validateBackup rng (files_of s1 cat) = (files_of s3 cat, Inr ()) \<and> rep s2 [] (chain_log c) m \<and>
    page_chain (pager s2) c \<and> store_Close rng s2 = (s3, Inr ()) \<and> idx_data (idxf (disk_of s3)) \<noteq> NoIndex"
proof -
  from reopen_fine [OF r rng c len] close obtain d s2 where
    s2: "store_Open rng (disk_of s1) = (d, Inr s2)" "rep s2 [] (chain_log c) m" "same_view (pager s) (pager s2)"
    by (cases "store_Open rng (disk_of s1)") (auto simp: reopen_def)
  from store_Close_fine [OF r rng] close obtain p where "calm (disk_of s1) p" by auto
  then have size: "length (fdata (dbf (disk_of s1))) mod PageSize = 0" using pager_Open_size by (auto simp: calm_def)
  from store_Close_fine [OF s2(2) rng] obtain s3 where
    s3: "store_Close rng s2 = (s3, Inr ())" "idx_data (idxf (disk_of s3)) = IndexEntries (tree_entries (index s2))" by blast
  have "validateBackup rng (files_of s1 cat) = (files_of s3 cat, Inr ())"
  proof (cases "cat_data cat = NoCatalog")
    case True
    then show ?thesis using s2(1) s3 size
      by (simp add: validateBackup_def Let_def)
  next
    case False
    with cat obtain k where "OpenCatalog cat = (cat, Inr k)" using OpenCatalog_file [of cat] by (cases "OpenCatalog cat") (auto simp: good_catalog_def)
    then show ?thesis using s2(1) s3 size False
      by (simp add: validateBackup_def Let_def)
  qed
  with s2(2,3) s3 page_chain_view [OF c] show ?thesis by fastforce
qed

lemma copy_all:
  assumes "idx_data (idxf (disk_of s)) \<noteq> NoIndex"
  shows "copyBundle operation [] (files_of s cat) dst = (files_of s (if cat_data cat = NoCatalog then bn_catalog dst else cat), Inr ())"
  using assms by (cases dst)
    (simp add: copyBundle_def bundle_files_def files_of_def stage_file_def io_fails_def seqR_def install_def)

text \<open>C35: Backup. After any successful calls of a client and a clean \<open>Close\<close>, \<open>Backup\<close> succeeds when no system call fails, the copy
  opens, and \<open>Get\<close> on the copy reads what the client wrote. The catalog is copied when there is one; when there is none, a
  catalog that the destination already has stays there.\<close>

theorem Backup_keeps_contents:
  assumes "\<forall>cl \<in> set cs. good_call cl" and "length (writes cs) < 2 ^ 32 - 1" and "run_client rng cs = Some s" and rng: "range_ok rng"
    and close: "store_Close rng s = (s1, Inr ())" and cat: "good_catalog cat" and "p \<noteq> q"
  shows "\<exists>src dst' d s'. Backup rng [] (p, files_of s1 cat) (q, dst) = ((src, dst'), Inr ()) \<and>
    store_Open rng (bundle_disk dst') = (d, Inr s') \<and> (\<forall>key. store_Get key s' = Inr (log_map (writes cs) key)) \<and>
    bn_catalog dst' = (if cat_data cat = NoCatalog then bn_catalog dst else cat)"
proof -
  from run_client_session [OF assms(1,2), of rng] assms(3) obtain c where ss: "session s c (writes cs)" by auto
  then have len: "length (chain_log c) < 2 ^ 64" using assms(2) by (auto simp: session_def)
  from validate_closed [OF sessionD(1) [OF ss] rng session_page_chain [OF ss] len close cat] obtain s2 s3 where
    v: "validateBackup rng (files_of s1 cat) = (files_of s3 cat, Inr ())" "rep s2 [] (chain_log c) (log_map (writes cs))"
    "page_chain (pager s2) c" "store_Close rng s2 = (s3, Inr ())" "idx_data (idxf (disk_of s3)) \<noteq> NoIndex" by blast
  from reopen_fine [OF v(2) rng v(3) len] v(4) obtain d s4 where
    s4: "store_Open rng (disk_of s3) = (d, Inr s4)" "rep s4 [] (chain_log c) (log_map (writes cs))"
    by (cases "store_Open rng (disk_of s3)") (auto simp: reopen_def)
  have "store_Get key s4 = Inr (log_map (writes cs) key)" for key using rep_Get [OF s4(2)] by simp
  then show ?thesis
    using assms(7) v(1) s4(1) copy_all [OF v(5), of "''backup''" cat dst] by (auto simp: Backup_def checked_copy_def)
qed

definition no_files :: db_files where
  "no_files = \<lparr>bn_db = None, bn_wal = None, bn_idx = \<lparr>idx_data = NoIndex, idx_faults = []\<rparr>, bn_catalog = \<lparr>cat_data = NoCatalog, cat_faults = []\<rparr>\<rparr>"

theorem Backup_keeps_contents_witness:
  "\<exists>s s1 src dst' d s'. run_client (\<lambda>b. map fst (items b)) [DoPut [1] [2]] = Some s \<and>
     store_Close (\<lambda>b. map fst (items b)) s = (s1, Inr ()) \<and>
     Backup (\<lambda>b. map fst (items b)) [] (str ''a'', files_of s1 \<lparr>cat_data = NoCatalog, cat_faults = []\<rparr>) (str ''b'', no_files) = ((src, dst'), Inr ()) \<and>
     store_Open (\<lambda>b. map fst (items b)) (bundle_disk dst') = (d, Inr s') \<and> store_Get [1] s' = Inr (Some [2])"
proof -
  let ?rng = "\<lambda>b. map fst (items b)" and ?cat = "\<lparr>cat_data = NoCatalog, cat_faults = []\<rparr>"
  have good: "\<forall>cl \<in> set [DoPut [1] [2]]. good_call cl" "length (writes [DoPut [1] [2]]) < 2 ^ 32 - 1"
    by (auto simp: log_simps small_simps)
  from run_client_session [OF good, of ?rng] obtain s c where
    s: "run_client ?rng [DoPut [1] [2]] = Some s" "session s c (writes [DoPut [1] [2]])" by blast
  have rng: "range_ok ?rng" by (simp add: range_ok_def)
  from store_Close_fine [OF sessionD(1) [OF s(2)] rng] obtain s1 where s1: "store_Close ?rng s = (s1, Inr ())" by blast
  from Backup_keeps_contents [OF good s(1) rng s1, of ?cat "str ''a''" "str ''b''" no_files] s(1) s1
  show ?thesis by (auto simp: good_catalog_def str_def log_simps)
qed

end
