(* ===== verification/CLI.thy ===== *)
theory CLI
  imports Server Backup
begin

text \<open>
  The command line of \<^verbatim>\<open>cmd/go-db/main.go\<close>: the seed file, closing the tables, the file commands, and
  the interactive client with the table it prints. The client is a state machine on the lines typed:
  it collects them until a statement ends, sends the statement as one line, and waits for the answer.
  What the flags, the sockets and \<^verbatim>\<open>encoding/json\<close> give is an argument.
\<close>

section \<open>Tables of the server\<close>

definition findCatalogEntry :: "Catalog \<Rightarrow> bytes \<Rightarrow> CatalogEntry option" where
  "findCatalogEntry catalog n = find (\<lambda>entry. ce_Name entry = n) (Entries catalog)"

text \<open>A table with several names is closed once; errors are ignored.\<close>

fun close_each :: "env \<Rightarrow> nat list \<Rightarrow> nat list \<Rightarrow> Executor \<Rightarrow> Executor" where
  "close_each en [] done e = e"
| "close_each en (a # as) done e =
     (if a \<in> set done then close_each en as done e
      else close_each en as (a # done) (fst (close_table en a e)))"

definition closeTables :: "env \<Rightarrow> Executor \<Rightarrow> Executor" where
  "closeTables en e = close_each en (map snd (ranged en (Tables e))) [] e"

section \<open>The file commands\<close>

definition fileCommand ::
  "range_order \<Rightarrow> io_outcome list \<Rightarrow> string \<Rightarrow> bytes list \<Rightarrow> (bytes \<Rightarrow> db_files) \<Rightarrow> (bytes \<Rightarrow> db_files, unit) outcome" where
  "fileCommand rng fs command args files =
     (case args of
        [source, destination] \<Rightarrow>
          (case (if command = ''backup'' then Backup else Restore) rng fs (source, files source) (destination, files destination) of
             ((b, d), r) \<Rightarrow> (files(destination := d, source := b), r))
      | _ \<Rightarrow> (files, Inl (ErrMsg ''usage: go-db %s <source-db> <destination-db>'' [])))"

section \<open>The seed file\<close>

fun Split :: "8 word \<Rightarrow> bytes \<Rightarrow> bytes list" where
  "Split sep [] = [[]]"
| "Split sep (b # bs) =
     (if b = sep then [] # Split sep bs else (case Split sep bs of [] \<Rightarrow> [[b]] | p # ps \<Rightarrow> (b # p) # ps))"

definition seed_lines :: "bytes \<Rightarrow> bytes list" where
  "seed_lines b = filter (\<lambda>line. take 2 (TrimSpace line) \<noteq> str ''--'') (Split 10 b)"

fun run_statements :: "env \<Rightarrow> bytes list \<Rightarrow> unit exec_op" where
  "run_statements en [] e = (e, Inr ())"
| "run_statements en (p # ps) e =
     (let statement = TrimSpace p
      in if statement = [] then run_statements en ps e
         else (case Execute en statement e of
                 (e, Inl err) \<Rightarrow> (e, Inl (if err = Panic \<or> err = Diverge then err else ErrCtx ''statement %d'' err))
               | (e, Inr r) \<Rightarrow> run_statements en ps e))"

text \<open>The file is missing, fails to be read, or has contents.\<close>

definition runSeed :: "env \<Rightarrow> bytes option result \<Rightarrow> unit exec_op" where
  "runSeed en file e =
     (case file of
        Inl err \<Rightarrow> (e, Inl err)
      | Inr None \<Rightarrow> (e, Inr ())
      | Inr (Some b) \<Rightarrow> run_statements en (Split 59 (join_with [10] (seed_lines b))) e)"

section \<open>The table a client prints\<close>

definition Repeat :: "8 word \<Rightarrow> int \<Rightarrow> bytes result" where
  "Repeat b n = (if n < 0 then Inl Panic else Inr (replicate (nat n) b))"

definition row_texts :: "bytes list \<Rightarrow> row \<Rightarrow> bytes list" where
  "row_texts columns r = map (\<lambda>c. Sprint (case map_of r c of None \<Rightarrow> GoNil | Some v \<Rightarrow> v)) columns"

definition column_widths :: "bytes list \<Rightarrow> bytes list list \<Rightarrow> nat list" where
  "column_widths columns cells = foldl (\<lambda>ws vs. map2 (\<lambda>w v. max w (length v)) ws vs) (map length columns) cells"

definition writeRule :: "nat list \<Rightarrow> bytes" where
  "writeRule ws = [43] @ concat (map (\<lambda>w. replicate (w + 2) 45 @ [43]) ws) @ [10]"

fun write_cells :: "nat list \<Rightarrow> bytes list \<Rightarrow> bytes result" where
  "write_cells ws [] = Inr []"
| "write_cells [] (v # vs) = Inl Panic"
| "write_cells (w # ws) (v # vs) =
     (case Repeat 32 (int w - int (length v)) of
        Inl err \<Rightarrow> Inl err
      | Inr pad \<Rightarrow>
          (case write_cells ws vs of Inl err \<Rightarrow> Inl err | Inr rest \<Rightarrow> Inr ([32] @ v @ pad @ [32, 124] @ rest)))"

definition writeRow :: "nat list \<Rightarrow> bytes list \<Rightarrow> bytes result" where
  "writeRow ws vs = (case write_cells ws vs of Inl err \<Rightarrow> Inl err | Inr b \<Rightarrow> Inr ([124] @ b @ [10]))"

fun writeRows :: "nat list \<Rightarrow> bytes list list \<Rightarrow> bytes result" where
  "writeRows ws [] = Inr []"
| "writeRows ws (vs # vss) =
     (case writeRow ws vs of
        Inl err \<Rightarrow> Inl err
      | Inr b \<Rightarrow> (case writeRows ws vss of Inl err \<Rightarrow> Inl err | Inr bs \<Rightarrow> Inr (b @ bs)))"

definition formatTable :: "bytes list \<Rightarrow> row list \<Rightarrow> bytes result" where
  "formatTable columns rows =
     (let cells = map (row_texts columns) rows; ws = column_widths columns cells
      in case writeRow ws columns of
           Inl err \<Rightarrow> Inl err
         | Inr head \<Rightarrow>
             (case writeRows ws cells of
                Inl err \<Rightarrow> Inl err
              | Inr body \<Rightarrow> Inr (writeRule ws @ head @ writeRule ws @ body @ writeRule ws)))"

section \<open>The interactive client\<close>

datatype client_action = Prompt | Quit | Send bytes

definition client_line :: "bytes list \<Rightarrow> bytes \<Rightarrow> bytes list \<times> client_action" where
  "client_line queryLines typed =
     (let line = TrimSpace typed
      in if queryLines = [] \<and> line = [] then ([], Prompt)
         else if queryLines = [] \<and> (EqualFold line (str ''exit'') \<or> EqualFold line (str ''quit'')) then ([], Quit)
         else
           (let queryLines = (if line \<noteq> [] then queryLines @ [line] else queryLines);
                query = TrimSpace (join_with [32] queryLines)
            in if query = [] \<or> last query \<noteq> 59 then (queryLines, Prompt) else ([], Send query)))"

fun client_queries :: "bytes list \<Rightarrow> bytes list \<Rightarrow> bytes list" where
  "client_queries queryLines [] = []"
| "client_queries queryLines (typed # rest) =
     (case client_line queryLines typed of
        (queryLines, Prompt) \<Rightarrow> client_queries queryLines rest
      | (queryLines, Quit) \<Rightarrow> []
      | (queryLines, Send query) \<Rightarrow> query # client_queries queryLines rest)"

definition show_response :: "(db_error \<Rightarrow> bytes) \<Rightarrow> Response \<Rightarrow> bytes result" where
  "show_response message r =
     (if \<not> OK r then Inr (str ''error: '' @ (case rsp_Error r of None \<Rightarrow> [] | Some err \<Rightarrow> message err) @ [10])
      else if rsp_Rows r \<noteq> [] then formatTable (rsp_Columns r) (rsp_Rows r)
      else Inr (str ''OK ('' @ dec_nat (rsp_Affected r) @ str '' rows affected)'' @ [10]))"

section \<open>Shape of the table\<close>

text \<open>The lines of a table whose columns have the widths \<open>ws\<close>: a rule, and a row of texts, each filled up with blanks on its right.\<close>

definition rule_line :: "nat list \<Rightarrow> bytes" where
  "rule_line ws = [43] @ concat (map (\<lambda>w. replicate (w + 2) 45 @ [43]) ws)"

definition row_line :: "nat list \<Rightarrow> bytes list \<Rightarrow> bytes" where
  "row_line ws vs = [124] @ concat (map2 (\<lambda>w v. [32] @ v @ replicate (w - length v) 32 @ [32, 124]) ws vs)"

definition fits :: "nat list \<Rightarrow> bytes list \<Rightarrow> bool" where
  "fits ws vs \<longleftrightarrow> list_all2 (\<lambda>w v. length v \<le> w) ws vs"

lemma row_line_length:
  "fits ws vs \<Longrightarrow> length (row_line ws vs) = length (rule_line ws)"
  unfolding fits_def by (induction rule: list_all2_induct) (simp_all add: row_line_def rule_line_def)

lemma write_cells_fits: "fits ws vs \<Longrightarrow> writeRow ws vs = Inr (row_line ws vs @ [10])"
proof -
  have "list_all2 (\<lambda>w v. length v \<le> w) ws vs \<Longrightarrow>
      write_cells ws vs = Inr (concat (map2 (\<lambda>w v. [32] @ v @ replicate (w - length v) 32 @ [32, 124]) ws vs))"
    by (induction rule: list_all2_induct) (simp_all add: Repeat_def nat_diff_distrib)
  then show "fits ws vs \<Longrightarrow> ?thesis" by (simp add: writeRow_def row_line_def fits_def)
qed

lemma writeRows_fits:
  "\<forall>vs \<in> set cells. fits ws vs \<Longrightarrow> writeRows ws cells = Inr (concat (map (\<lambda>vs. row_line ws vs @ [10]) cells))"
  by (induction cells) (simp_all add: write_cells_fits)

lemma widths_length:
  "\<forall>vs \<in> set cells. length vs = length ws \<Longrightarrow> length (foldl (\<lambda>ws vs. map2 (\<lambda>w v. max w (length v)) ws vs) ws cells) = length ws"
  by (induction cells arbitrary: ws) simp_all

lemma widths_nth:
  "\<forall>vs \<in> set cells. length vs = length ws \<Longrightarrow> j < length ws \<Longrightarrow>
    foldl (\<lambda>ws vs. map2 (\<lambda>w v. max w (length v)) ws vs) ws cells ! j = Max (insert (ws ! j) ((\<lambda>vs. length (vs ! j)) ` set cells))"
proof (induction cells arbitrary: ws)
  case (Cons c cells)
  let ?ws = "map2 (\<lambda>w v. max w (length v)) ws c"
  have len: "length ?ws = length ws" using Cons.prems(1) by simp
  have "Max (insert (?ws ! j) ((\<lambda>vs. length (vs ! j)) ` set cells)) = Max (insert (ws ! j) (insert (length (c ! j)) ((\<lambda>vs. length (vs ! j)) ` set cells)))"
    using Cons.prems by (cases cells) (simp_all add: max.assoc)
  with Cons.IH [of ?ws] Cons.prems len show ?case by simp
qed simp

lemma Split_lines: "\<forall>l \<in> set ls. 10 \<notin> set l \<Longrightarrow> Split 10 (concat (map (\<lambda>l. l @ [10]) ls)) = ls @ [[]]"
proof (induction ls)
  case (Cons l ls)
  have "10 \<notin> set l \<Longrightarrow> Split 10 (l @ 10 # rest) = l # Split 10 rest" for rest by (induction l) simp_all
  with Cons show ?case by simp
qed simp

lemma row_line_newline: "\<forall>v \<in> set vs. 10 \<notin> set v \<Longrightarrow> 10 \<notin> set (row_line ws vs)"
  by (auto simp: row_line_def dest: set_zip_rightD)

lemma rule_line_newline: "10 \<notin> set (rule_line ws)"
  by (auto simp: rule_line_def)

text \<open>C40: The printed table. Let no column name and no text of a value contain a line break. Then \<open>formatTable\<close> does not panic, and what it prints is
  these lines: a rule, the column names, a rule, a line per row in order, and a rule. In each, column \<open>j\<close> is a blank, the text, blanks up to the width
  of the column, a blank and a bar; the width of a column is the length of its longest text, its name included. So all lines have the same
  length and the bars stand below each other.\<close>

theorem formatTable_aligned:
  assumes "\<forall>c \<in> set columns. 10 \<notin> set c" and "\<forall>r \<in> set rows. \<forall>v \<in> set (row_texts columns r). 10 \<notin> set v"
  shows "\<exists>ws out. formatTable columns rows = Inr out \<and> length ws = length columns \<and>
    (\<forall>j < length columns. ws ! j = Max (insert (length (columns ! j)) ((\<lambda>r. length (row_texts columns r ! j)) ` set rows))) \<and>
    Split 10 out = [rule_line ws, row_line ws columns, rule_line ws] @ map (\<lambda>r. row_line ws (row_texts columns r)) rows @ [rule_line ws, []] \<and>
    (\<forall>l \<in> set (butlast (Split 10 out)). length l = length (rule_line ws))"
proof -
  define cells where "cells = map (row_texts columns) rows"
  define ws where "ws = column_widths columns cells"
  have all: "\<forall>vs \<in> set cells. length vs = length (map length columns)" by (auto simp: cells_def row_texts_def)
  have len: "length ws = length columns"
    using widths_length [OF all] by (simp add: ws_def column_widths_def)
  have width: "ws ! j = Max (insert (length (columns ! j)) ((\<lambda>vs. length (vs ! j)) ` set cells))" if "j < length columns" for j
    using widths_nth [OF all, of j] that by (simp add: ws_def column_widths_def)
  have fit: "fits ws vs" if "vs \<in> set (columns # cells)" for vs
    using that len all width by (auto simp: fits_def list_all2_conv_all_nth)
  define ls where "ls = [rule_line ws, row_line ws columns, rule_line ws] @ map (row_line ws) cells @ [rule_line ws]"
  have "formatTable columns rows = Inr (concat (map (\<lambda>l. l @ [10]) ls))"
    using fit writeRows_fits [of cells ws]
    by (simp add: formatTable_def Let_def cells_def [symmetric] ws_def [symmetric] write_cells_fits ls_def writeRule_def rule_line_def comp_def)
  moreover have "\<forall>l \<in> set ls. 10 \<notin> set l"
    using assms row_line_newline rule_line_newline by (auto simp: ls_def cells_def)
  moreover from this have split: "Split 10 (concat (map (\<lambda>l. l @ [10]) ls)) = ls @ [[]]" by (rule Split_lines)
  moreover have "\<forall>l \<in> set ls. length l = length (rule_line ws)" using row_line_length fit by (auto simp: ls_def)
  then have "\<forall>l \<in> set (butlast (ls @ [[]])). length l = length (rule_line ws)" by simp
  moreover have "ls @ [[]] = [rule_line ws, row_line ws columns, rule_line ws] @ map (\<lambda>r. row_line ws (row_texts columns r)) rows @ [rule_line ws, []]"
    by (simp add: ls_def cells_def)
  ultimately show ?thesis
    using len width by (intro exI [of _ ws] exI [of _ "concat (map (\<lambda>l. l @ [10]) ls)"]) (simp only: cells_def image_image set_map simp_thms, blast)
qed

theorem formatTable_aligned_witness:
  "\<exists>ws out. formatTable [str ''id'', str ''n''] [[(str ''id'', GoString (str ''abc''))]] = Inr out \<and> ws ! 0 = 3 \<and> ws ! 1 = 5 \<and>
     Split 10 out = [rule_line ws, row_line ws [str ''id'', str ''n''], rule_line ws, row_line ws [str ''abc'', str ''<nil>''], rule_line ws, []] \<and>
     (\<forall>l \<in> set (butlast (Split 10 out)). length l = length (rule_line ws))"
proof -
  let ?cs = "[str ''id'', str ''n'']" and ?rows = "[[(str ''id'', GoString (str ''abc''))]]"
  have texts: "row_texts ?cs (hd ?rows) = [str ''abc'', str ''<nil>'']" by (simp add: row_texts_def Sprint_def str_def)
  have "\<forall>c \<in> set ?cs. 10 \<notin> set c" "\<forall>r \<in> set ?rows. \<forall>v \<in> set (row_texts ?cs r). 10 \<notin> set v"
    using texts by (simp_all add: str_def)
  from formatTable_aligned [OF this] obtain ws out where "formatTable ?cs ?rows = Inr out"
    "\<forall>j < length ?cs. ws ! j = Max (insert (length (?cs ! j)) ((\<lambda>r. length (row_texts ?cs r ! j)) ` set ?rows))"
    "Split 10 out = [rule_line ws, row_line ws ?cs, rule_line ws] @ map (\<lambda>r. row_line ws (row_texts ?cs r)) ?rows @ [rule_line ws, []]"
    "\<forall>l \<in> set (butlast (Split 10 out)). length l = length (rule_line ws)" by (elim exE conjE)
  with texts show ?thesis by (intro exI [of _ ws] exI [of _ out]) (simp add: str_def)
qed

section \<open>Queries of a client\<close>

lemma join_with_set: "set (join_with sep xs) \<subseteq> set sep \<union> (\<Union>x \<in> set xs. set x)"
  by (induction sep xs rule: join_with.induct) auto

lemma client_line_inv:
  assumes "client_line ql typed = (ql', act)" and "10 \<notin> set typed" and "\<forall>l \<in> set ql. 10 \<notin> set l"
  shows "(\<forall>l \<in> set ql'. 10 \<notin> set l) \<and> (\<forall>q. act = Send q \<longrightarrow> 10 \<notin> set q \<and> q \<noteq> [] \<and> last q = 59 \<and> TrimSpace q = q)"
proof -
  have line: "10 \<notin> set (TrimSpace typed)" using assms(2) TrimSpace_set by blast
  have query: "10 \<notin> set (TrimSpace (join_with [32] xs))" if "\<forall>l \<in> set xs. 10 \<notin> set l" for xs
    using that TrimSpace_set [of "join_with [32] xs"] join_with_set [of "[32]" xs] by auto
  show ?thesis
    using assms(1,3) line query [of ql] query [of "ql @ [TrimSpace typed]"] by (auto simp: client_line_def Let_def TrimSpace_idem split: if_splits)
qed

lemma client_queries_inv:
  "\<forall>t \<in> set typed. 10 \<notin> set t \<Longrightarrow> \<forall>l \<in> set ql. 10 \<notin> set l \<Longrightarrow> q \<in> set (client_queries ql typed) \<Longrightarrow>
    10 \<notin> set q \<and> q \<noteq> [] \<and> last q = 59 \<and> TrimSpace q = q"
proof (induction typed arbitrary: ql)
  case (Cons t typed)
  obtain ql' act where step: "client_line ql t = (ql', act)" by (cases "client_line ql t")
  with client_line_inv [OF step] Cons show ?case by (cases act) auto
qed simp

text \<open>What the server writes when the executor returned.\<close>

definition answer :: "Result result \<Rightarrow> Response" where
  "answer res = (case res of Inl err \<Rightarrow> error_response err | Inr r \<Rightarrow> ok_response r)"

lemma handle_line_answers:
  assumes "conn_authed c" "length q < max_line" "q \<noteq> []" "TrimSpace q = q" "take 1 q \<noteq> str ''{''"
    and "conn_Execute en q s c = (s', c', res)" "res \<noteq> Inl Panic" "res \<noteq> Inl Diverge"
  shows "handle_line js en q s c = (s', c', Some (server_write (answer res)), False)"
  using assms by (auto simp: handle_line_def request_def Let_def line_query_def answer_def split: sum.split)

text \<open>C39: The client and the server agree. Whatever lines are typed, each query the client sends is a single line that ends with a semicolon.
  Let it reach the server shorter than a mebibyte and not starting with a brace, on a connection that may send queries, with the mutex free, and let the
  executor return, with a result or an error. Then the server executes just this query, writes one answer for it, keeps the connection as it is and
  frees the mutex. The answer carries the result or the error, unless a row of the result has a number that is not finite or a time out of the range of
  JSON: then the server writes an empty line, which is no answer to the waiting client.\<close>

theorem client_queries_answered:
  assumes "\<forall>t \<in> set typed. 10 \<notin> set t" and "q \<in> set (client_queries [] typed)"
    and "length q < max_line" and "take 1 q \<noteq> str ''{''" and "conn_authed c" and "\<not> mu s"
    and "conn_Execute en q s c = (s', c', res)" and "res \<noteq> Inl Panic" and "res \<noteq> Inl Diverge"
  shows "10 \<notin> set q \<and> last q = 59 \<and>
    handle_line js en q s c =
      (s', c', Some (if list_all (list_all (\<lambda>(col, v). marshals v)) (rsp_Rows (answer res)) then Sent (answer res) else BlankLine), False) \<and>
    conn_open c' = conn_open c \<and> conn_authed c' \<and> \<not> mu s'"
proof -
  have q: "10 \<notin> set q" "q \<noteq> []" "last q = 59" "TrimSpace q = q" using client_queries_inv [OF assms(1) _ assms(2)] by simp_all
  have "conn_open c' = conn_open c" "conn_authed c' = conn_authed c" "\<not> mu s'"
    using assms(6-9) by (auto simp: conn_Execute_def split: prod.splits)
  with q handle_line_answers [OF assms(5,3) q(2,4) assms(4,7-9)] assms(5) show ?thesis by (simp add: server_write_def)
qed

theorem client_queries_answered_witness:
  "\<exists>s' c' r. client_queries [] [str '' show'', str ''tables; ''] = [str ''show tables;''] \<and>
     conn_Execute example_env (str ''show tables;'') (server_New example_executor) (accept (server_New example_executor)) = (s', c', Inr r) \<and>
     handle_line example_json example_env (str ''show tables;'') (server_New example_executor) (accept (server_New example_executor)) =
       (s', c', Some (Sent (ok_response r)), False) \<and>
     conn_open c' \<and> conn_authed c' \<and> \<not> mu s'"
proof -
  let ?s = "server_New example_executor" and ?q = "str ''show tables;''" and ?typed = "[str '' show'', str ''tables; '']"
  obtain s' c' res where x: "conn_Execute example_env ?q ?s (accept ?s) = (s', c', res)"
    by (cases "conn_Execute example_env ?q ?s (accept ?s)") auto
  have q: "client_queries [] ?typed = [?q]" by code_simp
  have typed: "\<forall>t \<in> set ?typed. 10 \<notin> set t" by code_simp
  have len: "length ?q < max_line" by (simp add: max_line_def str_def)
  have a: "conn_authed (accept ?s)" "conn_open (accept ?s)" "\<not> mu ?s" by (simp_all add: accept_def server_New_def)
  have facts: "take 1 ?q \<noteq> str ''{''" "splitStatements ?q = [str ''show tables'']" "Parse (str ''show tables'') = Inr ListTables" by code_simp+
  have mem: "?q \<in> set (client_queries [] ?typed)" unfolding q by simp
  have res: "res = Inr (listTables ((NewExecutor (srv_Executor ?s))\<lparr>tx := conn_tx (accept ?s)\<rparr>))"
    using x a(3) by (auto simp: conn_Execute_def Execute_def executeOne_def facts)
  then have "rsp_Rows (answer res) = []"
    by (simp add: answer_def ok_response_def listTables_def server_New_def example_executor_def NewExecutor_def)
  with client_queries_answered [OF typed mem len facts(1) a(1,3) x] res q a(2) x show ?thesis by (simp add: answer_def)
qed

end
