(* ===== verification/Spec2Isabelle.thy ===== *)
theory Spec2Isabelle
  imports Store_Crash Table_Properties Catalog_Correct CLI
begin

text \<open>
  A verification development for go-db, a small relational database in Go. From the bottom up the program
  is: pages in a file with a buffer pool (\<^verbatim>\<open>storage\<close>); a key/value store with a B+Tree index, a write-ahead
  log, snapshots and compaction, and on it tables, a catalog and backups (\<^verbatim>\<open>kv\<close>); a SQL lexer, parser and
  executor with transactions (\<^verbatim>\<open>sql\<close>); a TCP server (\<^verbatim>\<open>server\<close>); and the command line (\<^verbatim>\<open>cmd/go-db\<close>).

  \<^bold>\<open>How the code is modelled.\<close> A struct is a record, an operation a function from the state to the new state
  and a result \<open>db_error + 'a\<close>, with every early return a branch. A Go panic is the error \<open>Panic\<close>, and a loop
  that does not end is \<open>Diverge\<close>: excluding them is a claim. Machine integers are words; strings are byte lists. A Go map is
  an association list, and where the code ranges over a map the order is an argument. A file holds its
  bytes and a schedule of the write and sync calls that will fail, with how much of a write reaches
  the disk. A critical section is one step, so that concurrent clients are a sequence of steps. Pages are values: the code never
  keeps a pointer to a page across an eviction and changes it without writing it back. Tables, and the rows of a
  transaction, are shared by pointer in the code and by position in a heap here.

  \<^bold>\<open>The theories and the sources.\<close>

  \<^item> \<open>Prelude\<close>: words, codecs, errors, maps, files. \<open>Unicode\<close>: UTF-8, case mapping and folding (Unicode 15.0), trimming.
    \<open>Go_Values\<close>, \<open>Go_Parse\<close>: values, floating-point numbers and times as \<^verbatim>\<open>fmt\<close> prints and \<^verbatim>\<open>strconv\<close> and \<^verbatim>\<open>time\<close> read them.
    \<open>SHA256\<close>: the password hash.

  \<^item> \<open>Page\<close>, \<open>Buffer_Pool\<close>, \<open>Pager\<close>: \<^verbatim>\<open>storage/page.go\<close>, \<^verbatim>\<open>buffer_pool.go\<close>, \<^verbatim>\<open>pager.go\<close>. The pool relies on its disk through the
    locale \<open>page_disk\<close>, which the page file implements. The pager is an array of pages, whatever is evicted and whichever
    I/O call fails (\<open>pager_refines_pages\<close>), and closing it brings the array to disk (\<open>pager_Close_reopen\<close>).

  \<^item> \<open>BTree\<close>, \<open>BTree_Correct\<close>: \<^verbatim>\<open>kv/btree.go\<close>. Order, balance and the leaf chain are invariants and the tree is a
    finite map (\<open>btree_implements_map\<close>); the binary search is a linear one (\<open>keyIndex_linear\<close>). The locales \<open>index_builder\<close>
    and \<open>ordered_index\<close> are what the store uses of it.

  \<^item> \<open>WAL\<close>: \<^verbatim>\<open>kv/wal.go\<close>. Round trip, atomicity at any torn byte, detection of a changed byte, and the two ways in which the
    replay surprises (a torn body, a reused transaction ID).

  \<^item> \<open>Page_Records\<close>, \<open>Store\<close>: the records of a page and the store of \<^verbatim>\<open>kv/store.go\<close>, with opening, recovery, snapshots and compaction.
    \<open>Store_Snapshots\<close>: snapshots never change, whatever fails. \<open>Store_Correct\<close>, \<open>Store_Log\<close>, \<open>Store_Compact\<close>, \<open>Store_Session\<close>: while no I/O call
    fails, the store is the log of its writes. \<open>Store_Recovery\<close>: a session as a map, reopening, reads of the past, the space a compaction
    leaves, and the second session whose pages nothing links to. \<open>Store_Crash\<close>: which crashes are survived, a
    deleted key that comes back, a rejected record that stays in the log, a page that is its own successor.

  \<^item> \<open>Table\<close>: \<^verbatim>\<open>kv/table.go\<close>. \<open>Table_Format\<close>: the row format, both round trips. \<open>Table_Index\<close>: the secondary indexes, through the
    locale \<open>value_index\<close> with its instances for adding and removing a key. \<open>Table_Correct\<close>, \<open>Table_Properties\<close>: a table is a map of rows; lookups
    by value, updates, reopening, and where an index falls behind the rows. \<open>Table_Log\<close>: a table as the log of its writes.

  \<^item> \<open>Catalog\<close>, \<open>Catalog_Correct\<close>: \<^verbatim>\<open>kv/catalog.go\<close>, in memory and on disk under failures. \<open>Backup\<close>: \<^verbatim>\<open>kv/backup.go\<close>, a copy opens
    and reads the same.

  \<^item> \<open>SQL_Lex\<close>, \<open>SQL_Parse\<close>, \<open>SQL_Query\<close>, \<open>SQL_Exec\<close>, \<open>SQL_Statements\<close>: \<^verbatim>\<open>sql/sql.go\<close>, in the order of that file. \<open>SQL_Parse_Correct\<close>:
    the parser returns. \<open>SQL_Print\<close>, \<open>SQL_Print_Statements\<close>: what is printed is parsed back. \<open>SQL_Transactions\<close>: what a
    transaction reads, that its writes stay pending, when COMMIT conflicts and what it writes, what ROLLBACK restores.

  \<^item> \<open>Server\<close>: \<^verbatim>\<open>server/server.go\<close>. Without the password nothing reaches the executor; one query stops the service. \<open>CLI\<close>:
    \<^verbatim>\<open>cmd/go-db/main.go\<close>. Client and server agree on queries and answers; the printed table is aligned.

  \<^bold>\<open>Bounds.\<close> The loop along a page chain (\<open>for_chain\<close>) runs at most once more than there are pages: a chain without a cycle
    is shorter, and \<open>page_cycle_diverges\<close> shows that with a cycle no bound is enough. The mutual recursion of the condition parser is
    bounded by four times the number of tokens and four, and \<open>Parse_returns\<close> shows that the bound is never reached. All
    other loops have a termination proof. The theorems about a session of the store ask for fewer than \<open>2 ^ 32 - 1\<close> writes, because
    page numbers have 32 bits and a session uses at most one page for a write; those about tables ask for fewer than \<open>2 ^ 30\<close> calls, because a call
    writes more than one record.

  \<^bold>\<open>What the theorems do not cover.\<close> The map properties of store, tables and transactions are about the first session of a new database, without I/O
  failures and with records that fit on a page; \<open>second_session_unlinked\<close> and \<open>oversize_put\<close> show that the code does not keep
  them beyond. Those of tables leave out batches, for \<open>batch_skips_index\<close> shows that a batch misses the indexes.

  \<^bold>\<open>What is not modelled.\<close> Failures of reading and of opening an existing file, and with them the store that \<open>Compact\<close> leaves without a pager when it cannot
  open the new file; results that accompany an error, which no caller uses; the bytes of JSON, for which the decoded values stand (with invalid UTF-8
  replaced, and with the empty line that is sent for what has no JSON); flags, sockets, signals and exit codes; \<^verbatim>\<open>serverCommand\<close>, the start of the
  server, which may open several tables on one store; \<^verbatim>\<open>examples/basic\<close>, which calls the library once. \<^verbatim>\<open>sort.SliceStable\<close> is an
  insertion sort, which has the same result for every order on the rows that is one.
\<close>

end
